(* ===== verification/C_Prelude.thy ===== *)
theory C_Prelude
  imports Main "HOL-Library.Word" "HOL-Library.Monad_Syntax"
begin

text \<open>
  The shared layer of the development: the C integer types, memory accesses that can go
  wrong, the loop shapes the sources use, byte copies and C strings.

  A C computation has type \<open>'a option\<close>. \<open>Some v\<close> is a run that returns \<open>v\<close>;
  \<open>None\<close> is a run with no defined result (an access outside its object, a null pointer
  that is followed, a loop that never ends). Memory safety of an operation is therefore
  the statement that it yields \<open>Some\<close>, and nothing can be concluded from an access the C
  standard does not define.

  An object that the code reads and writes through a pointer is a list, the pointer an index
  into it. The loops \<open>for (i = 0; i < n; ++i)\<close> of the sources start at zero and stop at a bound of
  the counter's own type, so the counter never wraps and is a \<open>nat\<close> here; sums
  and products computed from it keep their machine width.
\<close>

unbundle bit_operations_syntax

section \<open>Machine integers\<close>

type_synonym u8 = "8 word"
type_synonym u16 = "16 word"
type_synonym u32 = "32 word"
type_synonym u64 = "64 word"

named_theorems mem_simps \<open>accesses that are known to stay inside their object\<close>
named_theorems blit_simps \<open>algebra of byte-range overwrites\<close>
named_theorems model_defs \<open>definitions unfolded when a component is evaluated or proved\<close>

lemma unat_of_nat_64 [simp]: "n < 2 ^ 64 \<Longrightarrow> unat (of_nat n :: u64) = n"
  by (simp add: unat_of_nat)

lemma unat_less_64: "unat (x :: u64) < 2 ^ 64"
proof -
  have "unat x < 2 ^ LENGTH(64)" by (rule unsigned_less)
  then show ?thesis by simp
qed

text \<open>The measure of every counting loop over a machine word.\<close>

lemma word_up_measure:
  fixes i n :: "'a :: len word"
  assumes "i < n"
  shows "unat (n - (i + 1)) < unat (n - i)"
proof -
  have "n - i \<noteq> 0" using assms by auto
  then have "unat (n - i - 1) = unat (n - i) - 1" by (rule unat_minus_one)
  moreover have "0 < unat (n - i)" using \<open>n - i \<noteq> 0\<close> by (simp add: unat_gt_0)
  ultimately show ?thesis by (simp add: diff_diff_add)
qed

lemma unat_plus_one:
  fixes x y :: "'a :: len word"
  assumes "x < y"
  shows "unat (x + 1) = Suc (unat x)"
proof -
  have "unat x + unat (1 :: 'a word) \<le> unat y" using assms by (simp add: word_less_nat_alt)
  also have "unat y < 2 ^ LENGTH('a)" by (rule unsigned_less)
  finally have "unat (x + 1) = unat x + unat (1 :: 'a word)" by (rule unat_add_lem [THEN iffD1])
  then show ?thesis by simp
qed

lemma unat_plus_of_nat:
  fixes x :: u64
  assumes "unat x + n < 2 ^ 64"
  shows "unat (x + of_nat n) = unat x + n"
proof -
  have "unat (of_nat n :: u64) = n" using assms by simp
  moreover from this have "unat (x + of_nat n) = unat x + unat (of_nat n :: u64)"
    using assms by (intro unat_add_lem [THEN iffD1]) simp
  ultimately show ?thesis by simp
qed

text \<open>Casts to a signed integer type keep small values.\<close>

lemma uint_less_pow: "unat (w :: 'a :: len word) < 2 ^ k \<Longrightarrow> uint w < 2 ^ k"
  by (metis of_nat_less_iff of_nat_numeral of_nat_power uint_nat)

lemma signed_small: "uint (w :: 'a :: len word) < 2 ^ k \<Longrightarrow> signed_take_bit k (uint w) = int (unat w)"
  by (subst signed_take_bit_int_eq_self) (auto intro: order_trans [OF _ uint_ge_0])

lemma sint_small: "unat (w :: u64) < 2 ^ 63 \<Longrightarrow> sint w = int (unat w)"
  using signed_small [OF uint_less_pow, of w 63] by (simp add: sint_uint)

lemma sint_ucast_small:
  fixes w :: u64
  assumes "unat w < 2 ^ 31"
  shows "sint (ucast w :: 32 word) = int (unat w)"
proof -
  have lt: "uint w < 2 ^ 31" by (rule uint_less_pow [OF assms])
  then have "uint w < 2 ^ 32" by simp
  then have "uint (ucast w :: 32 word) = uint w"
    unfolding unsigned_ucast_eq using uint_ge_0 [of w] by (intro take_bit_int_eq_self) auto
  then have "sint (ucast w :: 32 word) = signed_take_bit 31 (uint w)" by (simp add: sint_uint)
  then show ?thesis using signed_small [OF lt] by simp
qed

section \<open>Checked accesses\<close>

definition rd :: "'a list \<Rightarrow> nat \<Rightarrow> 'a option" where
  "rd xs i = (if i < length xs then Some (xs ! i) else None)"

definition wr :: "'a list \<Rightarrow> nat \<Rightarrow> 'a \<Rightarrow> 'a list option" where
  "wr xs i v = (if i < length xs then Some (xs[i := v]) else None)"

lemma rd_Some [simp, mem_simps]: "i < length xs \<Longrightarrow> rd xs i = Some (xs ! i)"
  by (simp add: rd_def)

lemma rd_None [simp]: "length xs \<le> i \<Longrightarrow> rd xs i = None"
  by (simp add: rd_def)

lemma rd_eq_Some_iff: "rd xs i = Some v \<longleftrightarrow> i < length xs \<and> xs ! i = v"
  by (auto simp: rd_def)

lemma wr_Some [simp, mem_simps]: "i < length xs \<Longrightarrow> wr xs i v = Some (xs[i := v])"
  by (simp add: wr_def)

lemma wr_None [simp]: "length xs \<le> i \<Longrightarrow> wr xs i v = None"
  by (simp add: wr_def)

lemma wr_eq_Some_iff: "wr xs i v = Some ys \<longleftrightarrow> i < length xs \<and> ys = xs[i := v]"
  by (auto simp: wr_def)

section \<open>Loops\<close>

text \<open>
  \<open>scan c k i\<close> is the loop that tries \<open>c\<close> at \<open>i, i + 1, \<dots>\<close>, \<open>k\<close> times at most, and
  leaves at the first index that satisfies it. The result is the index (\<open>Some (Some j)\<close>),
  or \<open>Some None\<close> when the loop runs to its end.
\<close>

primrec scan :: "(nat \<Rightarrow> bool option) \<Rightarrow> nat \<Rightarrow> nat \<Rightarrow> nat option option" where
  "scan c 0 i = Some None"
| "scan c (Suc k) i = do { b \<leftarrow> c i; if b then Some (Some i) else scan c k (Suc i) }"

text \<open>\<open>for_up f k i s\<close> runs the body \<open>f\<close> at \<open>i, \<dots>, i + k - 1\<close> on the state \<open>s\<close>.\<close>

primrec for_up :: "(nat \<Rightarrow> 's \<Rightarrow> 's option) \<Rightarrow> nat \<Rightarrow> nat \<Rightarrow> 's \<Rightarrow> 's option" where
  "for_up f 0 i s = Some s"
| "for_up f (Suc k) i s = do { s' \<leftarrow> f i s; for_up f k (Suc i) s' }"

lemma scan_find:
  "(\<And>j. i \<le> j \<Longrightarrow> j < i + k \<Longrightarrow> c j = Some (P j)) \<Longrightarrow>
     scan c k i = Some (find P [i..<i + k])"
proof (induction k arbitrary: i)
  case (Suc k)
  have "[i..<i + Suc k] = i # [Suc i..<Suc i + k]"
    by (simp add: upt_conv_Cons)
  moreover have "scan c k (Suc i) = Some (find P [Suc i..<Suc i + k])"
    by (rule Suc.IH) (simp add: Suc.prems)
  ultimately show ?case by (simp add: Suc.prems)
qed simp

lemma find_upt_Some:
  "find P [0..<n] = Some i \<longleftrightarrow> i < n \<and> P i \<and> (\<forall>j<i. \<not> P j)"
  by (auto simp: find_Some_iff)

lemma find_upt_None: "find P [0..<n] = None \<longleftrightarrow> (\<forall>i<n. \<not> P i)"
  by (auto simp: find_None_iff)

text \<open>The invariant rule for counting loops: the run is defined and ends in the invariant.\<close>

lemma for_up_rule:
  assumes "I i s"
    and "\<And>j t. i \<le> j \<Longrightarrow> j < i + k \<Longrightarrow> I j t \<Longrightarrow> \<exists>t'. f j t = Some t' \<and> I (Suc j) t'"
  shows "\<exists>s'. for_up f k i s = Some s' \<and> I (i + k) s'"
  using assms
proof (induction k arbitrary: i s)
  case (Suc k)
  then obtain t where t: "f i s = Some t" "I (Suc i) t" by fastforce
  have "\<exists>s'. for_up f k (Suc i) t = Some s' \<and> I (Suc i + k) s'"
    by (rule Suc.IH) (use t Suc.prems in auto)
  with t show ?case by simp
qed simp

lemma for_up_add:
  "for_up f (m + n) i s = do { t \<leftarrow> for_up f m i s; for_up f n (i + m) t }"
  by (induction m arbitrary: i s) (auto split: bind_split)

lemma for_up_cong:
  "(\<And>j s. i \<le> j \<Longrightarrow> j < i + k \<Longrightarrow> f j s = g j s) \<Longrightarrow> for_up f k i s = for_up g k i s"
proof (induction k arbitrary: i s)
  case (Suc k)
  have "for_up f k (Suc i) t = for_up g k (Suc i) t" for t by (rule Suc.IH) (simp add: Suc.prems)
  then show ?case by (simp add: Suc.prems)
qed simp

section \<open>Byte copies\<close>

text \<open>
  \<open>copy_bytes dst d src s n\<close> is the loop \<open>dst[i] = src[i]\<close> of every local memcpy, for
  pointers at offset \<open>d\<close> of one object and offset \<open>s\<close> of another. \<open>blit dst d bs\<close> is what
  such a copy means: \<open>dst\<close> with \<open>bs\<close> laid over it from offset \<open>d\<close>.
\<close>

definition copy_bytes :: "'a list \<Rightarrow> nat \<Rightarrow> 'a list \<Rightarrow> nat \<Rightarrow> nat \<Rightarrow> 'a list option" where
  "copy_bytes dst d src s n =
     for_up (\<lambda>i buf. do { b \<leftarrow> rd src (s + i); wr buf (d + i) b }) n 0 dst"

definition blit :: "'a list \<Rightarrow> nat \<Rightarrow> 'a list \<Rightarrow> 'a list" where
  "blit dst d bs = take d dst @ bs @ drop (d + length bs) dst"

lemma length_blit [simp]: "d + length bs \<le> length dst \<Longrightarrow> length (blit dst d bs) = length dst"
  by (simp add: blit_def)

lemma nth_blit:
  assumes "d + length bs \<le> length dst" and "k < length dst"
  shows "blit dst d bs ! k =
    (if k < d then dst ! k else if k < d + length bs then bs ! (k - d) else dst ! k)"
  using assms by (auto simp: blit_def nth_append min_def)

lemma blit_Nil [simp]: "blit dst d [] = dst"
  by (simp add: blit_def)

lemma blit_same:
  assumes "d + length bs \<le> length dst" and "length bs' = length bs"
  shows "blit (blit dst d bs) d bs' = blit dst d bs'"
  using assms by (intro nth_equalityI) (auto simp: nth_blit)

lemma blit_commute:
  assumes "d + length bs \<le> length dst" and "e + length cs \<le> length dst"
    and "d + length bs \<le> e \<or> e + length cs \<le> d"
  shows "blit (blit dst d bs) e cs = blit (blit dst e cs) d bs"
  using assms by (intro nth_equalityI) (auto simp: nth_blit)

lemma slice_blit_same:
  assumes "d + length bs \<le> length dst"
  shows "take (length bs) (drop d (blit dst d bs)) = bs"
  using assms by (simp add: blit_def min_def)

lemma slice_blit_other:
  assumes "d + length bs \<le> length dst" and "d + length bs \<le> e \<or> e + n \<le> d"
    and "e + n \<le> length dst"
  shows "take n (drop e (blit dst d bs)) = take n (drop e dst)"
  using assms by (intro nth_equalityI) (auto simp: nth_blit)

lemma blit_snoc:
  assumes "d + length bs < length dst"
  shows "(blit dst d bs)[d + length bs := b] = blit dst d (bs @ [b])"
  using assms by (intro nth_equalityI) (auto simp: nth_blit nth_list_update nth_append)

lemmas blit_rules [blit_simps] = length_blit blit_same slice_blit_same slice_blit_other

lemma copy_bytes_prefix:
  assumes "k \<le> n" and "s + n \<le> length src" and "d + n \<le> length dst"
  shows "for_up (\<lambda>i buf. do { b \<leftarrow> rd src (s + i); wr buf (d + i) b }) k 0 dst =
    Some (blit dst d (take k (drop s src)))"
  using assms(1)
proof (induction k)
  case (Suc k)
  let ?body = "\<lambda>i buf. do { b \<leftarrow> rd src (s + i); wr buf (d + i) b }"
  let ?bs = "take k (drop s src)"
  have bs: "length ?bs = k" "take (Suc k) (drop s src) = ?bs @ [src ! (s + k)]"
    using Suc.prems assms(2) by (auto simp: take_Suc_conv_app_nth)
  have "for_up ?body (Suc k) 0 dst = do { t \<leftarrow> for_up ?body k 0 dst; ?body k t }"
    using for_up_add [of ?body k 1 0 dst] by simp
  also have "\<dots> = Some ((blit dst d ?bs)[d + k := src ! (s + k)])"
    using Suc assms(2,3) bs(1) by simp
  also have "\<dots> = Some (blit dst d (?bs @ [src ! (s + k)]))"
    using blit_snoc [of d ?bs dst "src ! (s + k)"] Suc.prems assms(3) bs(1) by simp
  finally show ?case using bs(2) by simp
qed simp

lemma copy_bytes_Some [mem_simps]:
  "s + n \<le> length src \<Longrightarrow> d + n \<le> length dst \<Longrightarrow>
     copy_bytes dst d src s n = Some (blit dst d (take n (drop s src)))"
  using copy_bytes_prefix [of n n s src d dst] by (simp add: copy_bytes_def)

text \<open>A copy that leaves either object has no defined result.\<close>

lemma copy_bytes_None:
  assumes "length src < s + n \<or> length dst < d + n" and "s \<le> length src" and "d \<le> length dst"
  shows "copy_bytes dst d src s n = None"
proof -
  let ?body = "\<lambda>i buf. do { b \<leftarrow> rd src (s + i); wr buf (d + i) b }"
  define k where "k = min (length src - s) (length dst - d)"
  have k: "k < n" "s + k \<le> length src" "d + k \<le> length dst"
    "s + k = length src \<or> d + k = length dst"
    using assms by (auto simp: k_def)
  have pre: "for_up ?body k 0 dst = Some (blit dst d (take k (drop s src)))"
    by (rule copy_bytes_prefix) (use k in auto)
  have stop: "for_up ?body (Suc m) k (blit dst d (take k (drop s src))) = None" for m
    using k by (auto simp: rd_def wr_def)
  obtain m where "n = k + Suc m" using k(1) less_iff_Suc_add by auto
  then show ?thesis
    using for_up_add [of ?body k "Suc m" 0 dst] pre stop [of m] by (simp add: copy_bytes_def)
qed

text \<open>The loop \<open>dst[i] = v\<close>, and reading a little-endian integer out of memory.\<close>

definition fill_bytes :: "u8 \<Rightarrow> u8 list \<Rightarrow> nat \<Rightarrow> u8 list option" where
  "fill_bytes v dst n = for_up (\<lambda>i buf. wr buf i v) n 0 dst"

primrec le_word :: "u8 list \<Rightarrow> 'a :: len word" where
  "le_word [] = 0"
| "le_word (b # bs) = ucast b OR push_bit 8 (le_word bs)"

lemma fill_bytes_eq_copy: "fill_bytes v dst n = copy_bytes dst 0 (replicate n v) 0 n"
proof -
  have "for_up (\<lambda>i buf. wr buf i v) k i dst =
      for_up (\<lambda>i buf. do { b \<leftarrow> rd (replicate n v) (0 + i); wr buf (0 + i) b }) k i dst"
    if "i + k \<le> n" for k i
    using that by (induction k arbitrary: i dst) (auto split: bind_split)
  then show ?thesis by (simp add: fill_bytes_def copy_bytes_def)
qed

lemma fill_bytes_Some [mem_simps]:
  "n \<le> length dst \<Longrightarrow> fill_bytes v dst n = Some (replicate n v @ drop n dst)"
  by (simp add: fill_bytes_eq_copy copy_bytes_Some blit_def)

lemma le_word_zeros [simp]: "le_word (replicate n 0) = (0 :: 'a :: len word)"
  by (induction n) simp_all

section \<open>C strings\<close>

text \<open>
  A \<open>const char *\<close> is the list of bytes from the pointer to the end of its object. \<open>is_cstr\<close>
  says that a terminator lies inside the object, \<open>cstr\<close> is the string before it.
\<close>

definition is_cstr :: "u8 list \<Rightarrow> bool" where
  "is_cstr s \<longleftrightarrow> 0 \<in> set s"

definition cstr :: "u8 list \<Rightarrow> u8 list" where
  "cstr s = takeWhile (\<lambda>c. c \<noteq> 0) s"

text \<open>
  The comparison loop that the RAM file system and MCSFS1 share: characters are signed on
  x86-64, the result is the difference of the first two that differ.
\<close>

fun strcmp_loop :: "u8 list \<Rightarrow> u8 list \<Rightarrow> int option" where
  "strcmp_loop (a # as) (b # bs) =
     (if a \<noteq> 0 \<and> b \<noteq> 0 then
        (if a \<noteq> b then Some (sint a - sint b) else strcmp_loop as bs)
      else Some (sint a - sint b))"
| "strcmp_loop _ _ = None"

text \<open>The copy loop \<open>while (*src) *dst++ = *src++; *dst = '\0';\<close>.\<close>

fun strcpy_loop :: "u8 list \<Rightarrow> nat \<Rightarrow> u8 list \<Rightarrow> u8 list option" where
  "strcpy_loop dst i [] = None"
| "strcpy_loop dst i (c # cs) =
     (if c \<noteq> 0 then do { dst' \<leftarrow> wr dst i c; strcpy_loop dst' (Suc i) cs }
      else wr dst i 0)"

lemma is_cstr_Cons [simp]: "is_cstr (c # cs) \<longleftrightarrow> c = 0 \<or> is_cstr cs"
  by (auto simp: is_cstr_def)

lemma is_cstr_Nil [simp]: "\<not> is_cstr []"
  by (simp add: is_cstr_def)

lemma cstr_Cons [simp]: "cstr (c # cs) = (if c = 0 then [] else c # cstr cs)"
  by (simp add: cstr_def)

lemma cstr_Nil [simp]: "cstr [] = []"
  by (simp add: cstr_def)

lemma length_cstr_less: "is_cstr s \<Longrightarrow> length (cstr s) < length s"
  by (induction s) auto

lemma zero_notin_cstr [simp]: "0 \<notin> set (cstr s)"
  by (induction s) auto

lemma cstr_terminated [simp]: "0 \<notin> set t \<Longrightarrow> cstr (t @ 0 # u) = t"
  by (induction t) auto

lemma is_cstr_terminated [simp]: "is_cstr (t @ 0 # u)"
  by (simp add: is_cstr_def)

lemma cstr_fixpoint: "0 \<notin> set t \<Longrightarrow> cstr t = t"
  by (induction t) auto

lemma sint_inject_8: "sint (a :: u8) = sint b \<longleftrightarrow> a = b"
  by (auto intro: signed_word_eqI)

lemmas sint_zero_8 = sint_inject_8 [of _ 0, simplified]

text \<open>Two terminated strings are compared inside their objects, and equal exactly when zero.\<close>

lemma strcmp_loop_correct:
  "is_cstr a \<Longrightarrow> is_cstr b \<Longrightarrow>
     \<exists>r. strcmp_loop a b = Some r \<and> (r = 0 \<longleftrightarrow> cstr a = cstr b)"
proof (induction a b rule: strcmp_loop.induct)
  case (1 a as b bs)
  show ?case
  proof (cases "a \<noteq> 0 \<and> b \<noteq> 0 \<and> a = b")
    case True
    with 1 show ?thesis by simp
  next
    case False
    then show ?thesis by (auto simp: sint_inject_8 sint_zero_8)
  qed
qed simp_all

lemma strcpy_loop_Some:
  "is_cstr src \<Longrightarrow> i + length (cstr src) < length dst \<Longrightarrow>
     strcpy_loop dst i src = Some (blit dst i (cstr src @ [0]))"
proof (induction dst i src rule: strcpy_loop.induct)
  case (2 dst i c cs)
  show ?case
  proof (cases "c = 0")
    case True
    with 2 show ?thesis
      using blit_snoc [of i "[]" dst c] by simp
  next
    case False
    with 2 have "strcpy_loop (dst[i := c]) (Suc i) cs =
        Some (blit (dst[i := c]) (Suc i) (cstr cs @ [0]))"
      by simp
    moreover have "blit (dst[i := c]) (Suc i) (cstr cs @ [0]) = blit dst i (c # cstr cs @ [0])"
      using 2 False by (intro nth_equalityI) (auto simp: nth_blit nth_list_update nth_Cons')
    ultimately show ?thesis using 2 False by simp
  qed
qed simp

text \<open>A string that does not fit is written past the end of its destination.\<close>

lemma strcpy_loop_None:
  "is_cstr src \<Longrightarrow> length dst \<le> i + length (cstr src) \<Longrightarrow> strcpy_loop dst i src = None"
proof (induction dst i src rule: strcpy_loop.induct)
  case (2 dst i c cs)
  then show ?case by (cases "c = 0"; cases "i < length dst") auto
qed simp

end
