(* ===== verification/Block_Device.thy ===== *)
theory Block_Device
  imports C_Prelude
begin

text \<open>
  The block layer of \<open>src/kernel/block/m14_ramblk.c\<close> and \<open>mcs_block.h\<close>: a RAM disk, the
  generic device with its driver callbacks, and the dispatch through them.

  A \<open>mcs_ram_block_device_t\<close> lives in a store indexed by its address, so that several
  devices bound to the same RAM disk see each other's writes. A callback field holds the name of
  the function it points to; \<open>None\<close> is a null pointer.
\<close>

section \<open>Model\<close>

abbreviation MCS_BLOCK_SIZE :: u64 where "MCS_BLOCK_SIZE \<equiv> 512"
abbreviation MCS_BLOCK_OK :: int where "MCS_BLOCK_OK \<equiv> 0"
abbreviation MCS_BLOCK_EINVAL :: int where "MCS_BLOCK_EINVAL \<equiv> - 1"

record mcs_ram_block_device =
  storage :: "u8 list"
  total_blocks :: u64

datatype blk_read_fn = Fn_m14_ramblk_read
datatype blk_write_fn = Fn_m14_ramblk_write

record mcs_block_device =
  block_count :: u64
  read_fn :: "blk_read_fn option"
  write_fn :: "blk_write_fn option"
  driver_data :: "nat option"

type_synonym ram_store = "nat \<rightharpoonup> mcs_ram_block_device"

definition m14_memcpy :: "u8 list \<Rightarrow> nat \<Rightarrow> u8 list \<Rightarrow> nat \<Rightarrow> u64 \<Rightarrow> u8 list option" where
  "m14_memcpy dst d src s n = copy_bytes dst d src s (unat n)"

definition m14_ramblk_read ::
  "ram_store \<Rightarrow> mcs_block_device option \<Rightarrow> u64 \<Rightarrow> u8 list option \<Rightarrow> (int \<times> u8 list option) option"
where
  "m14_ramblk_read st dev lba buffer =
     (case (dev, buffer) of
        (Some d, Some dst) \<Rightarrow> do {
          p \<leftarrow> driver_data d;
          ramdev \<leftarrow> st p;
          if total_blocks ramdev \<le> lba then Some (MCS_BLOCK_EINVAL, buffer)
          else do {
            dst' \<leftarrow> m14_memcpy dst 0 (storage ramdev) (unat (lba * MCS_BLOCK_SIZE)) MCS_BLOCK_SIZE;
            Some (MCS_BLOCK_OK, Some dst')
          }
        }
      | _ \<Rightarrow> Some (MCS_BLOCK_EINVAL, buffer))"

definition m14_ramblk_write ::
  "ram_store \<Rightarrow> mcs_block_device option \<Rightarrow> u64 \<Rightarrow> u8 list option \<Rightarrow> (int \<times> ram_store) option"
where
  "m14_ramblk_write st dev lba buffer =
     (case (dev, buffer) of
        (Some d, Some src) \<Rightarrow> do {
          p \<leftarrow> driver_data d;
          ramdev \<leftarrow> st p;
          if total_blocks ramdev \<le> lba then Some (MCS_BLOCK_EINVAL, st)
          else do {
            storage' \<leftarrow> m14_memcpy (storage ramdev) (unat (lba * MCS_BLOCK_SIZE)) src 0 MCS_BLOCK_SIZE;
            Some (MCS_BLOCK_OK, st(p \<mapsto> ramdev\<lparr>storage := storage'\<rparr>))
          }
        }
      | _ \<Rightarrow> Some (MCS_BLOCK_EINVAL, st))"

definition mcs_ram_block_init :: "ram_store \<Rightarrow> nat \<Rightarrow> u8 list \<Rightarrow> u64 \<Rightarrow> ram_store" where
  "mcs_ram_block_init st p bytes blocks = st(p \<mapsto> \<lparr>storage = bytes, total_blocks = blocks\<rparr>)"

definition mcs_block_bind_ramdev ::
  "ram_store \<Rightarrow> mcs_block_device \<Rightarrow> nat \<Rightarrow> mcs_block_device option" where
  "mcs_block_bind_ramdev st dev p = do {
     ramdev \<leftarrow> st p;
     Some (dev\<lparr>block_count := total_blocks ramdev,
               read_fn := Some Fn_m14_ramblk_read,
               write_fn := Some Fn_m14_ramblk_write,
               driver_data := Some p\<rparr>)
   }"

definition mcs_block_read ::
  "ram_store \<Rightarrow> mcs_block_device option \<Rightarrow> u64 \<Rightarrow> u8 list option \<Rightarrow> (int \<times> u8 list option) option"
where
  "mcs_block_read st dev lba buffer = do {
     d \<leftarrow> dev;
     f \<leftarrow> read_fn d;
     (case f of Fn_m14_ramblk_read \<Rightarrow> m14_ramblk_read st dev lba buffer)
   }"

definition mcs_block_write ::
  "ram_store \<Rightarrow> mcs_block_device option \<Rightarrow> u64 \<Rightarrow> u8 list option \<Rightarrow> (int \<times> ram_store) option"
where
  "mcs_block_write st dev lba buffer = do {
     d \<leftarrow> dev;
     f \<leftarrow> write_fn d;
     (case f of Fn_m14_ramblk_write \<Rightarrow> m14_ramblk_write st dev lba buffer)
   }"

section \<open>The contract of a block device\<close>

text \<open>
  What a client of the block layer relies on, with a device state \<open>'s\<close>: a block that was
  written reads back, every other block is kept, and an address past the end is refused.
\<close>

locale block_store =
  fixes nblocks :: "'s \<Rightarrow> u64"
    and get :: "'s \<Rightarrow> u64 \<Rightarrow> u8 list option"
    and put :: "'s \<Rightarrow> u64 \<Rightarrow> u8 list \<Rightarrow> 's option"
    and ok :: "'s \<Rightarrow> bool"
  assumes get_in: "ok s \<Longrightarrow> l < nblocks s \<Longrightarrow> \<exists>b. get s l = Some b \<and> length b = 512"
    and get_out: "ok s \<Longrightarrow> nblocks s \<le> l \<Longrightarrow> get s l = None"
    and put_in: "ok s \<Longrightarrow> l < nblocks s \<Longrightarrow> length b = 512 \<Longrightarrow> \<exists>s'. put s l b = Some s'"
    and put_out: "ok s \<Longrightarrow> nblocks s \<le> l \<Longrightarrow> put s l b = None"
    and put_ok: "ok s \<Longrightarrow> length b = 512 \<Longrightarrow> put s l b = Some s' \<Longrightarrow> ok s' \<and> nblocks s' = nblocks s"
    and get_put: "ok s \<Longrightarrow> length b = 512 \<Longrightarrow> put s l b = Some s' \<Longrightarrow>
      get s' k = (if k = l then Some b else get s k)"
begin

text \<open>A batch of block writes, in order.\<close>

primrec put_all :: "'s \<Rightarrow> (u64 \<times> u8 list) list \<Rightarrow> 's option" where
  "put_all s [] = Some s"
| "put_all s (w # ws) = do { s' \<leftarrow> put s (fst w) (snd w); put_all s' ws }"

lemma put_all_defined:
  "ok s \<Longrightarrow> \<forall>w\<in>set ws. fst w < nblocks s \<and> length (snd w) = 512 \<Longrightarrow>
     \<exists>s'. put_all s ws = Some s' \<and> ok s' \<and> nblocks s' = nblocks s"
proof (induction ws arbitrary: s)
  case (Cons w ws)
  then obtain t where t: "put s (fst w) (snd w) = Some t"
    using put_in by (metis list.set_intros(1))
  with Cons.prems have "ok t" "nblocks t = nblocks s" by (auto dest: put_ok)
  with Cons t show ?case by fastforce
qed simp

text \<open>After the batch a block holds what was written to it last.\<close>

lemma get_put_all:
  "ok s \<Longrightarrow> \<forall>w\<in>set ws. length (snd w) = 512 \<Longrightarrow> put_all s ws = Some s' \<Longrightarrow>
     get s' k = (case map_of (rev ws) k of Some b \<Rightarrow> Some b | None \<Rightarrow> get s k)"
proof (induction ws arbitrary: s)
  case (Cons w ws)
  then obtain t where t: "put s (fst w) (snd w) = Some t" "put_all t ws = Some s'"
    by (auto split: bind_splits)
  with Cons.prems have "ok t" "get t k = (if k = fst w then Some (snd w) else get s k)"
    using get_put [of s "snd w" "fst w" t k] by (auto dest: put_ok)
  with Cons t show ?case by (auto simp: map_add_def split: option.splits)
qed simp

end

section \<open>The RAM disk meets it\<close>

text \<open>
  A RAM disk is well formed when its storage holds all of its blocks. \<open>ramblk_bound\<close> says
  that a device was bound to a well-formed RAM disk.
\<close>

definition ramdev_ok :: "mcs_ram_block_device \<Rightarrow> bool" where
  "ramdev_ok r \<longleftrightarrow> unat (total_blocks r) * 512 \<le> length (storage r) \<and> length (storage r) < 2 ^ 64"

definition ramblk_bound :: "ram_store \<Rightarrow> mcs_block_device \<Rightarrow> bool" where
  "ramblk_bound st d \<longleftrightarrow>
     read_fn d = Some Fn_m14_ramblk_read \<and> write_fn d = Some Fn_m14_ramblk_write \<and>
     (\<exists>p r. driver_data d = Some p \<and> st p = Some r \<and> ramdev_ok r \<and> block_count d = total_blocks r)"

definition disk_block :: "u8 list \<Rightarrow> u64 \<Rightarrow> u8 list" where
  "disk_block bytes l = take 512 (drop (unat l * 512) bytes)"

lemma unat_lba_offset:
  assumes "l < n" and "unat n * 512 \<le> len" and "len < 2 ^ 64"
  shows "unat (l * 512 :: u64) = unat l * 512" and "unat l * 512 + 512 \<le> len"
proof -
  have "unat l < unat n" using assms(1) by (simp add: word_less_nat_alt)
  then show 2: "unat l * 512 + 512 \<le> len" using assms(2) by linarith
  then have "unat l * unat (512 :: u64) < 2 ^ LENGTH(64)" using assms(3) by simp
  then show "unat (l * 512) = unat l * 512" by (subst unat_mult_lem [THEN iffD1]) auto
qed

lemma length_disk_block:
  "l < n \<Longrightarrow> unat n * 512 \<le> length bytes \<Longrightarrow> length bytes < 2 ^ 64 \<Longrightarrow>
     length (disk_block bytes l) = 512"
  using unat_lba_offset (2) [of l n "length bytes"] by (simp add: disk_block_def)

lemma length_ramdev_block:
  "ramdev_ok r \<Longrightarrow> l < total_blocks r \<Longrightarrow> length (disk_block (storage r) l) = 512"
  using length_disk_block [of l "total_blocks r" "storage r"] by (simp add: ramdev_ok_def)

lemma disk_block_blit:
  assumes "l < n" "k < n" and "unat n * 512 \<le> length bytes" "length bytes < 2 ^ 64"
    and "length b = 512"
  shows "disk_block (blit bytes (unat l * 512) b) k = (if k = l then b else disk_block bytes k)"
proof -
  have off: "unat l * 512 + 512 \<le> length bytes" "unat k * 512 + 512 \<le> length bytes"
    using unat_lba_offset (2) assms(1-4) by blast+
  show ?thesis
  proof (cases "k = l")
    case True
    then show ?thesis using off assms(5) slice_blit_same [of "unat l * 512" b bytes]
      by (simp add: disk_block_def)
  next
    case False
    then have "unat l < unat k \<or> unat k < unat l"
      by (metis linorder_neqE_nat word_unat_eq_iff)
    then have "unat l * 512 + length b \<le> unat k * 512 \<or> unat k * 512 + 512 \<le> unat l * 512"
      using assms(5) by auto
    then show ?thesis using off assms(5) False
      by (simp add: disk_block_def slice_blit_other)
  qed
qed

lemma m14_ramblk_read_in:
  assumes "driver_data d = Some p" "st p = Some r" "ramdev_ok r"
    and "lba < total_blocks r" "512 \<le> length buf"
  shows "m14_ramblk_read st (Some d) lba (Some buf) =
    Some (MCS_BLOCK_OK, Some (blit buf 0 (disk_block (storage r) lba)))"
  using assms unat_lba_offset [of lba "total_blocks r" "length (storage r)"]
  by (simp add: m14_ramblk_read_def m14_memcpy_def ramdev_ok_def disk_block_def copy_bytes_Some)

lemma m14_ramblk_write_in:
  assumes "driver_data d = Some p" "st p = Some r" "ramdev_ok r"
    and "lba < total_blocks r" "512 \<le> length src"
  shows "m14_ramblk_write st (Some d) lba (Some src) =
    Some (MCS_BLOCK_OK, st(p \<mapsto> r\<lparr>storage := blit (storage r) (unat lba * 512) (take 512 src)\<rparr>))"
  using assms unat_lba_offset [of lba "total_blocks r" "length (storage r)"]
  by (simp add: m14_ramblk_write_def m14_memcpy_def ramdev_ok_def copy_bytes_Some)

lemma ramblk_boundE:
  assumes "ramblk_bound st d"
  obtains p r where "driver_data d = Some p" "st p = Some r" "ramdev_ok r"
    "block_count d = total_blocks r" "read_fn d = Some Fn_m14_ramblk_read"
    "write_fn d = Some Fn_m14_ramblk_write"
  using assms by (auto simp: ramblk_bound_def)

lemma mcs_block_read_in:
  assumes "ramblk_bound st d" "driver_data d = Some p" "st p = Some r"
    and "lba < block_count d" "512 \<le> length buf"
  shows "mcs_block_read st (Some d) lba (Some buf) =
    Some (MCS_BLOCK_OK, Some (blit buf 0 (disk_block (storage r) lba)))"
  using assms by (auto elim!: ramblk_boundE simp: mcs_block_read_def m14_ramblk_read_in)

lemma mcs_block_write_in:
  assumes "ramblk_bound st d" "driver_data d = Some p" "st p = Some r"
    and "lba < block_count d" "512 \<le> length src"
  shows "mcs_block_write st (Some d) lba (Some src) =
    Some (MCS_BLOCK_OK, st(p \<mapsto> r\<lparr>storage := blit (storage r) (unat lba * 512) (take 512 src)\<rparr>))"
  using assms by (auto elim!: ramblk_boundE simp: mcs_block_write_def m14_ramblk_write_in)

lemma ramblk_bound_write:
  assumes "ramblk_bound st d" "driver_data d = Some p" "st p = Some r" "lba < block_count d"
    "length b = 512"
  shows "ramblk_bound (st(p \<mapsto> r\<lparr>storage := blit (storage r) (unat lba * 512) b\<rparr>)) d"
  using assms unat_lba_offset (2) [of lba "total_blocks r" "length (storage r)"]
  by (auto simp: ramblk_bound_def ramdev_ok_def)

text \<open>The contract's view of the dispatch functions: a whole block, or nothing on an error.\<close>

definition blk_get :: "ram_store \<times> mcs_block_device \<Rightarrow> u64 \<Rightarrow> u8 list option" where
  "blk_get s l =
     (case mcs_block_read (fst s) (Some (snd s)) l (Some (replicate 512 0)) of
        Some (rc, buf) \<Rightarrow> if rc = MCS_BLOCK_OK then buf else None
      | None \<Rightarrow> None)"

definition blk_put ::
  "ram_store \<times> mcs_block_device \<Rightarrow> u64 \<Rightarrow> u8 list \<Rightarrow> (ram_store \<times> mcs_block_device) option" where
  "blk_put s l b =
     (case mcs_block_write (fst s) (Some (snd s)) l (Some b) of
        Some (rc, st') \<Rightarrow> if rc = MCS_BLOCK_OK then Some (st', snd s) else None
      | None \<Rightarrow> None)"

lemma blk_get_in:
  assumes "ramblk_bound st d" "driver_data d = Some p" "st p = Some r" "l < block_count d"
  shows "blk_get (st, d) l = Some (disk_block (storage r) l)"
proof -
  have "length (disk_block (storage r) l) = 512"
    using assms by (auto elim!: ramblk_boundE intro: length_ramdev_block)
  then show ?thesis using assms by (simp add: blk_get_def mcs_block_read_in blit_def)
qed

lemma block_access_out:
  assumes "ramblk_bound st d" "block_count d \<le> lba"
  shows "mcs_block_read st (Some d) lba buf = Some (MCS_BLOCK_EINVAL, buf)"
    and "mcs_block_write st (Some d) lba src = Some (MCS_BLOCK_EINVAL, st)"
  using assms
  by (auto elim!: ramblk_boundE simp: mcs_block_read_def mcs_block_write_def
      m14_ramblk_read_def m14_ramblk_write_def split: option.splits)

lemma blk_put_in:
  assumes "ramblk_bound st d" "driver_data d = Some p" "st p = Some r" "l < block_count d"
    "length b = 512"
  shows "blk_put (st, d) l b =
    Some (st(p \<mapsto> r\<lparr>storage := blit (storage r) (unat l * 512) b\<rparr>), d)"
  using assms by (simp add: blk_put_def mcs_block_write_in)

lemma blk_put_Some_in:
  assumes "ramblk_bound st d" "blk_put (st, d) l b = Some s'"
  shows "l < block_count d"
  using assms block_access_out (2) [of st d l "Some b"]
  by (cases "l < block_count d") (auto simp: blk_put_def)

lemma blk_put_bound:
  assumes "ramblk_bound st d" "length b = 512" "blk_put (st, d) l b = Some s'"
  shows "ramblk_bound (fst s') (snd s') \<and> block_count (snd s') = block_count d"
proof -
  obtain p r where r: "driver_data d = Some p" "st p = Some r"
    using assms(1) by (auto elim: ramblk_boundE)
  have l: "l < block_count d" by (rule blk_put_Some_in [OF assms(1,3)])
  show ?thesis
    using blk_put_in [OF assms(1) r l assms(2)] ramblk_bound_write [OF assms(1) r l assms(2)]
      assms(3) by auto
qed

lemma blk_get_put:
  assumes "ramblk_bound st d" "length b = 512" "blk_put (st, d) l b = Some s'"
  shows "blk_get s' k = (if k = l then Some b else blk_get (st, d) k)"
proof -
  obtain p r where r: "driver_data d = Some p" "st p = Some r" "ramdev_ok r"
    "block_count d = total_blocks r"
    using assms(1) by (auto elim: ramblk_boundE)
  have l: "l < block_count d" by (rule blk_put_Some_in [OF assms(1,3)])
  let ?r = "r\<lparr>storage := blit (storage r) (unat l * 512) b\<rparr>"
  have s': "s' = (st(p \<mapsto> ?r), d)"
    using blk_put_in [OF assms(1) r(1,2) l assms(2)] assms(3) by simp
  have ok': "ramblk_bound (st(p \<mapsto> ?r)) d"
    by (rule ramblk_bound_write [OF assms(1) r(1,2) l assms(2)])
  show ?thesis
  proof (cases "k < block_count d")
    case True
    then have "blk_get s' k = Some (disk_block (storage ?r) k)"
      unfolding s' by (intro blk_get_in [OF ok' r(1)]) auto
    also have "\<dots> = Some (if k = l then b else disk_block (storage r) k)"
      using r l True assms(2) disk_block_blit [of l "total_blocks r" k "storage r" b]
      by (simp add: ramdev_ok_def)
    finally show ?thesis using blk_get_in [OF assms(1) r(1,2) True] by simp
  next
    case False
    then show ?thesis using l ok' assms(1) s' by (auto simp: blk_get_def block_access_out)
  qed
qed

interpretation ramblk: block_store "\<lambda>s. block_count (snd s)" blk_get blk_put
  "\<lambda>s. ramblk_bound (fst s) (snd s)"
proof (unfold_locales, goal_cases)
  case (1 s l)
  then show ?case
    by (cases s) (auto elim!: ramblk_boundE simp: blk_get_in ramblk_bound_def length_ramdev_block)
next
  case (2 s l)
  then show ?case by (cases s) (simp add: blk_get_def block_access_out)
next
  case (3 s l b)
  then show ?case by (cases s) (auto elim!: ramblk_boundE simp: blk_put_in ramblk_bound_def)
next
  case (4 s l b)
  then show ?case by (cases s) (simp add: blk_put_def block_access_out)
next
  case (5 s b l s')
  then show ?case by (cases s) (simp add: blk_put_bound)
next
  case (6 s b l s' k)
  then show ?case by (cases s) (simp add: blk_get_put)
qed

section \<open>Properties\<close>

text \<open>
  C9. Writing a block and reading back: on a device bound to a well-formed RAM disk,
  \<open>mcs_block_write\<close> of a block in range succeeds and keeps the device well formed;
  afterwards \<open>mcs_block_read\<close> of the same block delivers the bytes that were written,
  and of every other block what it delivered before the write.
\<close>

theorem mcs_block_write_read:
  assumes "ramblk_bound st d" "lba < block_count d" "512 \<le> length src"
  shows "\<exists>st'. mcs_block_write st (Some d) lba (Some src) = Some (MCS_BLOCK_OK, st') \<and>
    ramblk_bound st' d \<and>
    (\<forall>k buf. 512 \<le> length buf \<longrightarrow>
      mcs_block_read st' (Some d) k (Some buf) =
        (if k = lba then Some (MCS_BLOCK_OK, Some (blit buf 0 (take 512 src)))
         else mcs_block_read st (Some d) k (Some buf)))"
proof -
  obtain p r where r: "driver_data d = Some p" "st p = Some r" "ramdev_ok r"
    "block_count d = total_blocks r"
    using assms(1) by (auto elim: ramblk_boundE)
  let ?b = "take 512 src"
  let ?st = "st(p \<mapsto> r\<lparr>storage := blit (storage r) (unat lba * 512) ?b\<rparr>)"
  have b: "length ?b = 512" using assms(3) by simp
  have ok: "ramblk_bound ?st d" by (rule ramblk_bound_write [OF assms(1) r(1,2) assms(2) b])
  have "mcs_block_read ?st (Some d) k (Some buf) =
      (if k = lba then Some (MCS_BLOCK_OK, Some (blit buf 0 ?b))
       else mcs_block_read st (Some d) k (Some buf))" if "512 \<le> length buf" for k buf
  proof (cases "k < block_count d")
    case True
    have "disk_block (blit (storage r) (unat lba * 512) ?b) k =
        (if k = lba then ?b else disk_block (storage r) k)"
      using disk_block_blit [of lba "total_blocks r" k "storage r" ?b] r assms(2) True b
      by (simp add: ramdev_ok_def)
    then show ?thesis
      using mcs_block_read_in [OF ok r(1) _ True that]
        mcs_block_read_in [OF assms(1) r(1,2) True that] by simp
  next
    case False
    then show ?thesis using assms(1,2) ok by (auto simp: block_access_out)
  qed
  then show ?thesis
    using ok mcs_block_write_in [OF assms(1) r(1,2) assms(2,3)] by auto
qed

text \<open>
  The device of the host test: a RAM disk of 16 zeroed blocks at address 1 and a device bound
  to it.
\<close>

definition host_ram :: ram_store where
  "host_ram = mcs_ram_block_init Map.empty 1 (replicate 8192 0) 16"

definition host_dev :: mcs_block_device where
  "host_dev = \<lparr>block_count = 16, read_fn = Some Fn_m14_ramblk_read,
     write_fn = Some Fn_m14_ramblk_write, driver_data = Some 1\<rparr>"

lemma host_dev_bound: "ramblk_bound host_ram host_dev"
  by (simp add: ramblk_bound_def host_ram_def host_dev_def mcs_ram_block_init_def ramdev_ok_def)

lemma host_dev_bind:
  "mcs_block_bind_ramdev host_ram
     \<lparr>block_count = 0, read_fn = None, write_fn = None, driver_data = None\<rparr> 1 = Some host_dev"
  by (simp add: mcs_block_bind_ramdev_def host_ram_def host_dev_def mcs_ram_block_init_def)

theorem mcs_block_write_read_witness:
  "\<exists>st'. mcs_block_write host_ram (Some host_dev) 2 (Some (replicate 512 7)) = Some (0, st') \<and>
    mcs_block_read st' (Some host_dev) 2 (Some (replicate 512 0)) = Some (0, Some (replicate 512 7))"
  using mcs_block_write_read [OF host_dev_bound, of 2 "replicate 512 7"]
  by (auto simp: host_dev_def blit_def)

text \<open>
  C12. What the block layer refuses: on a bound device a block number at or past the
  block count, and a null buffer, yield \<open>MCS_BLOCK_EINVAL\<close> from read and write, with the buffer
  and the disk untouched. A null device is not refused: the dispatch follows the callback
  pointer of the device before any driver check runs.
\<close>

theorem mcs_block_refuses:
  assumes "ramblk_bound st d"
  shows "(block_count d \<le> lba \<longrightarrow>
      mcs_block_read st (Some d) lba buf = Some (MCS_BLOCK_EINVAL, buf) \<and>
      mcs_block_write st (Some d) lba src = Some (MCS_BLOCK_EINVAL, st)) \<and>
    mcs_block_read st (Some d) lba None = Some (MCS_BLOCK_EINVAL, None) \<and>
    mcs_block_write st (Some d) lba None = Some (MCS_BLOCK_EINVAL, st) \<and>
    mcs_block_read st None lba buf = None \<and> mcs_block_write st None lba src = None"
  using assms block_access_out [OF assms]
  by (auto elim!: ramblk_boundE simp: mcs_block_read_def mcs_block_write_def
      m14_ramblk_read_def m14_ramblk_write_def)

theorem mcs_block_refuses_witness:
  "mcs_block_read host_ram (Some host_dev) 17 (Some []) = Some (MCS_BLOCK_EINVAL, Some [])"
  using mcs_block_refuses [OF host_dev_bound, of 17 "Some []" None] by (simp add: host_dev_def)

end
