(* ===== verification/Journal.thy ===== *)
theory Journal
  imports Block_Device
begin

text \<open>
  The write-ahead journal of \<open>src/kernel/fs/m16_journal.c\<close>: its header and 32 entries, and
  the operations init, append, commit, replay, fsck and clear.

  A pointer argument that the code tests against null is an \<open>option\<close>. Init and clear overwrite
  the whole object bytewise with zero; \<open>journal_of_bytes\<close> reads the object back by the layout
  of the struct (x86-64 ABI: 16 bytes of header, 32 entries of 528 bytes) and shows that the
  result is \<open>zero_journal\<close>.
\<close>

section \<open>Model\<close>

abbreviation M16_JOURNAL_MAGIC :: u32 where "M16_JOURNAL_MAGIC \<equiv> 0x4D31364A"
abbreviation M16_JOURNAL_MAX_ENTRIES :: nat where "M16_JOURNAL_MAX_ENTRIES \<equiv> 32"
abbreviation M16_JOURNAL_BLOCK_SIZE :: u64 where "M16_JOURNAL_BLOCK_SIZE \<equiv> 512"
abbreviation M16_JOURNAL_OK :: int where "M16_JOURNAL_OK \<equiv> 0"
abbreviation M16_JOURNAL_EINVAL :: int where "M16_JOURNAL_EINVAL \<equiv> - 1"
abbreviation M16_JOURNAL_EFULL :: int where "M16_JOURNAL_EFULL \<equiv> - 2"
abbreviation M16_JOURNAL_ECORRUPT :: int where "M16_JOURNAL_ECORRUPT \<equiv> - 3"

record m16_journal_entry =
  target_block :: u64
  entry_data :: "u8 list"
  entry_valid :: bool

record m16_journal =
  journal_magic :: u32
  committed :: u32
  entry_count :: u32
  entries :: "m16_journal_entry list"

definition zero_entry :: m16_journal_entry where
  "zero_entry = \<lparr>target_block = 0, entry_data = replicate 512 0, entry_valid = False\<rparr>"

definition zero_journal :: m16_journal where
  "zero_journal = \<lparr>journal_magic = 0, committed = 0, entry_count = 0,
     entries = replicate M16_JOURNAL_MAX_ENTRIES zero_entry\<rparr>"

definition m16_memcpy :: "u8 list \<Rightarrow> nat \<Rightarrow> u8 list \<Rightarrow> nat \<Rightarrow> u64 \<Rightarrow> u8 list option" where
  "m16_memcpy dst d src s n = copy_bytes dst d src s (unat n)"

definition m16_memzero :: "u8 list \<Rightarrow> u64 \<Rightarrow> u8 list option" where
  "m16_memzero dst n = fill_bytes 0 dst (unat n)"

definition entry_of_bytes :: "u8 list \<Rightarrow> m16_journal_entry" where
  "entry_of_bytes bs = \<lparr>target_block = le_word (take 8 bs), entry_data = take 512 (drop 8 bs),
     entry_valid = (bs ! 520 \<noteq> 0)\<rparr>"

definition journal_of_bytes :: "u8 list \<Rightarrow> m16_journal" where
  "journal_of_bytes bs = \<lparr>journal_magic = le_word (take 4 bs),
     committed = le_word (take 4 (drop 4 bs)), entry_count = le_word (take 4 (drop 8 bs)),
     entries = map (\<lambda>i. entry_of_bytes (drop (16 + 528 * i) bs)) [0..<M16_JOURNAL_MAX_ENTRIES]\<rparr>"

definition m16_journal_init :: "m16_journal option \<Rightarrow> m16_journal option" where
  "m16_journal_init journal =
     (case journal of
        None \<Rightarrow> None
      | Some j \<Rightarrow> Some (zero_journal\<lparr>journal_magic := M16_JOURNAL_MAGIC\<rparr>))"

definition m16_journal_append ::
  "m16_journal option \<Rightarrow> u64 \<Rightarrow> u8 list option \<Rightarrow> (int \<times> m16_journal option) option" where
  "m16_journal_append journal target data =
     (case (journal, data) of
        (Some j, Some src) \<Rightarrow>
          if 32 \<le> entry_count j then Some (M16_JOURNAL_EFULL, journal)
          else do {
            e \<leftarrow> rd (entries j) (unat (entry_count j));
            d \<leftarrow> m16_memcpy (entry_data e) 0 src 0 M16_JOURNAL_BLOCK_SIZE;
            es \<leftarrow> wr (entries j) (unat (entry_count j))
                   (e\<lparr>target_block := target, entry_valid := True, entry_data := d\<rparr>);
            Some (M16_JOURNAL_OK, Some (j\<lparr>entries := es, entry_count := entry_count j + 1\<rparr>))
          }
      | _ \<Rightarrow> Some (M16_JOURNAL_EINVAL, journal))"

definition m16_journal_commit :: "m16_journal option \<Rightarrow> int \<times> m16_journal option" where
  "m16_journal_commit journal =
     (case journal of
        None \<Rightarrow> (M16_JOURNAL_EINVAL, None)
      | Some j \<Rightarrow> (M16_JOURNAL_OK, Some (j\<lparr>committed := 1\<rparr>)))"

text \<open>The replay loop, from entry \<open>i\<close> on for \<open>k\<close> more entries.\<close>

primrec replay_loop ::
  "m16_journal \<Rightarrow> u64 \<Rightarrow> nat \<Rightarrow> nat \<Rightarrow> u8 list \<Rightarrow> (int \<times> u8 list) option" where
  "replay_loop j disk_block_count 0 i disk = Some (M16_JOURNAL_OK, disk)"
| "replay_loop j disk_block_count (Suc k) i disk = do {
     e \<leftarrow> rd (entries j) i;
     if \<not> entry_valid e then replay_loop j disk_block_count k (Suc i) disk
     else if disk_block_count \<le> target_block e then Some (M16_JOURNAL_ECORRUPT, disk)
     else do {
       disk' \<leftarrow> m16_memcpy disk (unat (target_block e * M16_JOURNAL_BLOCK_SIZE))
                  (entry_data e) 0 M16_JOURNAL_BLOCK_SIZE;
       replay_loop j disk_block_count k (Suc i) disk'
     }
   }"

definition m16_journal_replay ::
  "m16_journal option \<Rightarrow> u8 list option \<Rightarrow> u64 \<Rightarrow> (int \<times> u8 list option) option" where
  "m16_journal_replay journal disk disk_block_count =
     (case (journal, disk) of
        (Some j, Some d) \<Rightarrow>
          if journal_magic j \<noteq> M16_JOURNAL_MAGIC then Some (M16_JOURNAL_ECORRUPT, disk)
          else if committed j = 0 then Some (M16_JOURNAL_OK, disk)
          else map_option (\<lambda>(rc, d'). (rc, Some d'))
                 (replay_loop j disk_block_count (unat (entry_count j)) 0 d)
      | _ \<Rightarrow> Some (M16_JOURNAL_EINVAL, disk))"

definition m16_journal_fsck :: "m16_journal option \<Rightarrow> int" where
  "m16_journal_fsck journal =
     (case journal of
        None \<Rightarrow> M16_JOURNAL_EINVAL
      | Some j \<Rightarrow>
          if journal_magic j \<noteq> M16_JOURNAL_MAGIC then M16_JOURNAL_ECORRUPT
          else if 32 < entry_count j then M16_JOURNAL_ECORRUPT
          else M16_JOURNAL_OK)"

definition m16_journal_clear :: "m16_journal option \<Rightarrow> m16_journal option" where
  "m16_journal_clear journal =
     (case journal of
        None \<Rightarrow> None
      | Some j \<Rightarrow> Some (zero_journal\<lparr>journal_magic := journal_magic j\<rparr>))"

section \<open>What a journal means\<close>

text \<open>
  The live entries are the valid ones among the first \<open>entry_count\<close>; applying them lays each
  entry's data over its target block, in order.
\<close>

definition journal_wf :: "m16_journal \<Rightarrow> bool" where
  "journal_wf j \<longleftrightarrow> length (entries j) = 32 \<and> (\<forall>e\<in>set (entries j). length (entry_data e) = 512) \<and>
     entry_count j \<le> 32"

definition live_entries :: "m16_journal \<Rightarrow> m16_journal_entry list" where
  "live_entries j = filter entry_valid (take (unat (entry_count j)) (entries j))"

definition disk_ok :: "u8 list \<Rightarrow> u64 \<Rightarrow> bool" where
  "disk_ok disk n \<longleftrightarrow> unat n * 512 \<le> length disk \<and> length disk < 2 ^ 64"

definition apply_entry :: "m16_journal_entry \<Rightarrow> u8 list \<Rightarrow> u8 list" where
  "apply_entry e d = blit d (unat (target_block e) * 512) (entry_data e)"

definition apply_entries :: "m16_journal_entry list \<Rightarrow> u8 list \<Rightarrow> u8 list" where
  "apply_entries es d = fold apply_entry es d"

definition entry_in :: "u64 \<Rightarrow> m16_journal_entry \<Rightarrow> bool" where
  "entry_in n e \<longleftrightarrow> target_block e < n"

lemma apply_entries_simps [simp]:
  "apply_entries [] d = d"
  "apply_entries (e # es) d = apply_entries es (apply_entry e d)"
  by (simp_all add: apply_entries_def)

lemma entry_offset:
  assumes "entry_in n e" "disk_ok d n"
  shows "unat (target_block e * 512) = unat (target_block e) * 512"
    and "unat (target_block e) * 512 + 512 \<le> length d"
  using assms unat_lba_offset [of "target_block e" n "length d"] by (auto simp: entry_in_def disk_ok_def)

lemma length_apply_entry:
  "entry_in n e \<Longrightarrow> disk_ok d n \<Longrightarrow> length (entry_data e) = 512 \<Longrightarrow>
     length (apply_entry e d) = length d"
  using entry_offset (2) [of n e d] by (simp add: apply_entry_def)

lemma disk_ok_length: "length d' = length d \<Longrightarrow> disk_ok d n \<Longrightarrow> disk_ok d' n"
  by (simp add: disk_ok_def)

lemma disk_ok_apply_entry [simp]:
  "entry_in n e \<Longrightarrow> disk_ok d n \<Longrightarrow> length (entry_data e) = 512 \<Longrightarrow> disk_ok (apply_entry e d) n"
  by (rule disk_ok_length [OF length_apply_entry])

lemma length_apply_entries:
  "\<forall>e\<in>set es. entry_in n e \<and> length (entry_data e) = 512 \<Longrightarrow> disk_ok d n \<Longrightarrow>
     length (apply_entries es d) = length d"
proof (induction es arbitrary: d)
  case (Cons e es)
  then have "entry_in n e" "length (entry_data e) = 512" by auto
  then show ?case using Cons length_apply_entry [of n e d] by simp
qed simp

text \<open>One iteration of the replay loop copies a live entry over its block.\<close>

lemma replay_copy:
  assumes "entry_in n e" "disk_ok d n" "length (entry_data e) = 512"
  shows "m16_memcpy d (unat (target_block e * 512)) (entry_data e) 0 512 = Some (apply_entry e d)"
  using entry_offset [OF assms(1,2)] assms(3)
  by (simp add: m16_memcpy_def apply_entry_def copy_bytes_Some)

text \<open>
  The whole loop: it applies the live entries up to the first one whose target is not on the
  disk, and reports corruption exactly when there is such an entry.
\<close>

lemma replay_loop_eq:
  assumes "i + k \<le> length (entries j)" "\<forall>e\<in>set (entries j). length (entry_data e) = 512"
    and "disk_ok d n"
  shows "replay_loop j n k i d =
    (let es = filter entry_valid (take k (drop i (entries j)));
         pre = takeWhile (entry_in n) es
     in Some (if pre = es then M16_JOURNAL_OK else M16_JOURNAL_ECORRUPT, apply_entries pre d))"
  using assms
proof (induction k arbitrary: i d)
  case (Suc k)
  let ?e = "entries j ! i"
  have i: "i < length (entries j)" using Suc.prems(1) by simp
  have step: "take (Suc k) (drop i (entries j)) = ?e # take k (drop (Suc i) (entries j))"
    using i by (simp add: Cons_nth_drop_Suc [symmetric])
  have len: "length (entry_data ?e) = 512" using Suc.prems(2) i by simp
  show ?case
  proof (cases "entry_valid ?e \<and> entry_in n ?e")
    case True
    then have "replay_loop j n (Suc k) i d = replay_loop j n k (Suc i) (apply_entry ?e d)"
      using i replay_copy [of n ?e d] Suc.prems(3) len by (auto simp: entry_in_def dest: leD)
    moreover have "disk_ok (apply_entry ?e d) n"
      using True Suc.prems(3) len by simp
    ultimately show ?thesis
      using Suc.IH [of "Suc i" "apply_entry ?e d"] Suc.prems(1,2) True step by (simp add: Let_def)
  next
    case False
    then show ?thesis
      using Suc.IH [of "Suc i" d] Suc.prems i step by (auto simp: entry_in_def Let_def not_le)
  qed
qed simp

section \<open>Recovery is insensitive to what a crash left in the target blocks\<close>

definition covered :: "m16_journal_entry list \<Rightarrow> nat \<Rightarrow> bool" where
  "covered es i \<longleftrightarrow> (\<exists>e\<in>set es. unat (target_block e) * 512 \<le> i \<and> i < unat (target_block e) * 512 + 512)"

definition agree_outside :: "m16_journal_entry list \<Rightarrow> u8 list \<Rightarrow> u8 list \<Rightarrow> bool" where
  "agree_outside es d d' \<longleftrightarrow> length d' = length d \<and> (\<forall>i<length d. \<not> covered es i \<longrightarrow> d' ! i = d ! i)"

lemma agree_outside_refl [simp]: "agree_outside es d d"
  by (simp add: agree_outside_def)

lemma agree_outside_trans:
  "agree_outside es d d' \<Longrightarrow> agree_outside es d' d'' \<Longrightarrow> agree_outside es d d''"
  by (auto simp: agree_outside_def)

lemma covered_mono: "set es \<subseteq> set fs \<Longrightarrow> covered es i \<Longrightarrow> covered fs i"
  by (auto simp: covered_def)

lemma agree_outside_mono:
  "set es \<subseteq> set fs \<Longrightarrow> agree_outside es d d' \<Longrightarrow> agree_outside fs d d'"
  by (meson agree_outside_def covered_mono)

lemma apply_entry_agree:
  assumes "entry_in n e" "disk_ok d n" "length (entry_data e) = 512" "e \<in> set es"
  shows "agree_outside es d (apply_entry e d)"
  using assms entry_offset (2) [OF assms(1,2)]
  by (auto simp: agree_outside_def covered_def apply_entry_def nth_blit)

lemma apply_entries_agree:
  "\<forall>e\<in>set es. entry_in n e \<and> length (entry_data e) = 512 \<Longrightarrow> set es \<subseteq> set fs \<Longrightarrow> disk_ok d n \<Longrightarrow>
     agree_outside fs d (apply_entries es d)"
proof (induction es arbitrary: d)
  case (Cons e es)
  then have e: "entry_in n e" "length (entry_data e) = 512" "e \<in> set fs" by auto
  have "agree_outside fs d (apply_entry e d)"
    by (rule apply_entry_agree [OF e(1) Cons.prems(3) e(2,3)])
  moreover have "agree_outside fs (apply_entry e d) (apply_entries es (apply_entry e d))"
    using Cons e by simp
  ultimately show ?case by (auto intro: agree_outside_trans)
qed simp

lemma apply_entries_absorb:
  "\<forall>e\<in>set es. entry_in n e \<and> length (entry_data e) = 512 \<Longrightarrow> disk_ok d n \<Longrightarrow>
     agree_outside es d d' \<Longrightarrow> apply_entries es d' = apply_entries es d"
proof (induction es arbitrary: d d')
  case Nil
  then show ?case by (auto simp: agree_outside_def covered_def intro: nth_equalityI)
next
  case (Cons e es)
  then have e: "entry_in n e" "length (entry_data e) = 512" by auto
  have d': "disk_ok d' n" "length d' = length d"
    using Cons.prems(2,3) by (auto simp: agree_outside_def disk_ok_def)
  have off: "unat (target_block e) * 512 + 512 \<le> length d"
    by (rule entry_offset (2) [OF e(1) Cons.prems(2)])
  have "agree_outside es (apply_entry e d) (apply_entry e d')"
    using Cons.prems(3) d' off e(2)
    by (auto simp: agree_outside_def covered_def apply_entry_def nth_blit)
  then have "apply_entries es (apply_entry e d') = apply_entries es (apply_entry e d)"
    using Cons e disk_ok_apply_entry [OF e(1) Cons.prems(2) e(2)] by simp
  then show ?case by simp
qed

text \<open>A copy that stops half way through a block also stays inside that block.\<close>

lemma torn_copy_agree:
  assumes "entry_in n e" "disk_ok d n" "length (entry_data e) = 512" "e \<in> set es" "m \<le> 512"
    and "m16_memcpy d (unat (target_block e * 512)) (entry_data e) 0 (of_nat m) = Some d'"
  shows "agree_outside es d d'"
proof -
  have "unat (of_nat m :: u64) = m" using assms(5) by simp
  then have "d' = blit d (unat (target_block e) * 512) (take m (entry_data e))"
    using entry_offset [OF assms(1,2)] assms(3,5,6)
    by (simp add: m16_memcpy_def copy_bytes_Some)
  then show ?thesis
    using assms(3-5) entry_offset (2) [OF assms(1,2)]
    by (auto simp: agree_outside_def covered_def nth_blit)
qed

section \<open>The operations on a well-formed journal\<close>

lemma journal_zeroed:
  assumes "length bs = 16912"
  shows "map_option journal_of_bytes (m16_memzero bs 16912) = Some zero_journal"
proof -
  have "m16_memzero bs 16912 = Some (replicate 16912 0)"
    using assms by (simp add: m16_memzero_def fill_bytes_Some)
  moreover have "entry_of_bytes (drop (16 + 528 * i) (replicate 16912 0)) = zero_entry"
    if "i < 32" for i
    using that by (simp add: entry_of_bytes_def zero_entry_def min_def)
  then have "map (\<lambda>i. entry_of_bytes (drop (16 + 528 * i) (replicate 16912 0))) [0..<32] =
      replicate 32 zero_entry"
    by (intro nth_equalityI) auto
  then have "journal_of_bytes (replicate 16912 0) = zero_journal"
    by (simp add: journal_of_bytes_def zero_journal_def)
  ultimately show ?thesis by simp
qed

lemma zero_journal_header [simp]: "committed zero_journal = 0" "entry_count zero_journal = 0"
  by (simp_all add: zero_journal_def)

lemma zero_journal_wf: "journal_wf (zero_journal\<lparr>journal_magic := m\<rparr>)"
  by (simp add: journal_wf_def zero_journal_def zero_entry_def)

lemma live_entries_zero [simp]: "live_entries (zero_journal\<lparr>journal_magic := m\<rparr>) = []"
  by (simp add: live_entries_def zero_journal_def)

lemma live_entries_commit [simp]: "live_entries (j\<lparr>committed := c\<rparr>) = live_entries j"
  by (simp add: live_entries_def)

lemma live_entry_length: "journal_wf j \<Longrightarrow> e \<in> set (live_entries j) \<Longrightarrow> length (entry_data e) = 512"
  by (auto simp: journal_wf_def live_entries_def dest: in_set_takeD)

lemma journal_wf_count: "journal_wf j \<Longrightarrow> unat (entry_count j) \<le> 32"
  by (simp add: journal_wf_def word_le_nat_alt)

lemma replay_committed:
  assumes "journal_wf j" "journal_magic j = M16_JOURNAL_MAGIC" "committed j \<noteq> 0" "disk_ok d n"
  shows "m16_journal_replay (Some j) (Some d) n =
    (let pre = takeWhile (entry_in n) (live_entries j)
     in Some (if pre = live_entries j then M16_JOURNAL_OK else M16_JOURNAL_ECORRUPT,
              Some (apply_entries pre d)))"
  using assms journal_wf_count [OF assms(1)]
    replay_loop_eq [of 0 "unat (entry_count j)" j d n]
  by (simp add: m16_journal_replay_def live_entries_def journal_wf_def Let_def)

lemma replay_success:
  assumes "journal_wf j" "journal_magic j = M16_JOURNAL_MAGIC" "committed j \<noteq> 0" "disk_ok d n"
    and "\<forall>e\<in>set (live_entries j). entry_in n e"
  shows "m16_journal_replay (Some j) (Some d) n =
    Some (M16_JOURNAL_OK, Some (apply_entries (live_entries j) d))"
  using replay_committed [OF assms(1-4)] assms(5) by (simp add: takeWhile_eq_all_conv [THEN iffD2])

lemma replay_uncommitted:
  "journal_magic j = M16_JOURNAL_MAGIC \<Longrightarrow> committed j = 0 \<Longrightarrow>
     m16_journal_replay (Some j) (Some d) n = Some (M16_JOURNAL_OK, Some d)"
  by (simp add: m16_journal_replay_def)

definition journal_entry :: "u64 \<Rightarrow> u8 list \<Rightarrow> m16_journal_entry" where
  "journal_entry t src = \<lparr>target_block = t, entry_data = take 512 src, entry_valid = True\<rparr>"

lemma entry_update:
  "(e :: m16_journal_entry)\<lparr>target_block := t, entry_valid := True, entry_data := take 512 src\<rparr> =
     journal_entry t src"
  by (cases e) (simp add: journal_entry_def)

lemma append_room:
  assumes "journal_wf j" "entry_count j < 32" "512 \<le> length src"
  shows "m16_journal_append (Some j) t (Some src) =
    Some (M16_JOURNAL_OK, Some (j\<lparr>entries := (entries j)[unat (entry_count j) := journal_entry t src],
      entry_count := entry_count j + 1\<rparr>))"
proof -
  let ?c = "unat (entry_count j)"
  have c: "?c < 32" using assms(2) by (simp add: word_less_nat_alt)
  then have in_range: "?c < length (entries j)" "length (entry_data (entries j ! ?c)) = 512"
    using assms(1) by (auto simp: journal_wf_def)
  have "blit (entry_data (entries j ! ?c)) 0 (take 512 src) = take 512 src"
    using in_range(2) assms(3) by (simp add: blit_def)
  then show ?thesis
    using assms in_range
    by (simp add: m16_journal_append_def m16_memcpy_def copy_bytes_Some entry_update not_le)
qed

lemma append_full:
  "32 \<le> entry_count j \<Longrightarrow>
     m16_journal_append (Some j) t (Some src) = Some (M16_JOURNAL_EFULL, Some j)"
  by (simp add: m16_journal_append_def)

lemma append_live:
  assumes "journal_wf j" "512 \<le> length src"
    and "m16_journal_append (Some j) t (Some src) = Some (M16_JOURNAL_OK, Some j')"
  shows "journal_wf j' \<and> live_entries j' = live_entries j @ [journal_entry t src] \<and>
    journal_magic j' = journal_magic j \<and> committed j' = committed j \<and>
    entry_count j' = entry_count j + 1"
proof -
  let ?c = "unat (entry_count j)" and ?e = "journal_entry t src"
  have c: "entry_count j < 32" using assms(3) append_full [of j t src] by fastforce
  then have c': "?c < 32" by (simp add: word_less_nat_alt)
  then have suc: "unat (entry_count j + 1) = Suc ?c" using unat_plus_one [OF c] by simp
  have j': "j' = j\<lparr>entries := (entries j)[?c := ?e], entry_count := entry_count j + 1\<rparr>"
    using append_room [OF assms(1) c assms(2)] assms(3) by simp
  have len: "length (entries j) = 32" using assms(1) by (simp add: journal_wf_def)
  have "take (Suc ?c) ((entries j)[?c := ?e]) = take ?c (entries j) @ [?e]"
    using c' len by (simp add: take_Suc_conv_app_nth)
  then have live: "live_entries j' = live_entries j @ [?e]"
    by (simp add: live_entries_def j' suc journal_entry_def)
  have "entry_count j + 1 \<le> 32" using c' suc by (simp add: word_le_nat_alt)
  moreover have "\<forall>e\<in>set ((entries j)[?c := ?e]). length (entry_data e) = 512"
    using assms(1,2) set_update_subset_insert [of "entries j" ?c ?e]
    by (auto simp: journal_wf_def journal_entry_def)
  ultimately show ?thesis using live len by (simp add: journal_wf_def j')
qed

section \<open>Transactions and crashes\<close>

text \<open>
  A replay that is cut off: it stops in the iteration for entry \<open>i\<close>, after \<open>m\<close> bytes of that entry have been copied.
\<close>

definition replay_cut :: "m16_journal \<Rightarrow> u64 \<Rightarrow> u8 list \<Rightarrow> nat \<Rightarrow> nat \<Rightarrow> u8 list option" where
  "replay_cut j n disk i m =
     (if journal_magic j \<noteq> M16_JOURNAL_MAGIC \<or> committed j = 0 then Some disk
      else do {
        (rc, d) \<leftarrow> replay_loop j n (min i (unat (entry_count j))) 0 disk;
        if rc \<noteq> M16_JOURNAL_OK \<or> unat (entry_count j) \<le> i then Some d
        else do {
          e \<leftarrow> rd (entries j) i;
          if entry_valid e \<and> target_block e < n
          then m16_memcpy d (unat (target_block e * M16_JOURNAL_BLOCK_SIZE)) (entry_data e) 0 (of_nat (min m 512))
          else Some d
        }
      })"

text \<open>The entries that a replay lays over a disk of \<open>n\<close> blocks: those before the first one that is off the disk.\<close>

abbreviation on_disk :: "u64 \<Rightarrow> m16_journal_entry list \<Rightarrow> m16_journal_entry list" where
  "on_disk n es \<equiv> takeWhile (entry_in n) es"

lemma on_disk_all: "\<forall>e\<in>set (on_disk n es). entry_in n e"
  by (auto dest: set_takeWhileD)

lemma on_disk_append: "set (on_disk n es) \<subseteq> set (on_disk n (es @ fs))"
  by (cases "\<forall>e\<in>set es. entry_in n e") (auto simp: takeWhile_append1 dest: set_takeWhileD)

lemma on_disk_lengths: "journal_wf j \<Longrightarrow> \<forall>e\<in>set (on_disk n (live_entries j)). entry_in n e \<and> length (entry_data e) = 512"
  using on_disk_all live_entry_length by (blast dest: set_takeWhileD)

text \<open>Wherever it is cut off, a replay has changed bytes of these blocks only.\<close>

lemma replay_cut_agree:
  assumes "journal_wf j" "disk_ok d n" "replay_cut j n d i m = Some d'"
    and "journal_magic j = M16_JOURNAL_MAGIC" "committed j \<noteq> 0"
  shows "agree_outside (on_disk n (live_entries j)) d d'"
proof -
  let ?c = "unat (entry_count j)" and ?k = "min i (unat (entry_count j))" and ?on = "on_disk n (live_entries j)"
  let ?es = "filter entry_valid (take ?k (entries j))"
  let ?d1 = "apply_entries (on_disk n ?es) d"
  have c: "?c \<le> 32" "length (entries j) = 32" "\<forall>e\<in>set (entries j). length (entry_data e) = 512"
    using assms(1) journal_wf_count by (auto simp: journal_wf_def)
  have loop: "replay_loop j n ?k 0 d =
      Some (if on_disk n ?es = ?es then M16_JOURNAL_OK else M16_JOURNAL_ECORRUPT, ?d1)"
    using replay_loop_eq [of 0 ?k j d n] c assms(2) by (simp add: Let_def)
  have "take ?c (entries j) = take ?k (entries j) @ drop ?k (take ?c (entries j))"
    by (metis append_take_drop_id min.cobounded2 min_absorb1 take_take)
  then have live: "live_entries j = ?es @ filter entry_valid (drop ?k (take ?c (entries j)))"
    unfolding live_entries_def by (metis filter_append)
  have sub: "set (on_disk n ?es) \<subseteq> set ?on" unfolding live by (rule on_disk_append)
  have all: "\<forall>e\<in>set (on_disk n ?es). entry_in n e \<and> length (entry_data e) = 512"
    using sub on_disk_lengths [OF assms(1)] by blast
  have d1: "agree_outside ?on d ?d1" "disk_ok ?d1 n"
    using apply_entries_agree [OF all sub assms(2)] length_apply_entries [OF all assms(2)] disk_ok_length assms(2) by auto
  define whole where "whole \<longleftrightarrow> on_disk n ?es = ?es"
  have run: "replay_cut j n d i m = (if \<not> whole \<or> ?c \<le> i then Some ?d1
      else do {
        e \<leftarrow> rd (entries j) i;
        if entry_valid e \<and> target_block e < n
        then m16_memcpy ?d1 (unat (target_block e * 512)) (entry_data e) 0 (of_nat (min m 512)) else Some ?d1 })"
    unfolding replay_cut_def loop whole_def [symmetric] using assms(4,5) by simp
  show ?thesis
  proof (cases "whole \<and> i < ?c \<and> entry_valid (entries j ! i) \<and> entry_in n (entries j ! i)")
    case False
    then have "d' = ?d1"
      using assms(3) c(1,2) unfolding run by (cases "\<not> whole \<or> ?c \<le> i") (auto simp: entry_in_def)
    then show ?thesis using d1(1) by simp
  next
    case True
    let ?e = "entries j ! i"
    have i: "i < length (entries j)" using True c(1,2) by simp
    have "m16_memcpy ?d1 (unat (target_block ?e * 512)) (entry_data ?e) 0 (of_nat (min m 512)) = Some d'"
      using True i assms(3) unfolding run by (simp add: entry_in_def)
    moreover have "?e \<in> set ?on"
    proof -
      have "drop i (take ?c (entries j)) = ?e # drop (Suc i) (take ?c (entries j))"
        using True i by (simp add: Cons_nth_drop_Suc [symmetric])
      moreover have "\<forall>e\<in>set ?es. entry_in n e" using True whole_def by (metis takeWhile_eq_all_conv)
      then have "?on = ?es @ on_disk n (filter entry_valid (drop ?k (take ?c (entries j))))"
        unfolding live by (intro takeWhile_append2) blast
      moreover have "?k = i" using True by simp
      ultimately show ?thesis using True by simp
    qed
    ultimately have "agree_outside ?on ?d1 d'"
      using torn_copy_agree [of n ?e ?d1 ?on "min m 512" d'] True c(3) i d1(2) by simp
    with d1(1) show ?thesis by (rule agree_outside_trans)
  qed
qed

text \<open>
  \<open>tx_reach n d0 j d b es c\<close>: starting from the disk \<open>d0\<close> of \<open>n\<close> blocks and a fresh journal, calls of append, commit, replay and
  clear in any order, with any target blocks, and crashes in the middle of replays can lead to the journal \<open>j\<close> and the disk \<open>d\<close>.
  What a client knows of the history is the disk \<open>b\<close> at the time when the journal was emptied last,
  the entries \<open>es\<close> that were accepted since then, and whether there was a commit since then.
\<close>

inductive tx_reach ::
  "u64 \<Rightarrow> u8 list \<Rightarrow> m16_journal \<Rightarrow> u8 list \<Rightarrow> u8 list \<Rightarrow> m16_journal_entry list \<Rightarrow> bool \<Rightarrow> bool" for n d0 where
  start: "disk_ok d0 n \<Longrightarrow> m16_journal_init (Some j0) = Some j \<Longrightarrow> tx_reach n d0 j d0 d0 [] False"
| append: "tx_reach n d0 j d b es c \<Longrightarrow> 512 \<le> length src \<Longrightarrow>
    m16_journal_append (Some j) t (Some src) = Some (r, Some j') \<Longrightarrow>
    tx_reach n d0 j' d b (if r = M16_JOURNAL_OK then es @ [journal_entry t src] else es) c"
| commit: "tx_reach n d0 j d b es c \<Longrightarrow> m16_journal_commit (Some j) = (r, Some j') \<Longrightarrow> tx_reach n d0 j' d b es True"
| crash: "tx_reach n d0 j d b es c \<Longrightarrow> replay_cut j n d i m = Some d' \<Longrightarrow> tx_reach n d0 j d' b es c"
| replay: "tx_reach n d0 j d b es c \<Longrightarrow> m16_journal_replay (Some j) (Some d) n = Some (r, Some d') \<Longrightarrow>
    tx_reach n d0 j d' b es c"
| clear: "tx_reach n d0 j d b es c \<Longrightarrow> m16_journal_clear (Some j) = Some j' \<Longrightarrow> tx_reach n d0 j' d d [] False"

definition tx_inv :: "u64 \<Rightarrow> m16_journal \<Rightarrow> u8 list \<Rightarrow> u8 list \<Rightarrow> m16_journal_entry list \<Rightarrow> bool \<Rightarrow> bool" where
  "tx_inv n j d b es c \<longleftrightarrow> journal_wf j \<and> journal_magic j = M16_JOURNAL_MAGIC \<and> disk_ok b n \<and> live_entries j = es \<and>
     (c \<longleftrightarrow> committed j \<noteq> 0) \<and> (if c then agree_outside (on_disk n es) b d else d = b)"

lemma tx_inv_disk: "tx_inv n j d b es c \<Longrightarrow> disk_ok d n"
  by (auto simp: tx_inv_def agree_outside_def disk_ok_def split: if_splits)

lemma tx_inv_change:
  "tx_inv n j d b es c \<Longrightarrow> (if c then agree_outside (on_disk n es) d d' else d' = d) \<Longrightarrow> tx_inv n j d' b es c"
  by (auto simp: tx_inv_def intro: agree_outside_trans)

lemma tx_inv_replay:
  assumes "tx_inv n j d b es c"
  shows "m16_journal_replay (Some j) (Some d) n =
    (if c then Some (if on_disk n es = es then M16_JOURNAL_OK else M16_JOURNAL_ECORRUPT, Some (apply_entries (on_disk n es) b))
     else Some (M16_JOURNAL_OK, Some b))"
proof (cases c)
  case True
  then have inv: "journal_wf j" "journal_magic j = M16_JOURNAL_MAGIC" "committed j \<noteq> 0" "live_entries j = es" "disk_ok b n"
    "agree_outside (on_disk n es) b d"
    using assms by (auto simp: tx_inv_def)
  have "\<forall>e\<in>set (on_disk n es). entry_in n e \<and> length (entry_data e) = 512"
    using on_disk_lengths [OF inv(1)] inv(4) by simp
  then have "apply_entries (on_disk n es) d = apply_entries (on_disk n es) b"
    by (rule apply_entries_absorb [OF _ inv(5,6)])
  then show ?thesis using True replay_committed [OF inv(1-3) tx_inv_disk [OF assms]] inv(4) by (simp add: Let_def)
next
  case False
  then show ?thesis using assms replay_uncommitted by (simp add: tx_inv_def)
qed

lemma tx_inv_append:
  assumes "tx_inv n j d b es c" "512 \<le> length src" "m16_journal_append (Some j) t (Some src) = Some (r, Some j')"
  shows "tx_inv n j' d b (if r = M16_JOURNAL_OK then es @ [journal_entry t src] else es) c"
proof (cases "32 \<le> entry_count j")
  case True
  then show ?thesis using assms append_full [of j t src] by simp
next
  case False
  have wf: "journal_wf j" using assms(1) by (simp add: tx_inv_def)
  have r: "r = M16_JOURNAL_OK" using append_room [OF wf _ assms(2), of t] False assms(3) by simp
  then show ?thesis using append_live [OF wf assms(2), of t j'] assms agree_outside_mono [OF on_disk_append]
    by (auto simp: tx_inv_def)
qed

lemma tx_reach_inv: "tx_reach n d0 j d b es c \<Longrightarrow> tx_inv n j d b es c"
proof (induction rule: tx_reach.induct)
  case (start j0 j)
  then show ?case using zero_journal_wf by (auto simp: tx_inv_def m16_journal_init_def)
next
  case (append j d b es c src t r j')
  then show ?case using tx_inv_append by blast
next
  case (commit j d b es c r j')
  then show ?case by (auto simp: tx_inv_def m16_journal_commit_def journal_wf_def split: if_splits)
next
  case (crash j d b es c i m d')
  have "if c then agree_outside (on_disk n es) d d' else d' = d"
    using crash replay_cut_agree [OF _ tx_inv_disk [OF crash.IH] crash.hyps(2)]
    by (auto simp: tx_inv_def replay_cut_def)
  with crash.IH show ?case by (rule tx_inv_change)
next
  case (replay j d b es c r d')
  have "\<forall>e\<in>set (on_disk n es). entry_in n e \<and> length (entry_data e) = 512"
    using replay.IH on_disk_lengths [of j n] by (simp add: tx_inv_def)
  then have "agree_outside (on_disk n es) b (apply_entries (on_disk n es) b)"
    using replay.IH apply_entries_agree [of "on_disk n es" n "on_disk n es" b] by (simp add: tx_inv_def)
  then show ?case using replay.IH replay.hyps(2) tx_inv_replay [OF replay.IH]
    by (auto simp: tx_inv_def split: if_splits)
next
  case (clear j d b es c j')
  then show ?case using zero_journal_wf tx_inv_disk [OF clear.IH]
    by (auto simp: tx_inv_def m16_journal_clear_def)
qed

text \<open>
  C7. Crash atomicity of the journal: whatever calls of append, commit, replay and clear were made, in whatever order and with
  whatever target blocks, and wherever replays were cut off by crashes, the next \<open>m16_journal_replay\<close> has an outcome that depends only on the disk
  when the journal was last emptied and on the entries accepted since then. Without a commit since then it is
  that disk. With one it is that disk with all of these entries laid over it in order, also those that were appended
  after the commit; if one of them is past the end of the disk, the entries before it, and the error \<open>M16_JOURNAL_ECORRUPT\<close>. The journal
  object itself is not damaged by a crash.
\<close>

theorem journal_crash_atomic:
  assumes "tx_reach n d0 j d b es c"
  shows "m16_journal_replay (Some j) (Some d) n =
    (if \<not> c then Some (M16_JOURNAL_OK, Some b)
     else if \<forall>e\<in>set es. target_block e < n then Some (M16_JOURNAL_OK, Some (apply_entries es b))
     else Some (M16_JOURNAL_ECORRUPT, Some (apply_entries (takeWhile (\<lambda>e. target_block e < n) es) b)))"
proof -
  have "entry_in n = (\<lambda>e. target_block e < n)" by (auto simp: entry_in_def fun_eq_iff)
  then show ?thesis using tx_inv_replay [OF tx_reach_inv [OF assms]] by (auto simp: takeWhile_eq_all_conv takeWhile_eq_all_conv [THEN iffD2])
qed

text \<open>
  A run of the host test's shape: one block appended and committed on a disk of one
  zeroed block, a replay that crashed half way through the copy, and another block appended after that.
\<close>

definition demo_disk :: "u8 list" where
  "demo_disk = replicate 512 0"

definition demo_block :: "u8 list" where
  "demo_block = replicate 512 9"

lemma demo_tx:
  "\<exists>j. tx_reach 1 demo_disk j (replicate 256 9 @ replicate 256 0) demo_disk
     [journal_entry 0 demo_block, journal_entry 7 demo_block] True"
proof -
  let ?j0 = "zero_journal\<lparr>journal_magic := M16_JOURNAL_MAGIC\<rparr>"
  have 0: "tx_reach 1 demo_disk ?j0 demo_disk demo_disk [] False"
    by (rule tx_reach.start [where ?j0.0 = zero_journal])
      (simp_all add: disk_ok_def demo_disk_def m16_journal_init_def)
  have room: "entry_count ?j0 < 32" "512 \<le> length demo_block"
    by (simp_all add: demo_block_def)
  obtain j1 where j1: "m16_journal_append (Some ?j0) 0 (Some demo_block) = Some (0, Some j1)"
    "j1 = ?j0\<lparr>entries := (entries ?j0)[0 := journal_entry 0 demo_block], entry_count := 1\<rparr>"
    using append_room [OF zero_journal_wf room, of 0] by simp
  let ?j2 = "j1\<lparr>committed := 1\<rparr>"
  have "tx_reach 1 demo_disk j1 demo_disk demo_disk [journal_entry 0 demo_block] False"
    using tx_reach.append [OF 0 room(2) j1(1)] by simp
  then have 2: "tx_reach 1 demo_disk ?j2 demo_disk demo_disk [journal_entry 0 demo_block] True"
    by (rule tx_reach.commit) (simp add: m16_journal_commit_def)
  have "replay_cut ?j2 1 demo_disk 0 256 = Some (replicate 256 9 @ replicate 256 0)"
    by (simp add: replay_cut_def j1(2) zero_journal_def journal_entry_def demo_disk_def demo_block_def m16_memcpy_def
        copy_bytes_Some blit_def)
  from tx_reach.crash [OF 2 this]
  have 3: "tx_reach 1 demo_disk ?j2 (replicate 256 9 @ replicate 256 0) demo_disk [journal_entry 0 demo_block] True" .
  have wf: "journal_wf ?j2" "entry_count ?j2 < 32" using tx_reach_inv [OF 2] by (simp_all add: tx_inv_def j1(2))
  obtain j3 where j3: "m16_journal_append (Some ?j2) 7 (Some demo_block) = Some (0, Some j3)"
    using append_room [OF wf room(2)] by blast
  from tx_reach.append [OF 3 room(2) j3] show ?thesis by auto
qed

theorem journal_crash_atomic_witness:
  "\<exists>j. m16_journal_replay (Some j) (Some (replicate 256 9 @ replicate 256 0)) 1 =
     Some (M16_JOURNAL_ECORRUPT, Some demo_block)"
proof -
  obtain j where "tx_reach 1 demo_disk j (replicate 256 9 @ replicate 256 0) demo_disk
      [journal_entry 0 demo_block, journal_entry 7 demo_block] True"
    using demo_tx by blast
  from journal_crash_atomic [OF this] show ?thesis
    by (auto simp: journal_entry_def apply_entry_def blit_def demo_disk_def demo_block_def)
qed

text \<open>
  C8. The replay loop on any committed journal: it lays the live entries over the disk in
  order, up to the first whose target lies past the end of the disk. It returns
  \<open>M16_JOURNAL_OK\<close> if there is none and \<open>M16_JOURNAL_ECORRUPT\<close> otherwise; in that case the
  entries before the bad one have already been written.
\<close>

theorem journal_replay_exact:
  assumes "journal_wf j" "journal_magic j = M16_JOURNAL_MAGIC" "committed j \<noteq> 0" "disk_ok d n"
  shows "m16_journal_replay (Some j) (Some d) n =
    (let pre = takeWhile (\<lambda>e. target_block e < n) (live_entries j)
     in Some (if \<forall>e\<in>set (live_entries j). target_block e < n then M16_JOURNAL_OK
              else M16_JOURNAL_ECORRUPT,
          Some (fold (\<lambda>e disk. blit disk (unat (target_block e) * 512) (entry_data e)) pre d)))"
proof -
  have "takeWhile (entry_in n) (live_entries j) = live_entries j \<longleftrightarrow>
      (\<forall>e\<in>set (live_entries j). target_block e < n)"
    by (auto simp: takeWhile_eq_all_conv entry_in_def)
  moreover have "entry_in n = (\<lambda>e. target_block e < n)" by (auto simp: entry_in_def fun_eq_iff)
  moreover have "apply_entry = (\<lambda>e disk. blit disk (unat (target_block e) * 512) (entry_data e))"
    by (auto simp: apply_entry_def fun_eq_iff)
  ultimately show ?thesis
    using replay_committed [OF assms] by (simp add: Let_def apply_entries_def)
qed

definition demo_bad_journal :: m16_journal where
  "demo_bad_journal = \<lparr>journal_magic = M16_JOURNAL_MAGIC, committed = 1, entry_count = 2,
     entries = [journal_entry 0 demo_block, journal_entry 1 demo_block] @ replicate 30 zero_entry\<rparr>"

theorem journal_replay_exact_witness:
  "m16_journal_replay (Some demo_bad_journal) (Some demo_disk) 1 =
     Some (M16_JOURNAL_ECORRUPT, Some demo_block)"
proof -
  have "journal_wf demo_bad_journal" "disk_ok demo_disk 1"
    "journal_magic demo_bad_journal = M16_JOURNAL_MAGIC" "committed demo_bad_journal \<noteq> 0"
    by (simp_all add: journal_wf_def demo_bad_journal_def journal_entry_def demo_block_def
        zero_entry_def disk_ok_def demo_disk_def)
  moreover have "live_entries demo_bad_journal = [journal_entry 0 demo_block, journal_entry 1 demo_block]"
    by (simp add: live_entries_def demo_bad_journal_def journal_entry_def)
  ultimately show ?thesis
    using journal_replay_exact [of demo_bad_journal demo_disk 1]
    by (simp add: journal_entry_def blit_def demo_block_def demo_disk_def)
qed

text \<open>The loop is defined exactly if it ends inside the entry array or at an entry that is off the disk.\<close>

lemma replay_loop_defined:
  "i \<le> length (entries j) \<Longrightarrow> \<forall>e\<in>set (entries j). length (entry_data e) = 512 \<Longrightarrow> disk_ok d n \<Longrightarrow>
     (\<exists>r. replay_loop j n k i d = Some r) \<longleftrightarrow>
       i + k \<le> length (entries j) \<or> (\<exists>e\<in>set (drop i (entries j)). entry_valid e \<and> \<not> entry_in n e)"
proof (induction k arbitrary: i d)
  case (Suc k)
  show ?case
  proof (cases "i = length (entries j)")
    case False
    then have i: "i < length (entries j)" using Suc.prems(1) by simp
    let ?e = "entries j ! i"
    have e: "length (entry_data ?e) = 512" using Suc.prems(2) i by simp
    have step: "drop i (entries j) = ?e # drop (Suc i) (entries j)" using i by (simp add: Cons_nth_drop_Suc)
    show ?thesis
    proof (cases "entry_valid ?e \<and> entry_in n ?e")
      case True
      then have "replay_loop j n (Suc k) i d = replay_loop j n k (Suc i) (apply_entry ?e d)"
        using i replay_copy [of n ?e d] Suc.prems(3) e by (auto simp: entry_in_def dest: leD)
      then show ?thesis
        using Suc.IH [of "Suc i" "apply_entry ?e d"] Suc.prems(2,3) True e i step by simp
    next
      case no: False
      then show ?thesis using Suc.IH [of "Suc i" d] Suc.prems(2,3) i step by (auto simp: entry_in_def not_le)
    qed
  qed simp
qed simp

text \<open>
  C11. What \<open>m16_journal_fsck\<close> guards: replaying a journal object with its 32 entries of 512 bytes onto a large enough disk has a defined
  result, that is, stays inside the entry array, in exactly four cases: fsck accepts the journal, or the
  magic is wrong, or it is not committed, or some valid entry is off the disk, at which the loop stops. Replay itself does
  not look at the bound of the entry count, so any other committed journal with a corrupted count makes it read past the array.
\<close>

theorem journal_fsck_guards_replay:
  assumes "length (entries j) = 32" "\<forall>e\<in>set (entries j). length (entry_data e) = 512" "disk_ok d n"
  shows "(\<exists>r. m16_journal_replay (Some j) (Some d) n = Some r) \<longleftrightarrow>
    m16_journal_fsck (Some j) = M16_JOURNAL_OK \<or> journal_magic j \<noteq> M16_JOURNAL_MAGIC \<or> committed j = 0 \<or>
    (\<exists>e\<in>set (entries j). entry_valid e \<and> n \<le> target_block e)"
proof (cases "journal_magic j = M16_JOURNAL_MAGIC \<and> committed j \<noteq> 0")
  case True
  then have "(\<exists>r. m16_journal_replay (Some j) (Some d) n = Some r) \<longleftrightarrow>
      (\<exists>r. replay_loop j n (unat (entry_count j)) 0 d = Some r)"
    by (auto simp: m16_journal_replay_def)
  also have "\<dots> \<longleftrightarrow> unat (entry_count j) \<le> 32 \<or> (\<exists>e\<in>set (entries j). entry_valid e \<and> \<not> entry_in n e)"
    using replay_loop_defined [of 0 j d n] assms by simp
  also have "unat (entry_count j) \<le> 32 \<longleftrightarrow> m16_journal_fsck (Some j) = M16_JOURNAL_OK"
    using True by (simp add: m16_journal_fsck_def word_less_nat_alt not_less)
  finally show ?thesis using True by (simp add: entry_in_def not_less)
next
  case False
  then show ?thesis by (auto simp: m16_journal_replay_def)
qed

definition demo_overrun_journal :: m16_journal where
  "demo_overrun_journal = \<lparr>journal_magic = M16_JOURNAL_MAGIC, committed = 1, entry_count = 33,
     entries = replicate 32 zero_entry\<rparr>"

theorem journal_fsck_guards_replay_witness:
  "\<not> (\<exists>r. m16_journal_replay (Some demo_overrun_journal) (Some demo_disk) 1 = Some r)"
proof -
  have "length (entries demo_overrun_journal) = 32"
    "\<forall>e\<in>set (entries demo_overrun_journal). length (entry_data e) = 512" "disk_ok demo_disk 1"
    by (simp_all add: demo_overrun_journal_def zero_entry_def disk_ok_def demo_disk_def)
  from journal_fsck_guards_replay [OF this] show ?thesis
    by (simp add: m16_journal_fsck_def demo_overrun_journal_def zero_entry_def)
qed

section \<open>Replaying onto a block device\<close>

abbreviation entry_writes :: "m16_journal_entry list \<Rightarrow> (u64 \<times> u8 list) list" where
  "entry_writes es \<equiv> map (\<lambda>e. (target_block e, entry_data e)) es"

lemma put_all_apply_entries:
  assumes "ramblk_bound st d" "driver_data d = Some p" "st p = Some r"
    and "\<forall>e\<in>set es. target_block e < block_count d \<and> length (entry_data e) = 512"
  shows "ramblk.put_all (st, d) (entry_writes es) =
    Some (st(p \<mapsto> r\<lparr>storage := apply_entries es (storage r)\<rparr>), d)"
  using assms(1,3,4)
proof (induction es arbitrary: st r)
  case Nil
  then show ?case by (simp add: fun_upd_idem)
next
  case (Cons e es)
  let ?r = "r\<lparr>storage := apply_entry e (storage r)\<rparr>"
  have e: "target_block e < block_count d" "length (entry_data e) = 512" using Cons.prems by auto
  have put: "blk_put (st, d) (target_block e) (entry_data e) = Some (st(p \<mapsto> ?r), d)"
    using blk_put_in [OF Cons.prems(1) assms(2) Cons.prems(2) e] by (simp add: apply_entry_def)
  have ok: "ramblk_bound (st(p \<mapsto> ?r)) d"
    using ramblk_bound_write [OF Cons.prems(1) assms(2) Cons.prems(2) e] by (simp add: apply_entry_def)
  have "ramblk.put_all (st(p \<mapsto> ?r), d) (entry_writes es) =
      Some ((st(p \<mapsto> ?r))(p \<mapsto> ?r\<lparr>storage := apply_entries es (storage ?r)\<rparr>), d)"
    using Cons.prems(3) by (intro Cons.IH [OF ok]) auto
  then show ?case using put by (simp add: fun_eq_iff)
qed

text \<open>A batch of block writes through the dispatch function, up to the first that fails.\<close>

primrec write_blocks ::
  "mcs_block_device option \<Rightarrow> (u64 \<times> u8 list) list \<Rightarrow> ram_store \<Rightarrow> (int \<times> ram_store) option" where
  "write_blocks dev [] st = Some (MCS_BLOCK_OK, st)"
| "write_blocks dev (w # ws) st = do {
     (rc, st') \<leftarrow> mcs_block_write st dev (fst w) (Some (snd w));
     if rc \<noteq> MCS_BLOCK_OK then Some (rc, st') else write_blocks dev ws st'
   }"

lemma write_blocks_put_all:
  "ramblk.put_all (st, d) ws = Some (st', d') \<Longrightarrow> write_blocks (Some d) ws st = Some (MCS_BLOCK_OK, st')"
proof (induction ws arbitrary: st)
  case (Cons w ws)
  then obtain s where s: "blk_put (st, d) (fst w) (snd w) = Some s" "ramblk.put_all s ws = Some (st', d')"
    by (auto split: bind_splits)
  then obtain st1 where "mcs_block_write st (Some d) (fst w) (Some (snd w)) = Some (MCS_BLOCK_OK, st1)" "s = (st1, d)"
    by (auto simp: blk_put_def [of "(st, d)"] split: option.splits if_splits)
  then show ?case using Cons.IH [of st1] s(2) by simp
qed simp

text \<open>
  C10. The journal over the block layer: on a device bound to a RAM disk with all live entries of the journal in range, replaying a committed
  journal onto the storage succeeds and leaves the same RAM disk as writing the live entries to the device with
  \<open>mcs_block_write\<close> in order, which succeeds too. Afterwards \<open>mcs_block_read\<close> of a journaled block delivers
  the data of the last entry for it, and of any other block what it delivered before.
\<close>

theorem journal_replay_on_device:
  assumes "ramblk_bound st d" "driver_data d = Some p" "st p = Some r"
    and "journal_wf j" "journal_magic j = M16_JOURNAL_MAGIC" "committed j \<noteq> 0"
    and "\<forall>e\<in>set (live_entries j). target_block e < block_count d"
  shows "\<exists>bytes' st'. m16_journal_replay (Some j) (Some (storage r)) (block_count d) =
      Some (M16_JOURNAL_OK, Some bytes') \<and>
    write_blocks (Some d) (map (\<lambda>e. (target_block e, entry_data e)) (live_entries j)) st = Some (MCS_BLOCK_OK, st') \<and>
    st' = st(p \<mapsto> r\<lparr>storage := bytes'\<rparr>) \<and>
    (\<forall>k. blk_get (st', d) k =
      (case map_of (rev (map (\<lambda>e. (target_block e, entry_data e)) (live_entries j))) k of
         Some b \<Rightarrow> Some b
       | None \<Rightarrow> blk_get (st, d) k))"
proof -
  let ?es = "live_entries j"
  let ?st = "st(p \<mapsto> r\<lparr>storage := apply_entries ?es (storage r)\<rparr>)"
  have len: "\<forall>e\<in>set ?es. length (entry_data e) = 512" using live_entry_length [OF assms(4)] by blast
  have "disk_ok (storage r) (block_count d)"
    using assms(1-3) by (auto elim!: ramblk_boundE simp: ramdev_ok_def disk_ok_def)
  then have rep: "m16_journal_replay (Some j) (Some (storage r)) (block_count d) =
      Some (M16_JOURNAL_OK, Some (apply_entries ?es (storage r)))"
    using assms(4-7) by (intro replay_success) (auto simp: entry_in_def)
  have put: "ramblk.put_all (st, d) (entry_writes ?es) = Some (?st, d)"
    using assms(1-3,7) len by (intro put_all_apply_entries) auto
  have "blk_get (?st, d) k =
      (case map_of (rev (entry_writes ?es)) k of Some b \<Rightarrow> Some b | None \<Rightarrow> blk_get (st, d) k)" for k
    by (rule ramblk.get_put_all [OF _ _ put]) (use assms(1) len in auto)
  with rep write_blocks_put_all [OF put] show ?thesis by blast
qed

definition demo_good_journal :: m16_journal where
  "demo_good_journal = \<lparr>journal_magic = M16_JOURNAL_MAGIC, committed = 1, entry_count = 1,
     entries = journal_entry 3 demo_block # replicate 31 zero_entry\<rparr>"

lemma demo_good_journal_live: "live_entries demo_good_journal = [journal_entry 3 demo_block]"
  by (simp add: live_entries_def demo_good_journal_def journal_entry_def)

theorem journal_replay_on_device_witness:
  "\<exists>bytes' r. m16_journal_replay (Some demo_good_journal) (Some (replicate 8192 0)) 16 =
      Some (M16_JOURNAL_OK, Some bytes') \<and>
    mcs_block_write host_ram (Some host_dev) 3 (Some demo_block) =
      Some (MCS_BLOCK_OK, host_ram(1 \<mapsto> r\<lparr>storage := bytes'\<rparr>)) \<and>
    blk_get (host_ram(1 \<mapsto> r\<lparr>storage := bytes'\<rparr>), host_dev) 3 = Some demo_block"
proof -
  let ?r = "\<lparr>storage = replicate 8192 0, total_blocks = 16\<rparr> :: mcs_ram_block_device"
  have h: "driver_data host_dev = Some 1" "host_ram 1 = Some ?r" "block_count host_dev = 16"
    by (simp_all add: host_dev_def host_ram_def mcs_ram_block_init_def)
  have j: "journal_wf demo_good_journal" "journal_magic demo_good_journal = M16_JOURNAL_MAGIC"
    "committed demo_good_journal \<noteq> 0"
    by (simp_all add: journal_wf_def demo_good_journal_def journal_entry_def demo_block_def zero_entry_def)
  have t: "\<forall>e\<in>set (live_entries demo_good_journal). target_block e < block_count host_dev"
    by (simp add: demo_good_journal_live journal_entry_def h(3))
  obtain bytes' where b: "m16_journal_replay (Some demo_good_journal) (Some (storage ?r)) (block_count host_dev) =
      Some (M16_JOURNAL_OK, Some bytes')"
    "write_blocks (Some host_dev) (entry_writes (live_entries demo_good_journal)) host_ram =
      Some (MCS_BLOCK_OK, host_ram(1 \<mapsto> ?r\<lparr>storage := bytes'\<rparr>))"
    "blk_get (host_ram(1 \<mapsto> ?r\<lparr>storage := bytes'\<rparr>), host_dev) 3 =
      (case map_of (rev (entry_writes (live_entries demo_good_journal))) 3 of
         Some b \<Rightarrow> Some b | None \<Rightarrow> blk_get (host_ram, host_dev) 3)"
    using journal_replay_on_device [OF host_dev_bound h(1,2) j t] by blast
  have w: "entry_writes (live_entries demo_good_journal) = [(3, demo_block)]"
    by (simp add: demo_good_journal_live journal_entry_def demo_block_def)
  have "mcs_block_write host_ram (Some host_dev) 3 (Some demo_block) =
      Some (MCS_BLOCK_OK, host_ram(1 \<mapsto> ?r\<lparr>storage := bytes'\<rparr>))"
    using b(2) unfolding w by (auto split: bind_splits if_splits)
  moreover have "blk_get (host_ram(1 \<mapsto> ?r\<lparr>storage := bytes'\<rparr>), host_dev) 3 = Some demo_block"
    using b(3) unfolding w by simp
  moreover have "m16_journal_replay (Some demo_good_journal) (Some (replicate 8192 0)) 16 =
      Some (M16_JOURNAL_OK, Some bytes')"
    using b(1) unfolding h(3) by (simp only: mcs_ram_block_device.select_convs)
  ultimately show ?thesis by blast
qed

end
