(* ===== verification/Pmm.thy ===== *)
theory Pmm
  imports C_Prelude
begin

text \<open>
  The physical memory manager of \<open>src/kernel/core/pmm.c\<close>: a bitmap with one bit per 4 KiB
  frame (1 is used), two counters, and the operations that initialise it from the boot memory
  map, allocate, free and reserve frames.

  The null bitmap pointer of \<open>pmm_zero_state\<close> is the empty list: every access through it is
  outside of it. All counters and addresses are 64-bit words and wrap as in C.
\<close>

section \<open>Model\<close>

abbreviation PMM_PAGE_SIZE :: u64 where "PMM_PAGE_SIZE \<equiv> 4096"
abbreviation PMM_INVALID_FRAME :: u64 where "PMM_INVALID_FRAME \<equiv> 0xffffffffffffffff"
abbreviation PMM_REGION_USABLE :: u32 where "PMM_REGION_USABLE \<equiv> 1"
abbreviation PMM_REGION_RESERVED :: u32 where "PMM_REGION_RESERVED \<equiv> 2"
abbreviation PMM_MAX_PHYS_BYTES :: u64 where "PMM_MAX_PHYS_BYTES \<equiv> 64 * 1024 * 1024"

record boot_mem_region =
  region_base :: u64
  region_length :: u64
  region_type :: u32

record pmm_state =
  bitmap :: "u8 list"
  frame_count :: u64
  free_frames :: u64
  used_frames :: u64
  next_hint :: u64
  initialized :: bool

definition bitmap_set :: "u8 list \<Rightarrow> u64 \<Rightarrow> u8 list option" where
  "bitmap_set bm b = do {
     v \<leftarrow> rd bm (unat (b div 8));
     wr bm (unat (b div 8)) (ucast ((ucast v :: u32) OR push_bit (unat (b mod 8)) 1))
   }"

definition bitmap_clear :: "u8 list \<Rightarrow> u64 \<Rightarrow> u8 list option" where
  "bitmap_clear bm b = do {
     v \<leftarrow> rd bm (unat (b div 8));
     wr bm (unat (b div 8)) (ucast ((ucast v :: u32) AND NOT (push_bit (unat (b mod 8)) 1)))
   }"

definition bitmap_test :: "u8 list \<Rightarrow> u64 \<Rightarrow> bool option" where
  "bitmap_test bm b = do {
     v \<leftarrow> rd bm (unat (b div 8));
     Some ((ucast v :: u32) AND push_bit (unat (b mod 8)) 1 \<noteq> 0)
   }"

definition pmm_zero_state :: "pmm_state \<Rightarrow> pmm_state" where
  "pmm_zero_state p = p\<lparr>bitmap := [], frame_count := 0, free_frames := 0, used_frames := 0,
     next_hint := 0, initialized := False\<rparr>"

text \<open>
  The two statement groups the operations repeat: mark a frame used and move one count from
  free to used, and the converse.
\<close>

definition pmm_take :: "pmm_state \<Rightarrow> u64 \<Rightarrow> pmm_state option" where
  "pmm_take p f = do {
     bm \<leftarrow> bitmap_set (bitmap p) f;
     Some (p\<lparr>bitmap := bm, free_frames := free_frames p - 1, used_frames := used_frames p + 1\<rparr>)
   }"

definition pmm_give :: "pmm_state \<Rightarrow> u64 \<Rightarrow> pmm_state option" where
  "pmm_give p f = do {
     bm \<leftarrow> bitmap_clear (bitmap p) f;
     Some (p\<lparr>bitmap := bm, free_frames := free_frames p + 1, used_frames := used_frames p - 1\<rparr>)
   }"

text \<open>The inner loop of \<open>pmm_init_from_map\<close> over the frames of one usable region.\<close>

function pmm_free_region :: "u64 \<Rightarrow> u64 \<Rightarrow> u64 \<Rightarrow> pmm_state \<Rightarrow> pmm_state option" where
  "pmm_free_region start count i p =
     (if i < count then
        (if frame_count p \<le> start + i then Some p
         else do {
           t \<leftarrow> bitmap_test (bitmap p) (start + i);
           p' \<leftarrow> (if t then pmm_give p (start + i) else Some p);
           pmm_free_region start count (i + 1) p'
         })
      else Some p)"
  by pat_completeness auto
termination
  by (relation "measure (\<lambda>(start, count, i, p). unat (count - i))") (auto intro: word_up_measure)

definition pmm_init_region :: "boot_mem_region \<Rightarrow> pmm_state \<Rightarrow> pmm_state option" where
  "pmm_init_region r p =
     (if region_type r \<noteq> PMM_REGION_USABLE then Some p
      else pmm_free_region (region_base r div PMM_PAGE_SIZE) (region_length r div PMM_PAGE_SIZE) 0 p)"

definition pmm_init_from_map ::
  "pmm_state \<Rightarrow> boot_mem_region list \<Rightarrow> u64 \<Rightarrow> u8 list \<Rightarrow> u64 \<Rightarrow> u64 \<Rightarrow> (bool \<times> pmm_state) option" where
  "pmm_init_from_map pmm regions region_count bitmap_storage bitmap_size max_phys_bytes = do {
     let p0 = (pmm_zero_state pmm)\<lparr>bitmap := bitmap_storage,
                 frame_count := max_phys_bytes div PMM_PAGE_SIZE\<rparr>;
     bm \<leftarrow> fill_bytes 0xFF (bitmap p0) (unat (frame_count p0 div 8));
     let p1 = p0\<lparr>bitmap := bm, used_frames := frame_count p0, free_frames := 0\<rparr>;
     p2 \<leftarrow> for_up (\<lambda>r p. do { reg \<leftarrow> rd regions r; pmm_init_region reg p })
             (unat region_count) 0 p1;
     p3 \<leftarrow> pmm_take p2 0;
     Some (True, p3\<lparr>initialized := True\<rparr>)
   }"

definition pmm_alloc_frame :: "pmm_state \<Rightarrow> (u64 \<times> pmm_state) option" where
  "pmm_alloc_frame p = do {
     hit \<leftarrow> scan (\<lambda>i. map_option Not (bitmap_test (bitmap p) (of_nat i))) (unat (frame_count p)) 0;
     (case hit of
        None \<Rightarrow> Some (PMM_INVALID_FRAME, p)
      | Some i \<Rightarrow> do { p' \<leftarrow> pmm_take p (of_nat i); Some (of_nat i * PMM_PAGE_SIZE, p') })
   }"

definition pmm_free_frame :: "pmm_state \<Rightarrow> u64 \<Rightarrow> (bool \<times> pmm_state) option" where
  "pmm_free_frame p phys =
     (if phys AND (PMM_PAGE_SIZE - 1) \<noteq> 0 then Some (False, p)
      else let frame = phys div PMM_PAGE_SIZE in
        if frame_count p \<le> frame then Some (False, p)
        else do {
          t \<leftarrow> bitmap_test (bitmap p) frame;
          if \<not> t then Some (False, p)
          else do { p' \<leftarrow> pmm_give p frame; Some (True, p') }
        })"

function pmm_reserve_loop :: "u64 \<Rightarrow> u64 \<Rightarrow> u64 \<Rightarrow> pmm_state \<Rightarrow> pmm_state option" where
  "pmm_reserve_loop start count i p =
     (if i < count then
        (if frame_count p \<le> start + i then Some p
         else do {
           t \<leftarrow> bitmap_test (bitmap p) (start + i);
           p' \<leftarrow> (if \<not> t then pmm_take p (start + i) else Some p);
           pmm_reserve_loop start count (i + 1) p'
         })
      else Some p)"
  by pat_completeness auto
termination
  by (relation "measure (\<lambda>(start, count, i, p). unat (count - i))") (auto intro: word_up_measure)

definition pmm_reserve_range :: "pmm_state \<Rightarrow> u64 \<Rightarrow> u64 \<Rightarrow> (bool \<times> pmm_state) option" where
  "pmm_reserve_range p base len = do {
     p' \<leftarrow> pmm_reserve_loop (base div PMM_PAGE_SIZE) (len div PMM_PAGE_SIZE) 0 p;
     Some (True, p')
   }"

definition pmm_is_frame_free :: "pmm_state \<Rightarrow> u64 \<Rightarrow> bool option" where
  "pmm_is_frame_free p phys =
     (let frame = phys div PMM_PAGE_SIZE in
      if frame_count p \<le> frame then Some False
      else map_option Not (bitmap_test (bitmap p) frame))"

definition pmm_free_count :: "pmm_state \<Rightarrow> u64" where
  "pmm_free_count p = free_frames p"

definition pmm_used_count :: "pmm_state \<Rightarrow> u64" where
  "pmm_used_count p = used_frames p"

definition pmm_frame_count :: "pmm_state \<Rightarrow> u64" where
  "pmm_frame_count p = frame_count p"

declare pmm_free_region.simps [simp del] pmm_reserve_loop.simps [simp del]

section \<open>The bitmap as a set of frames\<close>

definition frame_used :: "u8 list \<Rightarrow> nat \<Rightarrow> bool" where
  "frame_used bm i = bit (bm ! (i div 8)) (i mod 8)"

lemma unat_bit_index [simp]:
  "unat (b div 8 :: u64) = unat b div 8" "unat (b mod 8 :: u64) = unat b mod 8"
  by (simp_all add: unat_div unat_mod)

lemma byte_mask:
  fixes v :: u8
  assumes "k < 8"
  shows "(ucast v :: u32) AND 2 ^ k \<noteq> 0 \<longleftrightarrow> bit v k"
    and "bit (ucast ((ucast v :: u32) OR 2 ^ k) :: u8) m \<longleftrightarrow> bit v m \<or> m = k"
    and "bit (ucast ((ucast v :: u32) AND NOT (2 ^ k)) :: u8) m \<longleftrightarrow> bit v m \<and> m \<noteq> k"
  using assms
  by (auto simp: and_exp_eq_0_iff_not_bit bit_simps dest: bit_imp_le_length)

lemma bitmap_test_eq:
  "unat b div 8 < length bm \<Longrightarrow> bitmap_test bm b = Some (frame_used bm (unat b))"
  by (simp add: bitmap_test_def frame_used_def byte_mask)

lemma bitmap_set_eq:
  assumes "unat b div 8 < length bm"
  shows "\<exists>bm'. bitmap_set bm b = Some bm' \<and> length bm' = length bm \<and>
    (\<forall>i. i div 8 < length bm \<longrightarrow> frame_used bm' i = (frame_used bm i \<or> i = unat b))"
  using assms
  by (auto simp: bitmap_set_def frame_used_def byte_mask nth_list_update)
    (metis div_mult_mod_eq)

lemma bitmap_clear_eq:
  assumes "unat b div 8 < length bm"
  shows "\<exists>bm'. bitmap_clear bm b = Some bm' \<and> length bm' = length bm \<and>
    (\<forall>i. i div 8 < length bm \<longrightarrow> frame_used bm' i = (frame_used bm i \<and> i \<noteq> unat b))"
  using assms
  by (auto simp: bitmap_clear_def frame_used_def byte_mask nth_list_update)
    (metis div_mult_mod_eq)

section \<open>Well-formed states and counting\<close>

text \<open>
  A state is well formed when the bitmap has a bit for every frame and every frame has a
  64-bit address. \<open>count_drift\<close> is the error of the free counter against the bitmap.
\<close>

definition pmm_ok :: "pmm_state \<Rightarrow> bool" where
  "pmm_ok p \<longleftrightarrow> unat (frame_count p) \<le> 8 * length (bitmap p) \<and> unat (frame_count p) \<le> 2 ^ 52"

definition free_set :: "pmm_state \<Rightarrow> nat set" where
  "free_set p = {i. i < unat (frame_count p) \<and> \<not> frame_used (bitmap p) i}"

definition count_drift :: "pmm_state \<Rightarrow> u64" where
  "count_drift p = free_frames p - of_nat (card (free_set p))"

text \<open>
  \<open>pmm_moves p p' F\<close>: from \<open>p\<close> to \<open>p'\<close> the set of free frames became \<open>F\<close> and both counters
  followed it exactly; nothing else changed.
\<close>

definition pmm_moves :: "pmm_state \<Rightarrow> pmm_state \<Rightarrow> nat set \<Rightarrow> bool" where
  "pmm_moves p p' F \<longleftrightarrow> pmm_ok p' \<and> frame_count p' = frame_count p \<and> free_set p' = F \<and>
     count_drift p' = count_drift p \<and>
     free_frames p' + used_frames p' = free_frames p + used_frames p \<and> length (bitmap p') = length (bitmap p)"

lemma initialized_irrelevant [simp]:
  "pmm_ok (p\<lparr>initialized := b\<rparr>) = pmm_ok p" "free_set (p\<lparr>initialized := b\<rparr>) = free_set p"
  "count_drift (p\<lparr>initialized := b\<rparr>) = count_drift p"
  by (simp_all add: pmm_ok_def free_set_def count_drift_def)

lemma finite_free_set [simp]: "finite (free_set p)"
  by (simp add: free_set_def)

lemma free_set_bound: "i \<in> free_set p \<Longrightarrow> i < unat (frame_count p)"
  by (simp add: free_set_def)

lemma pmm_moves_refl: "pmm_ok p \<Longrightarrow> pmm_moves p p (free_set p)"
  by (simp add: pmm_moves_def)

lemma pmm_moves_trans: "pmm_moves p q F \<Longrightarrow> pmm_moves q r G \<Longrightarrow> pmm_moves p r G"
  by (simp add: pmm_moves_def)

lemma pmm_moves_ok: "pmm_moves p q F \<Longrightarrow> pmm_ok q \<and> frame_count q = frame_count p \<and> free_set q = F"
  by (simp add: pmm_moves_def)

lemma pmm_moves_self: "pmm_moves p q F \<Longrightarrow> pmm_moves p q (free_set q)"
  by (simp add: pmm_moves_def)

lemma pmm_bit_index: "pmm_ok p \<Longrightarrow> i < unat (frame_count p) \<Longrightarrow> i div 8 < length (bitmap p)"
  by (auto simp: pmm_ok_def)

lemma pmm_test:
  assumes "pmm_ok p" "f < frame_count p"
  shows "bitmap_test (bitmap p) f = Some (unat f \<notin> free_set p)"
  using assms pmm_bit_index [of p "unat f"]
  by (simp add: bitmap_test_eq free_set_def word_less_nat_alt)

lemma pmm_take_bit:
  assumes "pmm_ok p" "unat f div 8 < length (bitmap p)"
  shows "\<exists>p'. pmm_take p f = Some p' \<and> pmm_ok p' \<and> frame_count p' = frame_count p \<and>
    free_set p' = free_set p - {unat f} \<and> length (bitmap p') = length (bitmap p) \<and>
    free_frames p' = free_frames p - 1 \<and> used_frames p' = used_frames p + 1"
proof -
  obtain bm where bm: "bitmap_set (bitmap p) f = Some bm" "length bm = length (bitmap p)"
    "\<forall>i. i div 8 < length (bitmap p) \<longrightarrow> frame_used bm i = (frame_used (bitmap p) i \<or> i = unat f)"
    using bitmap_set_eq [OF assms(2)] by blast
  then show ?thesis
    using assms(1) pmm_bit_index [OF assms(1)]
    by (auto simp: pmm_take_def pmm_ok_def free_set_def)
qed

lemma pmm_take_any:
  assumes "pmm_ok p" "f < frame_count p"
  shows "\<exists>p'. pmm_take p f = Some p' \<and> pmm_ok p' \<and> frame_count p' = frame_count p \<and>
    free_set p' = free_set p - {unat f} \<and> length (bitmap p') = length (bitmap p) \<and>
    free_frames p' = free_frames p - 1 \<and> used_frames p' = used_frames p + 1"
  using pmm_take_bit [OF assms(1) pmm_bit_index [OF assms(1)]] assms(2) by (simp add: word_less_nat_alt)

lemma pmm_take_free:
  assumes "pmm_ok p" "unat f \<in> free_set p"
  shows "\<exists>p'. pmm_take p f = Some p' \<and> pmm_moves p p' (free_set p - {unat f})"
proof -
  have "f < frame_count p" using free_set_bound [OF assms(2)] by (simp add: word_less_nat_alt)
  then obtain p' where p': "pmm_take p f = Some p'" "pmm_ok p'" "frame_count p' = frame_count p"
    "free_set p' = free_set p - {unat f}" "length (bitmap p') = length (bitmap p)" "free_frames p' = free_frames p - 1"
    "used_frames p' = used_frames p + 1"
    using pmm_take_any [OF assms(1)] by blast
  have "card (free_set p) = Suc (card (free_set p - {unat f}))"
    by (rule card_Suc_Diff1 [OF finite_free_set assms(2), symmetric])
  then show ?thesis using p' by (auto simp: pmm_moves_def count_drift_def)
qed

lemma pmm_give_used:
  assumes "pmm_ok p" "f < frame_count p" "unat f \<notin> free_set p"
  shows "\<exists>p'. pmm_give p f = Some p' \<and> pmm_moves p p' (insert (unat f) (free_set p))"
proof -
  have f: "unat f < unat (frame_count p)" using assms(2) by (simp add: word_less_nat_alt)
  obtain bm where bm: "bitmap_clear (bitmap p) f = Some bm" "length bm = length (bitmap p)"
    "\<forall>i. i div 8 < length (bitmap p) \<longrightarrow> frame_used bm i = (frame_used (bitmap p) i \<and> i \<noteq> unat f)"
    using bitmap_clear_eq [OF pmm_bit_index [OF assms(1) f]] by blast
  let ?p = "p\<lparr>bitmap := bm, free_frames := free_frames p + 1, used_frames := used_frames p - 1\<rparr>"
  have "free_set ?p = insert (unat f) (free_set p)"
    using bm f pmm_bit_index [OF assms(1)] by (auto simp: free_set_def)
  moreover have "card (insert (unat f) (free_set p)) = Suc (card (free_set p))"
    using assms(3) by simp
  ultimately have "pmm_moves p ?p (insert (unat f) (free_set p))"
    using assms(1) bm(2) by (simp add: pmm_moves_def count_drift_def pmm_ok_def)
  then show ?thesis using bm(1) by (auto simp: pmm_give_def)
qed

text \<open>The two region loops: every frame of the range that exists becomes free, or used.\<close>

definition frames_from :: "u64 \<Rightarrow> u64 \<Rightarrow> pmm_state \<Rightarrow> nat \<Rightarrow> nat set" where
  "frames_from start count p i =
     {unat start + i..<unat start + unat count} \<inter> {..<unat (frame_count p)}"

lemma frames_from_stop:
  assumes "unat start + unat count < 2 ^ 64" "i < count" "frame_count p \<le> start + i"
  shows "frames_from start count p (unat i) = {}"
proof -
  have "unat (start + i) = unat start + unat i"
    using assms(1,2) by (intro unat_add_lem [THEN iffD1]) (auto simp: word_less_nat_alt)
  then show ?thesis using assms(3) by (auto simp: frames_from_def word_le_nat_alt)
qed

lemma frames_from_step:
  assumes "unat start + unat count < 2 ^ 64" "i < count" "start + i < frame_count p"
  shows "unat (start + i) = unat start + unat i"
    and "frames_from start count p (unat i) =
      insert (unat (start + i)) (frames_from start count p (unat (i + 1)))"
proof -
  show eq: "unat (start + i) = unat start + unat i"
    using assms(1,2) by (intro unat_add_lem [THEN iffD1]) (auto simp: word_less_nat_alt)
  have "unat i < unat count" "unat start + unat i < unat (frame_count p)"
    using assms(2,3) eq by (auto simp: word_less_nat_alt)
  then show "frames_from start count p (unat i) =
      insert (unat (start + i)) (frames_from start count p (unat (i + 1)))"
    using unat_plus_one [OF assms(2)] eq by (auto simp: frames_from_def)
qed

lemma frames_from_end: "\<not> i < count \<Longrightarrow> frames_from start count p (unat i) = {}"
  by (auto simp: frames_from_def word_less_nat_alt)

lemma frames_from_cong: "frame_count q = frame_count p \<Longrightarrow> frames_from start count q i = frames_from start count p i"
  by (simp add: frames_from_def)

lemma pmm_free_region_correct:
  assumes "pmm_ok p" "unat start + unat count < 2 ^ 64"
  shows "\<exists>p'. pmm_free_region start count i p = Some p' \<and>
    pmm_moves p p' (free_set p \<union> frames_from start count p (unat i))"
  using assms
proof (induction start count i p rule: pmm_free_region.induct)
  case (1 start count i p)
  show ?case
  proof (cases "i < count \<and> start + i < frame_count p")
    case True
    let ?f = "start + i"
    have test: "bitmap_test (bitmap p) ?f = Some (unat ?f \<notin> free_set p)"
      using pmm_test "1.prems"(1) True by blast
    obtain q where q: "(if unat ?f \<notin> free_set p then pmm_give p ?f else Some p) = Some q"
      "pmm_moves p q (insert (unat ?f) (free_set p))"
      using pmm_give_used [of p ?f] pmm_moves_refl [of p] "1.prems"(1) True
      by (cases "unat ?f \<in> free_set p") (auto simp: insert_absorb)
    have "\<exists>p'. pmm_free_region start count (i + 1) q = Some p' \<and>
        pmm_moves q p' (free_set q \<union> frames_from start count q (unat (i + 1)))"
      using "1.IH" [OF _ _ test q(1)] True pmm_moves_ok [OF q(2)] "1.prems"(2)
      by (auto simp: not_le)
    then obtain p' where "pmm_free_region start count (i + 1) q = Some p'"
      "pmm_moves q p' (free_set q \<union> frames_from start count q (unat (i + 1)))" by blast
    moreover have "free_set q \<union> frames_from start count q (unat (i + 1)) =
        free_set p \<union> frames_from start count p (unat i)"
      using frames_from_step [OF "1.prems"(2)] True pmm_moves_ok [OF q(2)]
        frames_from_cong [of q p] by auto
    ultimately show ?thesis
      using True test q pmm_moves_trans [OF q(2)]
      by (subst pmm_free_region.simps) (auto simp: not_le)
  next
    case False
    then have "frames_from start count p (unat i) = {}"
      using frames_from_stop [OF "1.prems"(2)] frames_from_end by (metis not_le)
    then show ?thesis
      using False pmm_moves_refl [OF "1.prems"(1)]
      by (subst pmm_free_region.simps) (auto simp: not_less)
  qed
qed

lemma pmm_reserve_loop_correct:
  assumes "pmm_ok p" "unat start + unat count < 2 ^ 64"
  shows "\<exists>p'. pmm_reserve_loop start count i p = Some p' \<and>
    pmm_moves p p' (free_set p - frames_from start count p (unat i))"
  using assms
proof (induction start count i p rule: pmm_reserve_loop.induct)
  case (1 start count i p)
  show ?case
  proof (cases "i < count \<and> start + i < frame_count p")
    case True
    let ?f = "start + i"
    have test: "bitmap_test (bitmap p) ?f = Some (unat ?f \<notin> free_set p)"
      using pmm_test "1.prems"(1) True by blast
    obtain q where q: "(if \<not> unat ?f \<notin> free_set p then pmm_take p ?f else Some p) = Some q"
      "pmm_moves p q (free_set p - {unat ?f})"
      using pmm_take_free [of p ?f] pmm_moves_refl [of p] "1.prems"(1)
      by (cases "unat ?f \<in> free_set p") auto
    have "\<exists>p'. pmm_reserve_loop start count (i + 1) q = Some p' \<and>
        pmm_moves q p' (free_set q - frames_from start count q (unat (i + 1)))"
      using "1.IH" [OF _ _ test q(1)] True pmm_moves_ok [OF q(2)] "1.prems"(2)
      by (auto simp: not_le)
    then obtain p' where "pmm_reserve_loop start count (i + 1) q = Some p'"
      "pmm_moves q p' (free_set q - frames_from start count q (unat (i + 1)))" by blast
    moreover have "free_set q - frames_from start count q (unat (i + 1)) =
        free_set p - frames_from start count p (unat i)"
      using frames_from_step [OF "1.prems"(2)] True pmm_moves_ok [OF q(2)]
        frames_from_cong [of q p] by auto
    ultimately show ?thesis
      using True test q pmm_moves_trans [OF q(2)]
      by (subst pmm_reserve_loop.simps) (auto simp: not_le)
  next
    case False
    then have "frames_from start count p (unat i) = {}"
      using frames_from_stop [OF "1.prems"(2)] frames_from_end by (metis not_le)
    then show ?thesis
      using False pmm_moves_refl [OF "1.prems"(1)]
      by (subst pmm_reserve_loop.simps) (auto simp: not_less)
  qed
qed

section \<open>Allocation and release\<close>

lemma page_range: "unat (b div 4096 :: u64) + unat (l div 4096 :: u64) < 2 ^ 64"
  using unat_less_64 [of b] unat_less_64 [of l] by (simp add: unat_div)

lemma page_address:
  assumes "pmm_ok p" "i < unat (frame_count p)"
  shows "unat (of_nat i * 4096 :: u64) = i * 4096" "unat (of_nat i :: u64) = i"
    "(of_nat i * 4096 :: u64) div 4096 = of_nat i"
proof -
  have i: "i < 2 ^ 52" using assms by (simp add: pmm_ok_def)
  then show i': "unat (of_nat i :: u64) = i" by (simp add: unat_of_nat)
  then have "unat (of_nat i :: u64) * unat (4096 :: u64) < 2 ^ LENGTH(64)" using i by simp
  then show m: "unat (of_nat i * 4096 :: u64) = i * 4096"
    using i' by (subst unat_mult_lem [THEN iffD1]) auto
  show "(of_nat i * 4096 :: u64) div 4096 = of_nat i"
    by (simp add: word_unat_eq_iff unat_div m i')
qed

lemma pmm_scan:
  assumes "pmm_ok p"
  shows "scan (\<lambda>i. map_option Not (bitmap_test (bitmap p) (of_nat i))) (unat (frame_count p)) 0 =
    Some (find (\<lambda>i. i \<in> free_set p) [0..<unat (frame_count p)])"
proof -
  have "map_option Not (bitmap_test (bitmap p) (of_nat j)) = Some (j \<in> free_set p)"
    if "j < unat (frame_count p)" for j
  proof -
    have "(of_nat j :: u64) < frame_count p"
      using that page_address (2) [OF assms that] by (simp add: word_less_nat_alt)
    then show ?thesis using pmm_test [OF assms] page_address (2) [OF assms that] by simp
  qed
  then show ?thesis
    using scan_find [of 0 "unat (frame_count p)"
      "\<lambda>i. map_option Not (bitmap_test (bitmap p) (of_nat i))" "\<lambda>i. i \<in> free_set p"] by simp
qed

lemma pmm_alloc_none:
  assumes "pmm_ok p" "free_set p = {}"
  shows "pmm_alloc_frame p = Some (PMM_INVALID_FRAME, p)"
proof -
  have "find (\<lambda>i. i \<in> free_set p) [0..<unat (frame_count p)] = None"
    using assms(2) by (simp add: find_upt_None)
  then show ?thesis using assms(1) by (simp add: pmm_alloc_frame_def pmm_scan)
qed

lemma pmm_alloc_some:
  assumes "pmm_ok p" "free_set p \<noteq> {}"
  shows "\<exists>p'. pmm_alloc_frame p = Some (of_nat (Min (free_set p)) * 4096, p') \<and>
    pmm_moves p p' (free_set p - {Min (free_set p)})"
proof -
  let ?i = "Min (free_set p)"
  have i: "?i \<in> free_set p" "\<forall>j<?i. j \<notin> free_set p"
    using assms(2) Min_le [of "free_set p"] by (auto dest: leD)
  have lt: "?i < unat (frame_count p)" by (rule free_set_bound [OF i(1)])
  have "find (\<lambda>i. i \<in> free_set p) [0..<unat (frame_count p)] = Some ?i"
    using i lt by (simp add: find_upt_Some)
  then have "pmm_alloc_frame p = do { p' \<leftarrow> pmm_take p (of_nat ?i); Some (of_nat ?i * 4096, p') }"
    using assms(1) by (simp add: pmm_alloc_frame_def pmm_scan)
  moreover have "\<exists>p'. pmm_take p (of_nat ?i) = Some p' \<and> pmm_moves p p' (free_set p - {?i})"
    using pmm_take_free [of p "of_nat ?i"] i(1) assms(1) page_address (2) [OF assms(1) lt] by simp
  ultimately show ?thesis by auto
qed

lemma page_aligned_iff: "phys AND 4095 = 0 \<longleftrightarrow> phys mod (4096 :: u64) = 0"
proof -
  have "phys AND 4095 = take_bit 12 phys"
    by (simp add: take_bit_eq_mask mask_eq_exp_minus_1)
  then show ?thesis by (simp add: take_bit_eq_mod)
qed

lemma pmm_free_accept:
  assumes "pmm_ok p" "phys AND 4095 = 0" "phys div 4096 < frame_count p"
    "unat (phys div 4096) \<notin> free_set p"
  shows "\<exists>p'. pmm_free_frame p phys = Some (True, p') \<and>
    pmm_moves p p' (insert (unat (phys div 4096)) (free_set p))"
  using assms pmm_give_used [OF assms(1,3,4)] pmm_test [OF assms(1,3)]
  by (auto simp: pmm_free_frame_def Let_def not_le)

lemma pmm_free_reject:
  assumes "pmm_ok p" "phys AND 4095 \<noteq> 0 \<or> frame_count p \<le> phys div 4096 \<or>
    unat (phys div 4096) \<in> free_set p"
  shows "pmm_free_frame p phys = Some (False, p)"
  using assms pmm_test [OF assms(1), of "phys div 4096"]
  by (cases "frame_count p \<le> phys div 4096") (auto simp: pmm_free_frame_def Let_def not_le)

section \<open>The contract of a frame allocator\<close>

text \<open>
  What a kernel component relies on when it obtains pages: an allocator manages a set of page
  addresses, some of which are available. Allocation takes an available page or reports that
  there is none; release takes back exactly the managed pages that are not available.
\<close>

locale frame_pool =
  fixes ok :: "'s \<Rightarrow> bool"
    and managed :: "'s \<Rightarrow> u64 set"
    and avail :: "'s \<Rightarrow> u64 set"
    and alloc :: "'s \<Rightarrow> (u64 \<times> 's) option"
    and release :: "'s \<Rightarrow> u64 \<Rightarrow> (bool \<times> 's) option"
    and invalid :: u64
  assumes avail_managed: "ok s \<Longrightarrow> avail s \<subseteq> managed s"
    and invalid_unmanaged: "ok s \<Longrightarrow> invalid \<notin> managed s"
    and alloc_empty: "ok s \<Longrightarrow> avail s = {} \<Longrightarrow> alloc s = Some (invalid, s)"
    and alloc_page: "ok s \<Longrightarrow> avail s \<noteq> {} \<Longrightarrow> \<exists>a s'. alloc s = Some (a, s') \<and> a \<in> avail s \<and>
      ok s' \<and> avail s' = avail s - {a} \<and> managed s' = managed s"
    and release_owned: "ok s \<Longrightarrow> a \<in> managed s \<Longrightarrow> a \<notin> avail s \<Longrightarrow> \<exists>s'. release s a = Some (True, s') \<and>
      ok s' \<and> avail s' = insert a (avail s) \<and> managed s' = managed s"
    and release_refused: "ok s \<Longrightarrow> a \<notin> managed s \<or> a \<in> avail s \<Longrightarrow> release s a = Some (False, s)"
begin

text \<open>
  \<open>pool_run s own\<close>: clients have worked with the allocator from some well-formed state and now
  hold the pages \<open>own\<close>. A client frees only pages that it holds.
\<close>

inductive pool_run :: "'s \<Rightarrow> u64 list \<Rightarrow> bool" where
  begin_run: "ok s \<Longrightarrow> pool_run s []"
| alloc_run: "pool_run s own \<Longrightarrow> alloc s = Some (a, s') \<Longrightarrow> a \<noteq> invalid \<Longrightarrow> pool_run s' (a # own)"
| fail_run: "pool_run s own \<Longrightarrow> alloc s = Some (invalid, s') \<Longrightarrow> pool_run s' own"
| release_run: "pool_run s own \<Longrightarrow> a \<in> set own \<Longrightarrow> release s a = Some (r, s') \<Longrightarrow>
    pool_run s' (remove1 a own)"

lemma alloc_result:
  assumes "ok s" "alloc s = Some (a, s')"
  shows "(a = invalid \<and> s' = s \<and> avail s = {}) \<or>
    (a \<noteq> invalid \<and> a \<in> avail s \<and> ok s' \<and> avail s' = avail s - {a} \<and> managed s' = managed s)"
  using assms alloc_empty [of s] alloc_page [of s] avail_managed [of s] invalid_unmanaged [of s]
  by (cases "avail s = {}") auto

lemma pool_run_inv:
  "pool_run s own \<Longrightarrow> ok s \<and> distinct own \<and> set own \<subseteq> managed s \<and> set own \<inter> avail s = {}"
proof (induction rule: pool_run.induct)
  case (begin_run s)
  then show ?case by simp
next
  case (alloc_run s own a s')
  then show ?case using alloc_result [of s a s'] avail_managed [of s] by auto
next
  case (fail_run s own s')
  then show ?case using alloc_result [of s invalid s'] by auto
next
  case (release_run s own a r s')
  then have "a \<in> managed s" "a \<notin> avail s" by auto
  with release_run show ?case using release_owned [of s a] by (auto simp: set_remove1_eq)
qed

lemma pages_exclusive:
  assumes "pool_run s own"
  shows "distinct own" "invalid \<notin> set own" "a \<in> set own \<Longrightarrow> \<exists>s'. release s a = Some (True, s')"
    "alloc s = Some (b, s') \<Longrightarrow> b \<notin> set own"
proof -
  note inv = pool_run_inv [OF assms]
  show "distinct own" using inv by simp
  show "invalid \<notin> set own" using inv invalid_unmanaged by auto
  show "\<exists>s'. release s a = Some (True, s')" if "a \<in> set own"
    using inv that release_owned [of s a] by auto
  show "b \<notin> set own" if "alloc s = Some (b, s')"
    using alloc_result [OF _ that] inv invalid_unmanaged by auto
qed

end

section \<open>The PMM is a frame allocator\<close>

definition page_of :: "nat \<Rightarrow> u64" where
  "page_of i = of_nat i * 4096"

definition pmm_managed :: "pmm_state \<Rightarrow> u64 set" where
  "pmm_managed p = page_of ` {..<unat (frame_count p)}"

definition pmm_avail :: "pmm_state \<Rightarrow> u64 set" where
  "pmm_avail p = page_of ` free_set p"

lemma page_of_inject:
  assumes "pmm_ok p" "i < unat (frame_count p)" "j < unat (frame_count p)" "page_of i = page_of j"
  shows "i = j"
proof -
  have "i * 4096 = j * 4096"
    using assms(4) page_address (1) [OF assms(1,2)] page_address (1) [OF assms(1,3)]
    by (simp only: page_of_def)
  then show ?thesis by simp
qed

lemma page_of_avail:
  "pmm_ok p \<Longrightarrow> i < unat (frame_count p) \<Longrightarrow> page_of i \<in> pmm_avail p \<longleftrightarrow> i \<in> free_set p"
  unfolding pmm_avail_def by (blast dest: page_of_inject free_set_bound)

lemma page_of_image_insert:
  assumes "pmm_ok p" "i < unat (frame_count p)"
  shows "page_of ` (free_set p - {i}) = pmm_avail p - {page_of i}"
  using assms page_of_inject [OF assms(1)] free_set_bound [of _ p] by (auto simp: pmm_avail_def)

lemma managed_pageE:
  assumes "pmm_ok p" "a \<in> pmm_managed p"
  obtains i where "i < unat (frame_count p)" "a = page_of i" "a AND 4095 = 0"
    "a div 4096 = of_nat i" "a div 4096 < frame_count p" "unat (a div 4096) = i"
proof -
  obtain i where i: "i < unat (frame_count p)" "a = page_of i"
    using assms(2) by (auto simp: pmm_managed_def)
  note addr = page_address [OF assms(1) i(1)]
  have "unat (a mod 4096) = 0" using addr(1) i(2) by (simp add: unat_mod page_of_def)
  then have "a AND 4095 = 0" by (simp add: page_aligned_iff unat_eq_zero)
  then show thesis
    using that [OF i] addr i by (simp add: page_of_def word_less_nat_alt)
qed

lemma managed_page_iff:
  assumes "pmm_ok p"
  shows "a \<in> pmm_managed p \<longleftrightarrow> a AND 4095 = 0 \<and> a div 4096 < frame_count p"
proof
  assume "a \<in> pmm_managed p"
  with assms show "a AND 4095 = 0 \<and> a div 4096 < frame_count p" by (auto elim: managed_pageE)
next
  assume a: "a AND 4095 = 0 \<and> a div 4096 < frame_count p"
  have "a mod 4096 = 0" using a by (simp add: page_aligned_iff)
  then have "a = page_of (unat (a div 4096))"
    using div_mult_mod_eq [of a 4096] by (simp add: page_of_def)
  then show "a \<in> pmm_managed p" using a by (auto simp: pmm_managed_def word_less_nat_alt)
qed

interpretation pmm: frame_pool pmm_ok pmm_managed pmm_avail pmm_alloc_frame pmm_free_frame
  PMM_INVALID_FRAME
proof (unfold_locales, goal_cases)
  case (1 s)
  then show ?case using free_set_bound by (auto simp: pmm_avail_def pmm_managed_def)
next
  case (2 s)
  then show ?case by (simp add: managed_page_iff)
next
  case (3 s)
  then show ?case using pmm_alloc_none [of s] by (simp add: pmm_avail_def)
next
  case (4 s)
  then have F: "free_set s \<noteq> {}" by (simp add: pmm_avail_def)
  then have i: "Min (free_set s) \<in> free_set s" by simp
  obtain s' where s': "pmm_alloc_frame s = Some (page_of (Min (free_set s)), s')"
    "pmm_moves s s' (free_set s - {Min (free_set s)})"
    using pmm_alloc_some [OF 4(1) F] by (auto simp: page_of_def)
  then show ?case
    using i pmm_moves_ok [OF s'(2)] page_of_image_insert [OF 4(1) free_set_bound [OF i]]
    by (auto simp: pmm_avail_def pmm_managed_def)
next
  case (5 s a)
  then obtain i where i: "i < unat (frame_count s)" "a = page_of i" "a AND 4095 = 0"
    "a div 4096 < frame_count s" "unat (a div 4096) = i"
    by (auto elim: managed_pageE)
  moreover have "i \<notin> free_set s" using 5 i page_of_avail by blast
  ultimately show ?case
    using pmm_free_accept [OF 5(1), of a] by (auto simp: pmm_avail_def pmm_managed_def dest: pmm_moves_ok)
next
  case (6 s a)
  show ?case
  proof (cases "a \<in> pmm_managed s")
    case True
    with 6 obtain i where "i < unat (frame_count s)" "a = page_of i" "unat (a div 4096) = i"
      by (auto elim: managed_pageE)
    then have "unat (a div 4096) \<in> free_set s" using 6 True page_of_avail [of s i] by auto
    then show ?thesis using pmm_free_reject [OF 6(1)] by blast
  next
    case False
    then show ?thesis
      using pmm_free_reject [OF 6(1), of a] managed_page_iff [OF 6(1), of a] not_less by blast
  qed
qed

section \<open>Initialisation from the boot memory map\<close>

definition region_frames :: "boot_mem_region \<Rightarrow> nat set" where
  "region_frames r =
     (if region_type r = PMM_REGION_USABLE
      then {unat (region_base r) div 4096..<unat (region_base r) div 4096 + unat (region_length r) div 4096}
      else {})"

definition usable_frames :: "boot_mem_region list \<Rightarrow> nat set" where
  "usable_frames rs = (\<Union>r\<in>set rs. region_frames r)"

lemma pmm_init_region_correct:
  assumes "pmm_ok p"
  shows "\<exists>p'. pmm_init_region r p = Some p' \<and>
    pmm_moves p p' (free_set p \<union> (region_frames r \<inter> {..<unat (frame_count p)}))"
proof (cases "region_type r = PMM_REGION_USABLE")
  case True
  have "frames_from (region_base r div 4096) (region_length r div 4096) p 0 =
      region_frames r \<inter> {..<unat (frame_count p)}"
    using True by (simp add: frames_from_def region_frames_def unat_div)
  then show ?thesis
    using pmm_free_region_correct [OF assms page_range, of "region_base r" "region_length r" 0] True
    by (simp add: pmm_init_region_def)
next
  case False
  then show ?thesis
    using pmm_moves_refl [OF assms] by (simp add: pmm_init_region_def region_frames_def)
qed

lemma pmm_init_regions_correct:
  assumes "pmm_ok p" "n \<le> length rs"
  shows "\<exists>p'. for_up (\<lambda>r p. do { reg \<leftarrow> rd rs r; pmm_init_region reg p }) n 0 p = Some p' \<and>
    pmm_moves p p' (free_set p \<union> usable_frames (take n rs) \<inter> {..<unat (frame_count p)})"
proof -
  let ?f = "\<lambda>r p. do { reg \<leftarrow> rd rs r; pmm_init_region reg p }"
  let ?I = "\<lambda>j q. pmm_moves p q (free_set p \<union> usable_frames (take j rs) \<inter> {..<unat (frame_count p)})"
  have "\<exists>s'. for_up ?f n 0 p = Some s' \<and> ?I (0 + n) s'"
  proof (rule for_up_rule)
    show "?I 0 p" using pmm_moves_refl [OF assms(1)] by (simp add: usable_frames_def)
  next
    fix j q
    assume j: "j < 0 + n" and q: "?I j q"
    obtain q' where q': "pmm_init_region (rs ! j) q = Some q'"
      "pmm_moves q q' (free_set q \<union> (region_frames (rs ! j) \<inter> {..<unat (frame_count q)}))"
      using pmm_init_region_correct pmm_moves_ok [OF q] by blast
    have "free_set q \<union> (region_frames (rs ! j) \<inter> {..<unat (frame_count q)}) =
        free_set p \<union> usable_frames (take (Suc j) rs) \<inter> {..<unat (frame_count p)}"
      using pmm_moves_ok [OF q] j assms(2)
      by (auto simp: usable_frames_def take_Suc_conv_app_nth)
    then show "\<exists>t'. ?f j q = Some t' \<and> ?I (Suc j) t'"
      using q' j assms(2) pmm_moves_trans [OF q] by auto
  qed
  then show ?thesis by simp
qed

lemma bit_all_ones: "k < 8 \<Longrightarrow> bit (0xFF :: u8) k"
proof -
  assume "k < 8"
  moreover have "(0xFF :: u8) = - 1" by simp
  ultimately show ?thesis by (simp only: bit_minus_1_iff possible_bit_word) simp
qed

text \<open>
  The loop that marks all frames used fills whole bytes only. The frames of a last, partial byte keep the state that the
  bitmap storage had before: \<open>stale_frames\<close> are those of them that are free there.
\<close>

definition stale_frames :: "u8 list \<Rightarrow> nat \<Rightarrow> nat set" where
  "stale_frames storage n = {i. 8 * (n div 8) \<le> i \<and> i < n \<and> \<not> frame_used storage i}"

lemma stale_none: "n mod 8 = 0 \<Longrightarrow> stale_frames storage n = {}"
  by (auto simp: stale_frames_def)

lemma filled_used:
  assumes "i < n" "n \<le> 8 * length storage"
  shows "frame_used (replicate (n div 8) 0xFF @ drop (n div 8) storage) i \<longleftrightarrow> i \<notin> stale_frames storage n"
proof (cases "i div 8 < n div 8")
  case True
  then have "i < 8 * (n div 8)" by simp
  then show ?thesis using True bit_all_ones [of "i mod 8"] by (simp add: frame_used_def nth_append stale_frames_def)
next
  case False
  then have "i div 8 = n div 8" using assms(1) div_le_mono [of i n 8] by simp
  moreover have "8 * (n div 8) \<le> i" using calculation by (metis mult.commute div_times_less_eq_dividend)
  moreover have "i div 8 < length storage" using assms by simp
  ultimately show ?thesis using assms(1) by (simp add: frame_used_def nth_append stale_frames_def)
qed

text \<open>
  Frame 0 is taken unconditionally at the end of the initialisation: the free counter is right
  afterwards exactly if it was right before and the frame was free.
\<close>

lemma take_frame_0:
  assumes "pmm_ok p" "bitmap p \<noteq> []"
  shows "\<exists>p'. pmm_take p 0 = Some p' \<and> pmm_ok p' \<and> frame_count p' = frame_count p \<and>
    free_set p' = free_set p - {0} \<and> free_frames p' + used_frames p' = free_frames p + used_frames p \<and>
    count_drift p' = count_drift p - (if 0 \<in> free_set p then 0 else 1)"
proof -
  obtain p' where p': "pmm_take p 0 = Some p'" "pmm_ok p'" "frame_count p' = frame_count p"
    "free_set p' = free_set p - {0}" "free_frames p' = free_frames p - 1" "used_frames p' = used_frames p + 1"
    using pmm_take_bit [of p 0] assms by auto
  have "count_drift p' = count_drift p - (if 0 \<in> free_set p then 0 else 1)"
  proof (cases "0 \<in> free_set p")
    case True
    then have "card (free_set p) = Suc (card (free_set p - {0}))"
      by (rule card_Suc_Diff1 [OF finite_free_set, symmetric])
    then show ?thesis using True p'(4,5) by (simp add: count_drift_def)
  next
    case False
    then show ?thesis using p'(4,5) by (simp add: count_drift_def)
  qed
  then show ?thesis using p' by simp
qed

lemma pmm_init_general:
  assumes "unat region_count \<le> length regions" "fc = max_phys_bytes div PMM_PAGE_SIZE"
    and "storage \<noteq> []" "unat fc \<le> 8 * length storage"
    and F: "F = (usable_frames (take (unat region_count) regions) \<inter> {..<unat fc}) \<union> stale_frames storage (unat fc)"
  shows "\<exists>p. pmm_init_from_map pmm regions region_count storage bitmap_size max_phys_bytes = Some (True, p) \<and>
    pmm_ok p \<and> frame_count p = fc \<and> initialized p \<and> free_set p = F - {0} \<and> free_frames p + used_frames p = fc \<and>
    count_drift p = - of_nat (card (stale_frames storage (unat fc))) - (if 0 \<in> F then 0 else 1)"
proof -
  let ?U = "usable_frames (take (unat region_count) regions)" and ?S = "stale_frames storage (unat fc)"
  let ?bm = "replicate (unat fc div 8) 0xFF @ drop (unat fc div 8) storage"
  define p1 where "p1 = (pmm_zero_state pmm)\<lparr>frame_count := fc, bitmap := ?bm,
    used_frames := fc, free_frames := 0\<rparr>"
  have "unat fc \<le> 2 ^ 52" using assms(2) unat_less_64 [of max_phys_bytes] by (simp add: unat_div)
  then have ok1: "pmm_ok p1" using assms(4) by (simp add: p1_def pmm_ok_def)
  have S: "free_set p1 = ?S"
    using filled_used [OF _ assms(4)] by (auto simp: free_set_def p1_def) (auto simp: stale_frames_def)
  obtain p2 where p2: "for_up (\<lambda>r p. do { reg \<leftarrow> rd regions r; pmm_init_region reg p })
      (unat region_count) 0 p1 = Some p2" "pmm_moves p1 p2 F"
    using pmm_init_regions_correct [OF ok1 assms(1)] S by (auto simp: p1_def F Un_commute)
  have c2: "free_frames p2 + used_frames p2 = fc" "count_drift p2 = - of_nat (card ?S)" "frame_count p2 = fc" "pmm_ok p2"
    "free_set p2 = F"
    using p2(2) pmm_moves_ok [OF p2(2)] S
    by (simp_all add: pmm_moves_def) (simp_all add: p1_def count_drift_def)
  have "length (bitmap p2) = length storage" using p2(2) assms(4) by (simp add: pmm_moves_def) (simp add: p1_def)
  then have "bitmap p2 \<noteq> []" using assms(3) by auto
  then obtain p3 where p3: "pmm_take p2 0 = Some p3" "pmm_ok p3" "frame_count p3 = fc"
    "free_set p3 = F - {0}" "free_frames p3 + used_frames p3 = fc"
    "count_drift p3 = - of_nat (card ?S) - (if 0 \<in> F then 0 else 1)"
    using take_frame_0 [of p2] c2 by auto
  moreover have "pmm_init_from_map pmm regions region_count storage bitmap_size max_phys_bytes =
      Some (True, p3\<lparr>initialized := True\<rparr>)"
    using p2(1) p3(1) assms(2,4)
    by (simp add: pmm_init_from_map_def Let_def fill_bytes_Some p1_def pmm_zero_state_def)
  ultimately show ?thesis by (intro exI [of _ "p3\<lparr>initialized := True\<rparr>"]) simp
qed

text \<open>With a multiple of eight frames there are no stale ones, and the free counter is exact or one too low.\<close>

lemma pmm_init_exact_lemma:
  assumes "unat region_count \<le> length regions" "fc = max_phys_bytes div PMM_PAGE_SIZE"
    and "fc mod 8 = 0" "0 < fc" "unat fc \<le> 8 * length storage"
  shows "\<exists>p. pmm_init_from_map pmm regions region_count storage bitmap_size max_phys_bytes = Some (True, p) \<and>
    pmm_ok p \<and> frame_count p = fc \<and> initialized p \<and>
    free_set p = usable_frames (take (unat region_count) regions) \<inter> {1..<unat fc} \<and>
    free_frames p + used_frames p = fc \<and>
    count_drift p = (if 0 \<in> usable_frames (take (unat region_count) regions) then 0 else - 1)"
proof -
  let ?U = "usable_frames (take (unat region_count) regions)"
  have "unat fc mod 8 = 0" using assms(3) by (metis unat_bit_index(2) unat_0)
  then have "stale_frames storage (unat fc) = {}" by (rule stale_none)
  moreover have fc: "0 < unat fc" using assms(4) by (simp add: word_less_nat_alt)
  moreover have "storage \<noteq> []" using fc assms(5) by auto
  moreover have "?U \<inter> {..<unat fc} - {0} = ?U \<inter> {1..<unat fc}" by auto
  ultimately show ?thesis using pmm_init_general [OF assms(1,2) _ assms(5) refl, of pmm bitmap_size] by auto
qed

text \<open>
  C14. What initialisation from the boot map establishes, given as many regions as the count says and bitmap storage of at least one
  byte with a bit for every frame: it succeeds, and a frame other than frame 0 is free afterwards exactly if it exists and either lies in a
  usable region or is stale, that is, belongs to a last group of fewer than eight frames and was free in the storage before the call. So with a
  multiple of eight frames no frame of a reserved or unlisted region is free. Frame 0 is used. The
  two counters add up to the frame count; the free counter is too low by the number of stale frames, and by
  one more unless frame 0 was usable or stale.
\<close>

theorem pmm_init_exact:
  assumes "unat region_count \<le> length regions" "fc = max_phys_bytes div PMM_PAGE_SIZE"
    and "storage \<noteq> []" "unat fc \<le> 8 * length storage"
    and "F = (usable_frames (take (unat region_count) regions) \<inter> {..<unat fc}) \<union> stale_frames storage (unat fc)"
  shows "\<exists>p. pmm_init_from_map pmm regions region_count storage bitmap_size max_phys_bytes = Some (True, p) \<and>
    pmm_ok p \<and> pmm_frame_count p = fc \<and> initialized p \<and> free_set p = F - {0} \<and>
    pmm_free_count p + pmm_used_count p = fc \<and>
    pmm_free_count p = of_nat (card (F - {0})) - of_nat (card (stale_frames storage (unat fc))) - (if 0 \<in> F then 0 else 1) \<and>
    (unat fc mod 8 = 0 \<longrightarrow> stale_frames storage (unat fc) = {})"
proof -
  obtain p where p: "pmm_init_from_map pmm regions region_count storage bitmap_size max_phys_bytes = Some (True, p)"
    "pmm_ok p" "frame_count p = fc" "initialized p" "free_set p = F - {0}" "free_frames p + used_frames p = fc"
    "count_drift p = - of_nat (card (stale_frames storage (unat fc))) - (if 0 \<in> F then 0 else 1)"
    using pmm_init_general [OF assms, of pmm bitmap_size] by blast
  have "free_frames p = of_nat (card (F - {0})) + count_drift p" by (simp add: count_drift_def p(5))
  then have "free_frames p = of_nat (card (F - {0})) - of_nat (card (stale_frames storage (unat fc))) - (if 0 \<in> F then 0 else 1)"
    unfolding p(7) by (simp only: add_diff_eq add_uminus_conv_diff)
  then show ?thesis using p(1-6) stale_none
    unfolding pmm_free_count_def pmm_used_count_def pmm_frame_count_def by (intro exI [of _ p] conjI impI) assumption+
qed

text \<open>The memory map that \<open>kmain\<close> passes (\<open>m6_regions\<close>), with a zeroed bitmap.\<close>

definition m6_regions :: "boot_mem_region list" where
  "m6_regions =
     [\<lparr>region_base = 0x00000000, region_length = 0x0009F000, region_type = PMM_REGION_RESERVED\<rparr>,
      \<lparr>region_base = 0x00100000, region_length = 0x00300000, region_type = PMM_REGION_USABLE\<rparr>]"

definition kernel_pmm_init :: "pmm_state \<Rightarrow> (bool \<times> pmm_state) option" where
  "kernel_pmm_init kernel_pmm =
     pmm_init_from_map kernel_pmm m6_regions 2 (replicate 2048 0) 2048 PMM_MAX_PHYS_BYTES"

definition bss_pmm :: pmm_state where
  "bss_pmm = \<lparr>bitmap = [], frame_count = 0, free_frames = 0, used_frames = 0, next_hint = 0,
     initialized = False\<rparr>"

lemma m6_usable: "usable_frames m6_regions = {256..<1024}"
  by (simp add: usable_frames_def region_frames_def m6_regions_def)

lemma stale_example: "stale_frames [0xFF, 0xF7] 12 = {11}"
proof -
  have used: "frame_used [0xFF, 0xF7] 8" "frame_used [0xFF, 0xF7] 9" "frame_used [0xFF, 0xF7] 10"
    "\<not> frame_used [0xFF, 0xF7] 11"
    by (simp_all add: frame_used_def)
  have range: "8 \<le> i \<and> i < 12 \<longleftrightarrow> i = 8 \<or> i = 9 \<or> i = 10 \<or> i = 11" for i :: nat by auto
  have "stale_frames [0xFF, 0xF7] 12 = {i. (8 \<le> i \<and> i < 12) \<and> \<not> frame_used [0xFF, 0xF7] i}"
    by (simp add: stale_frames_def conj_assoc)
  also have "\<dots> = {11}" unfolding range using used by blast
  finally show ?thesis .
qed

theorem pmm_init_exact_witness:
  "\<exists>p. pmm_init_from_map bss_pmm [\<lparr>region_base = 0x1000, region_length = 0x2000, region_type = PMM_REGION_USABLE\<rparr>] 1
      [0xFF, 0xF7] 2 0xC000 = Some (True, p) \<and> free_set p = {1, 2, 11} \<and> pmm_free_count p = 1"
proof -
  let ?rs = "[\<lparr>region_base = 0x1000, region_length = 0x2000, region_type = PMM_REGION_USABLE\<rparr>]"
  have F: "{1, 2, 11} = (usable_frames (take (unat (1 :: u64)) ?rs) \<inter> {..<unat (12 :: u64)}) \<union> stale_frames [0xFF, 0xF7] (unat (12 :: u64))"
    by (auto simp: usable_frames_def region_frames_def stale_example)
  have "unat (1 :: u64) \<le> length ?rs" "(12 :: u64) = 0xC000 div PMM_PAGE_SIZE" "[0xFF, 0xF7 :: u8] \<noteq> []"
    "unat (12 :: u64) \<le> 8 * length [0xFF, 0xF7 :: u8]" by simp_all
  from pmm_init_exact [OF this F, of bss_pmm 2] show ?thesis by (auto simp: stale_example)
qed

section \<open>Properties\<close>

lemma add_shift_one:
  assumes "a' = a - (1 :: u64)" "a' + b' = a + b"
  shows "a' = a - 1 \<and> b' = b + 1"
proof -
  have "b' = (a + b) - (a - 1)" using assms by (metis add_diff_cancel_left')
  then show ?thesis using assms(1) by simp
qed

text \<open>
  Allocation: on a well-formed state \<open>pmm_alloc_frame\<close> always has a defined result. If
  no frame is free it returns \<open>PMM_INVALID_FRAME\<close> and changes nothing. Otherwise it returns
  the page-aligned address of the lowest free frame, which becomes used, while every other
  frame keeps its state.
\<close>

lemma pmm_alloc_exact:
  assumes "pmm_ok p"
  shows "if free_set p = {} then pmm_alloc_frame p = Some (PMM_INVALID_FRAME, p)
    else \<exists>a p'. pmm_alloc_frame p = Some (a, p') \<and> unat a = Min (free_set p) * 4096 \<and>
      a \<noteq> PMM_INVALID_FRAME \<and> pmm_ok p' \<and> frame_count p' = frame_count p \<and>
      free_set p' = free_set p - {Min (free_set p)} \<and>
      free_frames p' = free_frames p - 1 \<and> used_frames p' = used_frames p + 1"
proof (cases "free_set p = {}")
  case False
  let ?i = "Min (free_set p)"
  have i: "?i < unat (frame_count p)" using False by (simp add: free_set_bound)
  obtain p' where p': "pmm_alloc_frame p = Some (of_nat ?i * 4096, p')"
    "pmm_moves p p' (free_set p - {?i})"
    using pmm_alloc_some [OF assms False] by blast
  note addr = page_address (1) [OF assms i]
  have "?i < 2 ^ 52" using i assms by (simp add: pmm_ok_def)
  then have "of_nat ?i * 4096 \<noteq> PMM_INVALID_FRAME"
    using addr by (auto dest: arg_cong [where f = unat])
  moreover have "free_frames p' = free_frames p - 1 \<and> used_frames p' = used_frames p + 1"
  proof -
    have "card (free_set p) = Suc (card (free_set p - {?i}))"
      using False by (intro card_Suc_Diff1 [symmetric]) auto
    moreover have "free_frames p' - of_nat (card (free_set p - {?i})) =
        free_frames p - of_nat (card (free_set p))"
      using p'(2) unfolding pmm_moves_def count_drift_def by metis
    ultimately have "free_frames p' = free_frames p - 1"
      by (simp only: of_nat_Suc) (simp add: algebra_simps)
    then show ?thesis using p'(2) add_shift_one unfolding pmm_moves_def by blast
  qed
  ultimately show ?thesis using False p' addr pmm_moves_ok [OF p'(2)] by auto
qed (simp add: pmm_alloc_none [OF assms])

definition small_pmm :: pmm_state where
  "small_pmm = \<lparr>bitmap = [0xF7], frame_count = 8, free_frames = 1, used_frames = 7,
     next_hint = 0, initialized = True\<rparr>"

lemma small_pmm_ok: "pmm_ok small_pmm"
  by (simp add: pmm_ok_def small_pmm_def)

lemma small_pmm_frame_count [simp]: "frame_count small_pmm = 8"
  by (simp add: small_pmm_def)

lemma small_pmm_free: "free_set small_pmm = {3}"
proof -
  have "i < 8 \<Longrightarrow> \<not> bit (0xF7 :: u8) i \<longleftrightarrow> i = 3" for i :: nat
    by (auto simp: less_Suc_eq numeral_eq_Suc bit_Suc)
  then show ?thesis by (auto simp: free_set_def small_pmm_def frame_used_def)
qed

lemma pmm_alloc_exact_example:
  "\<exists>a p'. pmm_alloc_frame small_pmm = Some (a, p') \<and> unat a = 3 * 4096 \<and> free_set p' = {}"
  using pmm_alloc_exact [OF small_pmm_ok] by (auto simp: small_pmm_free)

text \<open>
  C13. Exclusive ownership of frames: along any sequence of \<open>pmm_alloc_frame\<close> and
  \<open>pmm_free_frame\<close> calls in which clients free only pages they hold, the pages held are
  pairwise different, the next allocation never returns a page that is held, and
  freeing a held page succeeds.
\<close>

theorem pmm_frames_exclusive:
  assumes "pmm.pool_run p own"
  shows "distinct own \<and> PMM_INVALID_FRAME \<notin> set own \<and>
    (\<forall>a\<in>set own. \<exists>p'. pmm_free_frame p a = Some (True, p')) \<and>
    (\<forall>b p'. pmm_alloc_frame p = Some (b, p') \<longrightarrow> b \<notin> set own)"
  using pmm.pages_exclusive [OF assms] by blast

theorem pmm_frames_exclusive_witness:
  "\<exists>p' a p''. pmm_alloc_frame small_pmm = Some (a, p') \<and> pmm_free_frame p' a = Some (True, p'')"
proof -
  obtain a p' where a: "pmm_alloc_frame small_pmm = Some (a, p')" "a \<noteq> PMM_INVALID_FRAME"
    using pmm.alloc_page [OF small_pmm_ok] pmm.invalid_unmanaged [OF small_pmm_ok]
      pmm.avail_managed [OF small_pmm_ok] small_pmm_free by (fastforce simp: pmm_avail_def)
  have "pmm.pool_run p' [a]"
    by (rule pmm.alloc_run [OF pmm.begin_run [OF small_pmm_ok] a])
  then show ?thesis using pmm_frames_exclusive [of p' "[a]"] a by auto
qed

text \<open>
  Freeing: \<open>pmm_free_frame\<close> accepts exactly the page-aligned addresses of managed frames
  that are in use. An address that is not aligned, past the last frame, or of a frame that is
  already free is refused and leaves the state as it was.
\<close>

lemma pmm_free_exact:
  assumes "pmm_ok p"
  shows "if phys mod 4096 = 0 \<and> phys div 4096 < frame_count p \<and> unat (phys div 4096) \<notin> free_set p
    then \<exists>p'. pmm_free_frame p phys = Some (True, p') \<and> pmm_ok p' \<and>
      free_set p' = insert (unat (phys div 4096)) (free_set p) \<and> frame_count p' = frame_count p
    else pmm_free_frame p phys = Some (False, p)"
    (is "if ?c then ?yes else ?no")
proof (cases ?c)
  case True
  then have "phys AND 4095 = 0" by (simp only: page_aligned_iff)
  then have ?yes using True pmm_free_accept [OF assms, of phys] by (auto dest: pmm_moves_ok)
  then show ?thesis unfolding if_P [OF True] .
next
  case False
  then have "phys AND 4095 \<noteq> 0 \<or> frame_count p \<le> phys div 4096 \<or> unat (phys div 4096) \<in> free_set p"
    by (metis page_aligned_iff not_less)
  then have ?no by (rule pmm_free_reject [OF assms])
  then show ?thesis unfolding if_not_P [OF False] .
qed

lemma pmm_free_exact_example:
  "pmm_free_frame small_pmm 0x3000 = Some (False, small_pmm) \<and>
   (\<exists>p'. pmm_free_frame small_pmm 0x4000 = Some (True, p') \<and> free_set p' = {3, 4})"
  using pmm_free_exact [OF small_pmm_ok, of "0x3000"] pmm_free_exact [OF small_pmm_ok, of "0x4000"]
  by (auto simp: small_pmm_free insert_commute)

text \<open>One call of the interface, with any arguments, on a PMM state.\<close>

inductive pmm_step :: "pmm_state \<Rightarrow> pmm_state \<Rightarrow> bool" where
  step_alloc: "pmm_alloc_frame p = Some (a, p') \<Longrightarrow> pmm_step p p'"
| step_free: "pmm_free_frame p phys = Some (r, p') \<Longrightarrow> pmm_step p p'"
| step_reserve: "pmm_reserve_range p base len = Some (r, p') \<Longrightarrow> pmm_step p p'"

inductive_cases pmm_stepE: "pmm_step p p'"

lemma pmm_reserve_moves:
  assumes "pmm_ok p"
  shows "\<exists>p'. pmm_reserve_range p base len = Some (True, p') \<and>
    pmm_moves p p' (free_set p - {unat base div 4096..<unat base div 4096 + unat len div 4096})"
proof -
  let ?R = "{unat base div 4096..<unat base div 4096 + unat len div 4096}"
  have "frames_from (base div 4096) (len div 4096) p 0 = ?R \<inter> {..<unat (frame_count p)}"
    by (simp add: frames_from_def unat_div)
  moreover have "free_set p - ?R \<inter> {..<unat (frame_count p)} = free_set p - ?R"
    using free_set_bound [of _ p] by auto
  ultimately show ?thesis
    using pmm_reserve_loop_correct [OF assms page_range, of base len 0]
    by (auto simp: pmm_reserve_range_def)
qed

lemma pmm_step_moves:
  assumes "pmm_step p p'" "pmm_ok p"
  shows "pmm_moves p p' (free_set p')"
  using assms(1)
proof cases
  case (step_alloc a)
  then show ?thesis
    using pmm_alloc_none [OF assms(2)] pmm_alloc_some [OF assms(2)] pmm_moves_refl [OF assms(2)]
    by (cases "free_set p = {}") (auto dest: pmm_moves_self)
next
  case (step_free phys r)
  then show ?thesis
    using pmm_free_accept [OF assms(2), of phys] pmm_free_reject [OF assms(2), of phys]
      pmm_moves_refl [OF assms(2)]
    by (cases "phys AND 4095 \<noteq> 0 \<or> frame_count p \<le> phys div 4096 \<or> unat (phys div 4096) \<in> free_set p")
      (auto simp: not_le dest: pmm_moves_self)
next
  case (step_reserve base len r)
  then show ?thesis using pmm_reserve_moves [OF assms(2), of base len] by (auto dest: pmm_moves_self)
qed

lemma pmm_steps_move:
  "pmm_step\<^sup>*\<^sup>* p p' \<Longrightarrow> pmm_ok p \<Longrightarrow> pmm_moves p p' (free_set p')"
proof (induction rule: rtranclp_induct)
  case base
  then show ?case by (rule pmm_moves_refl)
next
  case (step q r)
  then show ?case by (blast intro: pmm_moves_trans dest: pmm_moves_ok pmm_step_moves)
qed

text \<open>
  Accounting: whatever sequence of allocations, frees and reservations is made, with
  whatever arguments, \<open>free_frames + used_frames\<close> and the frame count stay what they were and
  the free counter keeps its distance to the number of frames that are free in the bitmap.
\<close>

lemma pmm_accounting:
  assumes "pmm_ok p" "pmm_step\<^sup>*\<^sup>* p p'"
  shows "pmm_ok p' \<and> pmm_frame_count p' = pmm_frame_count p \<and>
    pmm_free_count p' + pmm_used_count p' = pmm_free_count p + pmm_used_count p \<and>
    pmm_free_count p' - of_nat (card (free_set p')) = pmm_free_count p - of_nat (card (free_set p))"
  using pmm_steps_move [OF assms(2,1)]
  by (simp add: pmm_moves_def count_drift_def pmm_free_count_def pmm_used_count_def
      pmm_frame_count_def)

lemma pmm_accounting_example:
  "\<exists>p'. pmm_reserve_range small_pmm 0 0x8000 = Some (True, p') \<and>
     pmm_free_count p' + pmm_used_count p' = 8"
proof -
  obtain p' where p': "pmm_reserve_range small_pmm 0 0x8000 = Some (True, p')"
    using pmm_reserve_moves [OF small_pmm_ok] by blast
  then have "pmm_step\<^sup>*\<^sup>* small_pmm p'" by (blast intro: step_reserve)
  from pmm_accounting [OF small_pmm_ok this] p' show ?thesis
    by (simp add: pmm_free_count_def pmm_used_count_def) (simp add: small_pmm_def)
qed

lemma kernel_pmm_ready:
  "\<exists>p. kernel_pmm_init s = Some (True, p) \<and> pmm_ok p \<and> free_set p = {256..<1024} \<and>
     free_frames p = 767 \<and> used_frames p = 15617 \<and> count_drift p = - 1"
proof -
  have "take 2 m6_regions = m6_regions" "length m6_regions = 2" by (simp_all add: m6_regions_def)
  then have "\<exists>p. kernel_pmm_init s = Some (True, p) \<and> pmm_ok p \<and> frame_count p = 16384 \<and> initialized p \<and>
      free_set p = {256..<1024} \<inter> {1..<16384} \<and> free_frames p + used_frames p = 16384 \<and>
      count_drift p = - 1"
    using pmm_init_exact_lemma [of 2 m6_regions 16384 PMM_MAX_PHYS_BYTES "replicate 2048 0" s 2048]
    by (simp add: m6_usable kernel_pmm_init_def)
  then obtain p where p: "kernel_pmm_init s = Some (True, p)" "pmm_ok p"
    "free_set p = {256..<1024} \<inter> {1..<16384}" "free_frames p + used_frames p = 16384"
    "count_drift p = - 1"
    by blast
  have F: "free_set p = {256..<1024}" using p(3) by auto
  then have f: "free_frames p = 767" using p(5) by (simp add: count_drift_def)
  then have "used_frames p = 16384 - 767" using p(4) by (simp add: eq_diff_eq add.commute)
  then show ?thesis using p F f by auto
qed

text \<open>
  The state that the kernel boots with: with the memory map of \<open>kmain\<close> exactly the frames
  256 to 1023 are free, 768 of them, but the free counter says 767 and stays one too low for
  every state the kernel reaches from there.
\<close>

lemma kernel_pmm_boot:
  "\<exists>p. kernel_pmm_init s = Some (True, p) \<and> pmm_ok p \<and> free_set p = {256..<1024} \<and>
     pmm_free_count p = 767 \<and> pmm_used_count p = 15617 \<and>
     (\<forall>p'. pmm_step\<^sup>*\<^sup>* p p' \<longrightarrow> pmm_free_count p' = of_nat (card (free_set p')) - 1)"
proof -
  obtain p where p: "kernel_pmm_init s = Some (True, p)" "pmm_ok p" "free_set p = {256..<1024}"
    "free_frames p = 767" "used_frames p = 15617" "count_drift p = - 1"
    using kernel_pmm_ready by blast
  have "free_frames p' = of_nat (card (free_set p')) - 1" if "pmm_step\<^sup>*\<^sup>* p p'" for p'
  proof -
    have "count_drift p' = - 1"
      using pmm_steps_move [OF that p(2)] p(6) by (simp add: pmm_moves_def)
    then show ?thesis by (simp add: count_drift_def algebra_simps)
  qed
  then show ?thesis using p by (auto simp: pmm_free_count_def pmm_used_count_def)
qed

lemma kernel_pmm_boot_example:
  "\<exists>p. kernel_pmm_init small_pmm = Some (True, p) \<and> pmm_free_count p = 767"
  using kernel_pmm_boot [of small_pmm] by blast

end
