(* ===== verification/Refinement.thy ===== *)
theory Refinement
  imports C_Prelude
begin

text \<open>
  Sequences of calls on a component and on its abstract specification, and the locale \<open>simulation\<close>: when every
  single call refines its abstract counterpart, every sequence of calls that keeps the rules of the interface is defined and
  returns the results of the specification. \<open>Vmm\<close>, \<open>Pmm_Spec\<close>, \<open>Kmem_Spec\<close>, \<open>Vfs_Spec\<close>, \<open>Mcsfs1_Spec\<close> and \<open>M15_Spec\<close> interpret it.
\<close>

fun run_calls :: "('c \<Rightarrow> 's \<Rightarrow> ('r \<times> 's) option) \<Rightarrow> 'c list \<Rightarrow> 's \<Rightarrow> ('r list \<times> 's) option" where
  "run_calls exec [] s = Some ([], s)"
| "run_calls exec (c # cs) s = do { (r, s') \<leftarrow> exec c s; (rs, s'') \<leftarrow> run_calls exec cs s'; Some (r # rs, s'') }"

fun run_spec :: "('c \<Rightarrow> 'a \<Rightarrow> 'r \<times> 'a) \<Rightarrow> 'c list \<Rightarrow> 'a \<Rightarrow> 'r list \<times> 'a" where
  "run_spec spec [] a = ([], a)"
| "run_spec spec (c # cs) a = (let (r, a') = spec c a; (rs, a'') = run_spec spec cs a' in (r # rs, a''))"

text \<open>The calls of a sequence are allowed, each one in the abstract state in which it is made.\<close>

fun run_legal :: "('a \<Rightarrow> 'c \<Rightarrow> bool) \<Rightarrow> ('c \<Rightarrow> 'a \<Rightarrow> 'r \<times> 'a) \<Rightarrow> 'c list \<Rightarrow> 'a \<Rightarrow> bool" where
  "run_legal pre spec [] a \<longleftrightarrow> True"
| "run_legal pre spec (c # cs) a \<longleftrightarrow> pre a c \<and> run_legal pre spec cs (snd (spec c a))"

lemma run_legal_const [simp]: "run_legal (\<lambda>a. pre) spec cs a \<longleftrightarrow> (\<forall>c\<in>set cs. pre c)"
  by (induction cs arbitrary: a) auto

lemma run_spec_step:
  "spec c a = (r, a') \<Longrightarrow> fst (run_spec spec cs a') = rs \<Longrightarrow> fst (run_spec spec (c # cs) a) = r # rs"
  by (simp add: case_prod_beta Let_def)

lemma run_spec_append:
  "run_spec spec (cs @ ds) a =
     (let (rs, a') = run_spec spec cs a; (ts, a'') = run_spec spec ds a' in (rs @ ts, a''))"
  by (induction cs arbitrary: a) (simp_all add: case_prod_beta Let_def)

locale simulation =
  fixes exec :: "'c \<Rightarrow> 's \<Rightarrow> ('r \<times> 's) option"
    and spec :: "'c \<Rightarrow> 'a \<Rightarrow> 'r \<times> 'a"
    and rel :: "'s \<Rightarrow> 'a \<Rightarrow> bool"
    and pre :: "'a \<Rightarrow> 'c \<Rightarrow> bool"
  assumes call_simulated: "rel s a \<Longrightarrow> pre a c \<Longrightarrow>
    \<exists>s'. exec c s = Some (fst (spec c a), s') \<and> rel s' (snd (spec c a))"
begin

lemma runs_simulated:
  "rel s a \<Longrightarrow> run_legal pre spec cs a \<Longrightarrow>
     \<exists>s'. run_calls exec cs s = Some (fst (run_spec spec cs a), s') \<and> rel s' (snd (run_spec spec cs a))"
proof (induction cs arbitrary: s a)
  case (Cons c cs)
  obtain t where t: "exec c s = Some (fst (spec c a), t)" "rel t (snd (spec c a))"
    using call_simulated [of s a c] Cons.prems by auto
  from Cons.IH [OF t(2)] Cons.prems(2) t(1) show ?case by (auto simp: case_prod_beta Let_def)
qed simp

end

end
