(* ===== verification/Pmm_Spec.thy ===== *)
theory Pmm_Spec
  imports Pmm Refinement
begin

text \<open>
  What the frame allocator promises to its callers: a set of free frame numbers. The bitmap, the order of its bits and the
  two counters are gone; what is left of the counters is a constant, the distance of the free counter to the
  number of free frames, and a constant sum.
\<close>

section \<open>Abstract allocator\<close>

record frame_book =
  book_frames :: nat
  book_free :: "nat set"
  book_drift :: u64
  book_sum :: u64

datatype pmm_call =
    Alloc
  | Free u64
  | Reserve u64 u64
  | Is_free u64
  | Free_count
  | Used_count
  | Frame_count

datatype pmm_result = Addr u64 | Flag bool | Count u64

definition book_count :: "frame_book \<Rightarrow> u64" where
  "book_count b = of_nat (card (book_free b)) + book_drift b"

text \<open>The lowest free frame is handed out; a page is taken back if it exists and is in use.\<close>

definition book_alloc :: "frame_book \<Rightarrow> pmm_result \<times> frame_book" where
  "book_alloc b =
     (if book_free b = {} then (Addr PMM_INVALID_FRAME, b)
      else let i = Min (book_free b) in (Addr (of_nat (i * 4096)), b\<lparr>book_free := book_free b - {i}\<rparr>))"

definition book_release :: "frame_book \<Rightarrow> nat \<Rightarrow> pmm_result \<times> frame_book" where
  "book_release b a =
     (if a mod 4096 = 0 \<and> a div 4096 < book_frames b \<and> a div 4096 \<notin> book_free b
      then (Flag True, b\<lparr>book_free := insert (a div 4096) (book_free b)\<rparr>) else (Flag False, b))"

fun pmm_spec :: "pmm_call \<Rightarrow> frame_book \<Rightarrow> pmm_result \<times> frame_book" where
  "pmm_spec Alloc b = book_alloc b"
| "pmm_spec (Free phys) b = book_release b (unat phys)"
| "pmm_spec (Reserve base len) b =
     (Flag True, b\<lparr>book_free := book_free b - {unat base div 4096..<unat base div 4096 + unat len div 4096}\<rparr>)"
| "pmm_spec (Is_free phys) b = (Flag (unat phys div 4096 \<in> book_free b), b)"
| "pmm_spec Free_count b = (Count (book_count b), b)"
| "pmm_spec Used_count b = (Count (book_sum b - book_count b), b)"
| "pmm_spec Frame_count b = (Count (of_nat (book_frames b)), b)"

fun pmm_exec :: "pmm_call \<Rightarrow> pmm_state \<Rightarrow> (pmm_result \<times> pmm_state) option" where
  "pmm_exec Alloc p = do { (a, p') \<leftarrow> pmm_alloc_frame p; Some (Addr a, p') }"
| "pmm_exec (Free phys) p = do { (r, p') \<leftarrow> pmm_free_frame p phys; Some (Flag r, p') }"
| "pmm_exec (Reserve base len) p = do { (r, p') \<leftarrow> pmm_reserve_range p base len; Some (Flag r, p') }"
| "pmm_exec (Is_free phys) p = do { r \<leftarrow> pmm_is_frame_free p phys; Some (Flag r, p) }"
| "pmm_exec Free_count p = Some (Count (pmm_free_count p), p)"
| "pmm_exec Used_count p = Some (Count (pmm_used_count p), p)"
| "pmm_exec Frame_count p = Some (Count (pmm_frame_count p), p)"

section \<open>Simulation\<close>

definition pmm_book :: "pmm_state \<Rightarrow> frame_book" where
  "pmm_book p = \<lparr>book_frames = unat (frame_count p), book_free = free_set p, book_drift = count_drift p,
     book_sum = free_frames p + used_frames p\<rparr>"

definition books :: "pmm_state \<Rightarrow> frame_book \<Rightarrow> bool" where
  "books p b \<longleftrightarrow> pmm_ok p \<and> b = pmm_book p"

lemma pmm_book_simps [simp]:
  "book_frames (pmm_book p) = unat (frame_count p)" "book_free (pmm_book p) = free_set p"
  "book_drift (pmm_book p) = count_drift p" "book_sum (pmm_book p) = free_frames p + used_frames p"
  "book_count (pmm_book p) = free_frames p"
  by (simp_all add: pmm_book_def book_count_def count_drift_def)

lemma books_moves: "pmm_moves p p' F \<Longrightarrow> books p' ((pmm_book p)\<lparr>book_free := F\<rparr>)"
  by (simp add: books_def pmm_moves_def pmm_book_def)

lemma frame_lookup:
  "pmm_ok p \<Longrightarrow> pmm_is_frame_free p phys = Some (unat phys div 4096 \<in> free_set p)"
  using pmm_test [of p "phys div 4096"] free_set_bound [of "unat phys div 4096" p]
  by (cases "phys div 4096 < frame_count p")
    (auto simp: pmm_is_frame_free_def Let_def word_less_nat_alt word_le_nat_alt unat_div)

text \<open>The two operations on single frames, each case against the set.\<close>

lemma alloc_books:
  assumes "pmm_ok p"
  shows "\<exists>p'. pmm_exec Alloc p = Some (fst (book_alloc (pmm_book p)), p') \<and> books p' (snd (book_alloc (pmm_book p)))"
proof (cases "free_set p = {}")
  case True
  then show ?thesis using pmm_alloc_none [OF assms] assms by (simp add: book_alloc_def books_def)
next
  case False
  then show ?thesis using pmm_alloc_some [OF assms] by (auto simp: book_alloc_def Let_def dest: books_moves)
qed

lemma release_books:
  assumes "pmm_ok p"
  shows "\<exists>p'. pmm_exec (Free phys) p = Some (fst (book_release (pmm_book p) (unat phys)), p') \<and>
    books p' (snd (book_release (pmm_book p) (unat phys)))"
proof -
  have w: "phys AND 4095 = 0 \<longleftrightarrow> unat phys mod 4096 = 0" "phys div 4096 < frame_count p \<longleftrightarrow> unat phys div 4096 < unat (frame_count p)"
    "unat (phys div 4096) = unat phys div 4096"
    unfolding page_aligned_iff by (simp_all add: word_less_nat_alt word_unat_eq_iff unat_div unat_mod)
  show ?thesis
  proof (cases "unat phys mod 4096 = 0 \<and> unat phys div 4096 < unat (frame_count p) \<and> unat phys div 4096 \<notin> free_set p")
    case True
    then show ?thesis using pmm_free_accept [OF assms, of phys] w by (auto simp: book_release_def dest: books_moves)
  next
    case False
    then have "pmm_free_frame p phys = Some (False, p)"
      using pmm_free_reject [OF assms, of phys] w by (auto simp: not_less [symmetric])
    then show ?thesis using False assms by (simp add: book_release_def books_def)
  qed
qed

interpretation frames: simulation pmm_exec pmm_spec books "\<lambda>b c. True"
proof (unfold_locales, goal_cases)
  case (1 p b c)
  then have b: "pmm_ok p" "b = pmm_book p" by (simp_all add: books_def)
  show ?case
  proof (cases c)
    case Alloc
    then show ?thesis using alloc_books [OF b(1)] b(2) by simp
  next
    case (Free phys)
    then show ?thesis using release_books [OF b(1)] b(2) by simp
  next
    case (Reserve base len)
    then show ?thesis using pmm_reserve_moves [OF b(1), of base len] b(2) by (auto dest: books_moves)
  next
    case (Is_free phys)
    then show ?thesis using frame_lookup [OF b(1)] b by (simp add: books_def)
  qed (use b in \<open>simp_all add: books_def pmm_free_count_def pmm_used_count_def pmm_frame_count_def\<close>)
qed


text \<open>The kernel boots with frames 256 to 1023 free and a free counter that is one too low.\<close>

definition boot_book :: frame_book where
  "boot_book = \<lparr>book_frames = 16384, book_free = {256..<1024}, book_drift = - 1, book_sum = 16384\<rparr>"

lemma kernel_pmm_book:
  "\<exists>p. kernel_pmm_init s = Some (True, p) \<and> pmm_ok p \<and> pmm_book p = boot_book"
proof -
  have "{256..<1024} \<inter> {1..<16384} = {256..<1024::nat}" by auto
  moreover have "take 2 m6_regions = m6_regions" "length m6_regions = 2" by (simp_all add: m6_regions_def)
  ultimately show ?thesis
    using pmm_init_exact_lemma [of 2 m6_regions 16384 PMM_MAX_PHYS_BYTES "replicate 2048 0" s 2048]
    by (auto simp: m6_usable kernel_pmm_init_def pmm_book_def boot_book_def)
qed

lemma kernel_pmm_runs:
  "\<exists>p p'. kernel_pmm_init s = Some (True, p) \<and>
     run_calls pmm_exec cs p = Some (fst (run_spec pmm_spec cs boot_book), p') \<and>
     books p' (snd (run_spec pmm_spec cs boot_book))"
  using kernel_pmm_book [of s] frames.runs_simulated [of _ boot_book cs] by (auto simp: books_def)



end
