(* ===== verification/Kmem.thy ===== *)
theory Kmem
  imports C_Prelude
begin

text \<open>
  The kernel heap of \<open>src/kernel/mm/kmem.c\<close>: a singly linked list of blocks, each a 24-byte
  header (\<open>kmem_block_t\<close>) followed by its payload, with first-fit allocation.

  The headers are a store from addresses to header values: reading or writing through a pointer
  with no header behind it has no defined result. Payload bytes are not part of the model, since
  the allocator never touches them. The list walks are \<open>partial_function\<close>s, so that a walk
  along a cyclic list is \<open>None\<close>; on a well-formed heap they are shown to end.
\<close>

section \<open>Model\<close>

abbreviation KMEM_HEADER :: u64 where "KMEM_HEADER \<equiv> 24"

record kmem_block =
  blk_size :: u64
  blk_free :: bool
  blk_next :: u64

record kmem =
  g_head :: u64
  hdrs :: "u64 \<Rightarrow> kmem_block option"

definition put_hdr :: "kmem \<Rightarrow> u64 \<Rightarrow> kmem_block \<Rightarrow> kmem" where
  "put_hdr s a b = s\<lparr>hdrs := (hdrs s)(a \<mapsto> b)\<rparr>"

definition kmem_init :: "kmem \<Rightarrow> u64 \<Rightarrow> u64 \<Rightarrow> kmem" where
  "kmem_init s buffer sz =
     put_hdr (s\<lparr>g_head := buffer\<rparr>) buffer
       \<lparr>blk_size = sz - KMEM_HEADER, blk_free = True, blk_next = 0\<rparr>"

text \<open>The body of the walk at a block that fits: split it if the rest can hold a block, take it.\<close>

definition kmem_take :: "kmem \<Rightarrow> u64 \<Rightarrow> kmem_block \<Rightarrow> u64 \<Rightarrow> u64 \<times> kmem" where
  "kmem_take s cur b sz =
     (let remaining = blk_size b - sz;
          new_block = cur + KMEM_HEADER + sz;
          s' = (if KMEM_HEADER < remaining
                then put_hdr (put_hdr s new_block
                       \<lparr>blk_size = remaining - KMEM_HEADER, blk_free = True, blk_next = blk_next b\<rparr>)
                       cur (b\<lparr>blk_next := new_block, blk_size := sz, blk_free := False\<rparr>)
                else put_hdr s cur (b\<lparr>blk_free := False\<rparr>))
      in (cur + KMEM_HEADER, s'))"

partial_function (option) kmalloc_loop :: "kmem \<Rightarrow> u64 \<Rightarrow> u64 \<Rightarrow> (u64 \<times> kmem) option" where
  "kmalloc_loop s sz cur =
     (if cur = 0 then Some (0, s)
      else do {
        b \<leftarrow> hdrs s cur;
        if blk_free b \<and> sz \<le> blk_size b then Some (kmem_take s cur b sz)
        else kmalloc_loop s sz (blk_next b)
      })"

definition kmalloc :: "kmem \<Rightarrow> u64 \<Rightarrow> (u64 \<times> kmem) option" where
  "kmalloc s sz = (if sz = 0 then Some (0, s) else kmalloc_loop s sz (g_head s))"

definition kfree :: "kmem \<Rightarrow> u64 \<Rightarrow> kmem option" where
  "kfree s ptr =
     (if ptr = 0 then Some s
      else do {
        b \<leftarrow> hdrs s (ptr - KMEM_HEADER);
        Some (put_hdr s (ptr - KMEM_HEADER) (b\<lparr>blk_free := True\<rparr>))
      })"

partial_function (option) free_bytes_loop :: "kmem \<Rightarrow> u64 \<Rightarrow> u64 \<Rightarrow> u64 option" where
  "free_bytes_loop s cur acc =
     (if cur = 0 then Some acc
      else do {
        b \<leftarrow> hdrs s cur;
        free_bytes_loop s (blk_next b) (if blk_free b then acc + blk_size b else acc)
      })"

definition kmem_get_free_bytes :: "kmem \<Rightarrow> u64 option" where
  "kmem_get_free_bytes s = free_bytes_loop s (g_head s) 0"

section \<open>The heap as a list of blocks\<close>

text \<open>
  The abstract heap is the list of block sizes with their free marks; the blocks lie one after
  the other. \<open>tiles h a bs e\<close> says that the header store \<open>h\<close> holds this list from address \<open>a\<close>
  to \<open>e\<close>, linked in this order. \<open>heap_is s a bs e\<close> is the invariant of the allocator.
\<close>

definition addr :: "nat \<Rightarrow> u64" where
  "addr n = of_nat n"

type_synonym blocks = "(nat \<times> bool) list"

fun tiles :: "(u64 \<Rightarrow> kmem_block option) \<Rightarrow> nat \<Rightarrow> blocks \<Rightarrow> nat \<Rightarrow> bool" where
  "tiles h a [] e \<longleftrightarrow> a = e"
| "tiles h a ((n, f) # bs) e \<longleftrightarrow>
     a + 24 + n \<le> e \<and>
     h (addr a) = Some \<lparr>blk_size = addr n, blk_free = f,
                          blk_next = (if bs = [] then 0 else addr (a + 24 + n))\<rparr> \<and>
     tiles h (a + 24 + n) bs e"

definition heap_is :: "kmem \<Rightarrow> nat \<Rightarrow> blocks \<Rightarrow> nat \<Rightarrow> bool" where
  "heap_is s a bs e \<longleftrightarrow> g_head s = addr a \<and> 0 < a \<and> e < 2 ^ 64 \<and> bs \<noteq> [] \<and> tiles (hdrs s) a bs e"

fun fit :: "nat \<Rightarrow> nat \<Rightarrow> blocks \<Rightarrow> (nat \<times> blocks) option" where
  "fit n a [] = None"
| "fit n a ((m, f) # bs) =
     (if f \<and> n \<le> m then
        Some (a + 24, if 24 < m - n then (n, False) # (m - n - 24, True) # bs else (m, False) # bs)
      else map_option (\<lambda>(p, bs'). (p, (m, f) # bs')) (fit n (a + 24 + m) bs))"

fun free_total :: "blocks \<Rightarrow> nat" where
  "free_total [] = 0"
| "free_total ((m, f) # bs) = (if f then m else 0) + free_total bs"

text \<open>The payloads in use, by address.\<close>

fun live :: "nat \<Rightarrow> blocks \<Rightarrow> nat \<Rightarrow> nat option" where
  "live a [] p = None"
| "live a ((m, f) # bs) p = (if p = a + 24 then (if f then None else Some m) else live (a + 24 + m) bs p)"

fun release :: "nat \<Rightarrow> nat \<Rightarrow> blocks \<Rightarrow> blocks option" where
  "release p a [] = None"
| "release p a ((m, f) # bs) =
     (if p = a + 24 then Some ((m, True) # bs)
      else map_option (Cons (m, f)) (release p (a + 24 + m) bs))"

subsection \<open>Facts on tilings\<close>

lemma unat_eq_iff: "unat x = unat y \<longleftrightarrow> x = (y :: u64)"
  by (simp add: word_unat_eq_iff)

lemma tiles_le: "tiles h a bs e \<Longrightarrow> a \<le> e"
  by (induction h a bs e rule: tiles.induct) auto

lemma unat_addr [simp]: "a < 2 ^ 64 \<Longrightarrow> unat (addr a) = a"
  unfolding addr_def by (rule unat_of_nat_64)

lemma addr_eq_iff: "a < 2 ^ 64 \<Longrightarrow> b < 2 ^ 64 \<Longrightarrow> addr a = addr b \<longleftrightarrow> a = b"
  by (metis unat_addr)

lemma addr_zero_iff: "a < 2 ^ 64 \<Longrightarrow> addr a = 0 \<longleftrightarrow> a = 0"
  using addr_eq_iff [of a 0] by (simp add: addr_def)

lemma addr_add: "addr a + addr b = addr (a + b)" "addr a + 24 = addr (a + 24)"
  by (simp_all add: addr_def)

lemma addr_diff: "b \<le> a \<Longrightarrow> addr a - addr b = addr (a - b)" "24 \<le> a \<Longrightarrow> addr a - 24 = addr (a - 24)"
  by (simp_all add: addr_def)

lemma addr_less_iff: "a < 2 ^ 64 \<Longrightarrow> b < 2 ^ 64 \<Longrightarrow> addr a < addr b \<longleftrightarrow> a < b"
  "a < 2 ^ 64 \<Longrightarrow> b < 2 ^ 64 \<Longrightarrow> addr a \<le> addr b \<longleftrightarrow> a \<le> b" "a < 2 ^ 64 \<Longrightarrow> 24 < addr a \<longleftrightarrow> 24 < a"
  by (simp_all add: word_less_nat_alt word_le_nat_alt)

lemma addr_unat [simp]: "addr (unat x) = x"
  by (simp add: addr_def)

text \<open>Headers outside the blocks do not matter.\<close>

lemma tiles_frame:
  "tiles h a bs e \<Longrightarrow> (\<And>x. a \<le> x \<Longrightarrow> x < e \<Longrightarrow> h' (addr x) = h (addr x)) \<Longrightarrow> tiles h' a bs e"
proof (induction h a bs e rule: tiles.induct)
  case (2 h a n f bs e)
  then have "tiles h' (a + 24 + n) bs e" by (intro "2.IH") auto
  moreover have "h' (addr a) = h (addr a)" using 2 by simp
  ultimately show ?case using "2.prems"(1) by simp
qed simp

lemma tiles_upd_below:
  assumes "tiles h a bs e" "e < 2 ^ 64" "x < a"
  shows "tiles (h(addr x \<mapsto> b)) a bs e"
  using assms by (intro tiles_frame [OF assms(1)]) (auto simp: addr_eq_iff)

text \<open>The header list of one walk step: taking a block that fits.\<close>

lemma kmem_take_correct:
  assumes "tiles (hdrs s) a ((m, True) # bs) e" "e < 2 ^ 64" "0 < a" "n \<le> m"
  shows "\<exists>s'. kmem_take s (addr a) \<lparr>blk_size = addr m, blk_free = True,
        blk_next = (if bs = [] then 0 else addr (a + 24 + m))\<rparr> (addr n) = (addr (a + 24), s') \<and>
      tiles (hdrs s') a (if 24 < m - n then (n, False) # (m - n - 24, True) # bs else (m, False) # bs) e \<and>
      g_head s' = g_head s \<and> (\<forall>x. x < a \<longrightarrow> hdrs s' (addr x) = hdrs s (addr x))"
proof -
  let ?b = "\<lparr>blk_size = addr m, blk_free = True,
        blk_next = (if bs = [] then 0 else addr (a + 24 + m))\<rparr> :: kmem_block"
  have e: "a + 24 + m \<le> e" and rest: "tiles (hdrs s) (a + 24 + m) bs e" using assms(1) by auto
  have small: "m - n < 2 ^ 64" "a + 24 + n < 2 ^ 64" "a < 2 ^ 64" using e assms(2,4) by auto
  note word = addr_diff(1) [OF assms(4)] addr_add addr_less_iff(3) [OF small(1)]
  show ?thesis
  proof (cases "24 < m - n")
    case True
    let ?new = "\<lparr>blk_size = addr (m - n - 24), blk_free = True, blk_next = blk_next ?b\<rparr> :: kmem_block"
    let ?cur = "\<lparr>blk_size = addr n, blk_free = False, blk_next = addr (a + 24 + n)\<rparr> :: kmem_block"
    let ?h = "(hdrs s)(addr (a + 24 + n) \<mapsto> ?new, addr a \<mapsto> ?cur)"
    have "kmem_take s (addr a) ?b (addr n) = (addr (a + 24), s\<lparr>hdrs := ?h\<rparr>)"
      using True by (simp add: kmem_take_def Let_def put_hdr_def word addr_diff(2))
    moreover have "tiles ?h (a + 24 + m) bs e"
      using True assms(2) rest by (intro tiles_upd_below) auto
    moreover have "?h (addr (a + 24 + n)) = Some ?new" "?h (addr a) = Some ?cur"
      using small by (simp_all add: addr_eq_iff)
    moreover have "\<forall>x. x < a \<longrightarrow> ?h (addr x) = hdrs s (addr x)"
      using small by (simp add: addr_eq_iff)
    moreover have "a + 24 + n + 24 + (m - n - 24) = a + 24 + m" "a + 24 + n \<le> e" "a + 24 + m \<le> e"
      using True e by auto
    ultimately have "tiles ?h a ((n, False) # (m - n - 24, True) # bs) e"
      unfolding tiles.simps by (simp only:) simp
    then show ?thesis
      using True \<open>kmem_take s (addr a) ?b (addr n) = _\<close> \<open>\<forall>x. x < a \<longrightarrow> _ x\<close>
      by (simp del: fun_upd_apply tiles.simps)
  next
    case False
    let ?h = "(hdrs s)(addr a \<mapsto> ?b\<lparr>blk_free := False\<rparr>)"
    have "kmem_take s (addr a) ?b (addr n) = (addr (a + 24), s\<lparr>hdrs := ?h\<rparr>)"
      using False by (simp add: kmem_take_def Let_def put_hdr_def word)
    moreover have "tiles ?h (a + 24 + m) bs e"
      using assms(2) rest by (intro tiles_upd_below) auto
    moreover have "\<forall>x. x < a \<longrightarrow> ?h (addr x) = hdrs s (addr x)"
      using small by (simp add: addr_eq_iff)
    ultimately show ?thesis using False e by simp
  qed
qed

text \<open>The walk of \<open>kmalloc\<close> ends and computes \<open>fit\<close>; headers below the first block stay.\<close>

definition fits_at :: "kmem \<Rightarrow> nat \<Rightarrow> nat \<Rightarrow> blocks \<Rightarrow> nat \<Rightarrow> (u64 \<times> kmem) option \<Rightarrow> bool" where
  "fits_at s n a bs e res \<longleftrightarrow> (case fit n a bs of
      None \<Rightarrow> res = Some (0, s)
    | Some (p, bs') \<Rightarrow> \<exists>s'. res = Some (addr p, s') \<and> tiles (hdrs s') a bs' e \<and>
        g_head s' = g_head s \<and> (\<forall>x. x < a \<longrightarrow> hdrs s' (addr x) = hdrs s (addr x)))"

lemma fits_at_Cons:
  assumes "\<not> (f \<and> n \<le> m)" "fits_at s n (a + 24 + m) bs e res" "a + 24 + m \<le> e"
    "tiles (hdrs s) a ((m, f) # bs) e"
  shows "fits_at s n a ((m, f) # bs) e res"
proof (cases "fit n (a + 24 + m) bs")
  case None
  then show ?thesis using assms by (auto simp: fits_at_def)
next
  case (Some r)
  then obtain p bs' where r: "fit n (a + 24 + m) bs = Some (p, bs')" by (cases r) auto
  then obtain s' where s': "res = Some (addr p, s')" "tiles (hdrs s') (a + 24 + m) bs' e"
    "g_head s' = g_head s" "\<forall>x. x < a + 24 + m \<longrightarrow> hdrs s' (addr x) = hdrs s (addr x)"
    using assms(2) by (auto simp: fits_at_def)
  have "bs \<noteq> []" "bs' \<noteq> []" using r by (cases bs; auto split: if_splits)+
  then have "tiles (hdrs s') a ((m, f) # bs') e" using s' assms(3,4) by simp
  then show ?thesis using assms(1) r s' by (auto simp: fits_at_def)
qed

lemma kmalloc_loop_fits:
  assumes "tiles (hdrs s) a bs e" "e < 2 ^ 64" "0 < a" "n < 2 ^ 64"
  shows "fits_at s n a bs e (kmalloc_loop s (addr n) (if bs = [] then 0 else addr a))"
  using assms
proof (induction bs arbitrary: a)
  case Nil
  then show ?case by (simp add: fits_at_def kmalloc_loop.simps)
next
  case (Cons b bs)
  obtain m f where b: "b = (m, f)" by (cases b)
  have t: "tiles (hdrs s) a ((m, f) # bs) e" "a + 24 + m \<le> e" "tiles (hdrs s) (a + 24 + m) bs e"
    using Cons.prems(1) b by auto
  have nz: "addr a \<noteq> 0" using Cons.prems(2,3) t(2) by (simp add: addr_zero_iff)
  have le: "addr n \<le> addr m \<longleftrightarrow> n \<le> m" using Cons.prems t(2) by (intro addr_less_iff) auto
  let ?b = "\<lparr>blk_size = addr m, blk_free = f, blk_next = (if bs = [] then 0 else addr (a + 24 + m))\<rparr>"
  have step: "kmalloc_loop s (addr n) (addr a) = (if f \<and> n \<le> m then Some (kmem_take s (addr a) ?b (addr n))
      else kmalloc_loop s (addr n) (if bs = [] then 0 else addr (a + 24 + m)))"
    using nz t(1) le by (subst kmalloc_loop.simps) simp
  show ?case
  proof (cases "f \<and> n \<le> m")
    case True
    then show ?thesis
      using kmem_take_correct [of s a m bs e n] t(1) Cons.prems step b by (auto simp: fits_at_def)
  next
    case False
    have "fits_at s n (a + 24 + m) bs e (kmalloc_loop s (addr n) (if bs = [] then 0 else addr (a + 24 + m)))"
      using Cons.IH [OF t(3)] Cons.prems by simp
    then show ?thesis using fits_at_Cons [OF False _ t(2,1)] step b False by simp
  qed
qed

section \<open>The block list under allocation and release\<close>

definition blocks_end :: "nat \<Rightarrow> blocks \<Rightarrow> nat" where
  "blocks_end a bs = a + sum_list (map (\<lambda>(m, f). 24 + m) bs)"

lemma blocks_end_simps [simp]:
  "blocks_end a [] = a" "blocks_end a ((m, f) # bs) = blocks_end (a + 24 + m) bs"
  by (simp_all add: blocks_end_def)

lemma blocks_end_ge: "a \<le> blocks_end a bs"
  by (simp add: blocks_end_def)

lemma tiles_end: "tiles h a bs e \<Longrightarrow> e = blocks_end a bs"
  by (induction h a bs e rule: tiles.induct) auto

lemma live_bounds: "live a bs p = Some m \<Longrightarrow> a + 24 \<le> p \<and> p + m \<le> blocks_end a bs"
proof (induction a bs p rule: live.induct)
  case (2 a k f bs p)
  then show ?case using blocks_end_ge [of "a + 24 + k" bs] by (auto split: if_splits)
qed simp

lemma live_below: "p < a + 24 \<Longrightarrow> live a bs p = None"
  using live_bounds by (metis not_less option.exhaust)

lemma live_apart: "live a bs p = Some m \<Longrightarrow> live a bs q = Some k \<Longrightarrow> p < q \<Longrightarrow> p + m + 24 \<le> q"
proof (induction a bs p rule: live.induct)
  case (2 a j f bs p)
  show ?case
  proof (cases "p = a + 24")
    case True
    then have "live (a + 24 + j) bs q = Some k" "m = j" using 2 by (auto split: if_splits)
    then show ?thesis using live_bounds [of "a + 24 + j" bs q k] True by simp
  next
    case False
    moreover from False have "q \<noteq> a + 24"
      using 2 live_bounds [of "a + 24 + j" bs p m] by auto
    ultimately show ?thesis using 2 by simp
  qed
qed simp

text \<open>What first fit does: it takes the lowest free block that is large enough.\<close>

lemma fit_None_iff: "fit n a bs = None \<longleftrightarrow> (\<forall>m. (m, True) \<in> set bs \<longrightarrow> m < n)"
  by (induction n a bs rule: fit.induct) (auto simp: not_le)

lemma fit_correct:
  "fit n a bs = Some (p, bs') \<Longrightarrow>
     \<exists>m. n \<le> m \<and> m \<le> n + 24 \<and> live a bs p = None \<and> live a bs' = (live a bs)(p \<mapsto> m) \<and>
       blocks_end a bs' = blocks_end a bs \<and> a + 24 \<le> p \<and> bs' \<noteq> [] \<and>
       free_total bs = free_total bs' + m + (length bs' - length bs) * 24 \<and> length bs \<le> length bs' \<and>
       (\<forall>x g. (x, g) \<in> set bs' \<longrightarrow> (\<exists>y g. (y, g) \<in> set bs \<and> x \<le> y))"
proof (induction n a bs arbitrary: p bs' rule: fit.induct)
  case (2 n a k f bs)
  show ?case
  proof (cases "f \<and> n \<le> k")
    case True
    let ?m = "if 24 < k - n then n else k"
    have p: "p = a + 24" "bs' = (if 24 < k - n then (n, False) # (k - n - 24, True) # bs else (k, False) # bs)"
      using 2(2) True by auto
    have "live a bs' = (live a ((k, f) # bs))(p \<mapsto> ?m)"
      using True p live_below [of _ "a + 24 + k" bs] by (auto simp: fun_eq_iff add.assoc)
    moreover have "\<exists>y g. (y, g) \<in> set ((k, f) # bs) \<and> x \<le> y" if "(x, g) \<in> set bs'" for x g
      using that p(2) True by (auto split: if_splits intro: exI [of _ k])
    ultimately show ?thesis using True p by (intro exI [of _ ?m]) (auto simp: add.assoc)
  next
    case False
    then obtain bs'' where b: "fit n (a + 24 + k) bs = Some (p, bs'')" "bs' = (k, f) # bs''"
      using 2(2) by auto
    obtain m where m: "n \<le> m" "m \<le> n + 24" "live (a + 24 + k) bs p = None"
      "live (a + 24 + k) bs'' = (live (a + 24 + k) bs)(p \<mapsto> m)"
      "blocks_end (a + 24 + k) bs'' = blocks_end (a + 24 + k) bs" "a + 24 + k + 24 \<le> p"
      "free_total bs = free_total bs'' + m + (length bs'' - length bs) * 24" "length bs \<le> length bs''"
      "\<forall>x g. (x, g) \<in> set bs'' \<longrightarrow> (\<exists>y g. (y, g) \<in> set bs \<and> x \<le> y)"
      using "2.IH" [OF False b(1)] by blast
    then have "live a bs' = (live a ((k, f) # bs))(p \<mapsto> m)" using b(2) by (auto simp: fun_eq_iff)
    moreover have "\<exists>y g. (y, g) \<in> set ((k, f) # bs) \<and> x \<le> y" if "(x, g) \<in> set bs'" for x g
      using that b(2) m(9) by (auto intro: exI [of _ k])
    ultimately show ?thesis using m b(2) by (intro exI [of _ m]) auto
  qed
qed simp

lemma release_correct:
  assumes "live a bs p \<noteq> None"
  shows "\<exists>bs'. release p a bs = Some bs' \<and> live a bs' = (live a bs)(p := None) \<and>
    map fst bs' = map fst bs \<and> free_total bs' = free_total bs + the (live a bs p)"
  using assms
proof (induction a bs p rule: live.induct)
  case (2 a m f bs p)
  then show ?case using live_below [of "a + 24" "a + 24 + m" bs]
    by (auto simp: fun_eq_iff split: if_splits)
qed simp

lemma release_shape: "release p a bs = Some bs' \<Longrightarrow> map fst bs' = map fst bs"
  by (induction p a bs arbitrary: bs' rule: release.induct) (auto split: if_splits)

lemma blocks_end_shape: "map fst bs' = map fst bs \<Longrightarrow> blocks_end a bs' = blocks_end a bs"
proof -
  assume "map fst bs' = map fst bs"
  moreover have "map (\<lambda>(m, f). 24 + m) cs = map ((+) 24) (map fst cs)" for cs :: blocks by auto
  ultimately show ?thesis unfolding blocks_end_def by metis
qed

lemma release_free: "release p a bs = Some bs' \<Longrightarrow> live a bs p = Some m \<Longrightarrow> (m, True) \<in> set bs'"
  by (induction p a bs arbitrary: bs' rule: release.induct) (auto split: if_splits)

text \<open>
  Marking a header free: if it is the header of a block the list changes as \<open>release\<close> says,
  otherwise the list stays.
\<close>

lemma tiles_mark:
  assumes "tiles h a bs e" "e < 2 ^ 64" "h (addr x) = Some b" "x < 2 ^ 64"
  shows "tiles (h(addr x \<mapsto> b\<lparr>blk_free := True\<rparr>)) a
    (case release (x + 24) a bs of None \<Rightarrow> bs | Some bs' \<Rightarrow> bs') e"
  using assms
proof (induction h a bs e rule: tiles.induct)
  case (2 h a m f bs e)
  let ?h = "h(addr x \<mapsto> b\<lparr>blk_free := True\<rparr>)"
  show ?case
  proof (cases "x = a")
    case True
    have rest: "tiles ?h (a + 24 + m) bs e" using "2.prems" True by (intro tiles_upd_below) auto
    moreover have "?h (addr a) = Some \<lparr>blk_size = addr m, blk_free = True,
        blk_next = (if bs = [] then 0 else addr (a + 24 + m))\<rparr>"
      using "2.prems" True by auto
    ultimately show ?thesis using "2.prems"(1) True by (simp del: fun_upd_apply)
  next
    case False
    let ?r = "\<lambda>bs. case release (x + 24) (a + 24 + m) bs of None \<Rightarrow> bs | Some bs' \<Rightarrow> bs'"
    have "tiles ?h (a + 24 + m) (?r bs) e" using "2.prems" by (intro "2.IH") simp_all
    moreover have "?h (addr a) = h (addr a)" using 2 False by (auto simp: addr_eq_iff)
    moreover have "?r bs = [] \<longleftrightarrow> bs = []"
      by (cases bs) (auto split: option.split dest!: release_shape)
    moreover have "(case release (x + 24) a ((m, f) # bs) of None \<Rightarrow> (m, f) # bs | Some bs' \<Rightarrow> bs') =
        (m, f) # ?r bs"
      using False by (auto split: option.split)
    ultimately show ?thesis using "2.prems"(1) by (simp del: fun_upd_apply release.simps)
  qed
qed simp

lemma kfree_correct:
  assumes "heap_is s a bs e" "kfree s ptr = Some s'" "ptr \<noteq> 0"
  shows "heap_is s' a (case release (unat (ptr - 24) + 24) a bs of None \<Rightarrow> bs | Some bs' \<Rightarrow> bs') e"
proof -
  obtain b where b: "hdrs s (addr (unat (ptr - 24))) = Some b"
    "s' = put_hdr s (addr (unat (ptr - 24))) (b\<lparr>blk_free := True\<rparr>)"
    using assms(2,3) by (auto simp: kfree_def split: bind_split_asm)
  let ?bs = "case release (unat (ptr - 24) + 24) a bs of None \<Rightarrow> bs | Some bs' \<Rightarrow> bs'"
  have "tiles (hdrs s') a ?bs e"
    using tiles_mark [of "hdrs s" a bs e "unat (ptr - 24)" b] unat_less_64 assms(1) b by (auto simp: heap_is_def put_hdr_def)
  moreover have "?bs \<noteq> []"
    using assms(1) by (auto simp: heap_is_def split: option.split dest!: release_shape)
  ultimately show ?thesis using assms(1) b(2) by (auto simp: heap_is_def put_hdr_def)
qed

lemma live_header:
  assumes "tiles h a bs e" "live a bs p = Some m"
  shows "\<exists>b. h (addr (p - 24)) = Some b"
  using assms by (induction h a bs e rule: tiles.induct) (auto split: if_splits)

lemma kfree_live:
  assumes "heap_is s a bs e" "live a bs p = Some m"
  shows "\<exists>s' bs'. kfree s (addr p) = Some s' \<and> heap_is s' a bs' e \<and> release p a bs = Some bs'"
proof -
  have t: "tiles (hdrs s) a bs e" "e < 2 ^ 64" using assms(1) by (auto simp: heap_is_def)
  have p: "a + 24 \<le> p" "p < 2 ^ 64"
    using live_bounds [OF assms(2)] tiles_end [OF t(1)] t(2) by auto
  have nz: "addr p \<noteq> 0" using p by (simp add: addr_zero_iff)
  have d: "addr p - 24 = addr (p - 24)" "unat (addr (p - 24)) + 24 = p" using p by (simp_all add: addr_diff)
  obtain s' where s': "kfree s (addr p) = Some s'"
    using live_header [OF t(1) assms(2)] nz d(1) by (auto simp: kfree_def)
  obtain bs' where r: "release p a bs = Some bs'" using release_correct [of a bs p] assms(2) by auto
  have "heap_is s' a bs' e" using kfree_correct [OF assms(1) s' nz] r d by simp
  then show ?thesis using s' r by blast
qed

lemma free_bytes_loop_total:
  assumes "tiles (hdrs s) a bs e" "e < 2 ^ 64" "0 < a"
  shows "free_bytes_loop s (if bs = [] then 0 else addr a) (addr k) = Some (addr (k + free_total bs))"
  using assms
proof (induction bs arbitrary: a k)
  case Nil
  then show ?case by (simp add: free_bytes_loop.simps)
next
  case (Cons b bs)
  obtain m f where b: "b = (m, f)" by (cases b)
  have "addr a \<noteq> 0" using Cons.prems b by (simp add: addr_zero_iff)
  then have "free_bytes_loop s (addr a) (addr k) = free_bytes_loop s (if bs = [] then 0 else addr (a + 24 + m))
      (addr (k + (if f then m else 0)))"
    using Cons.prems b by (subst free_bytes_loop.simps) (simp add: addr_add)
  then show ?case using Cons b by (simp add: add.assoc)
qed

lemma free_bytes_total:
  "heap_is s a bs e \<Longrightarrow> kmem_get_free_bytes s = Some (addr (free_total bs))"
  using free_bytes_loop_total [of s a bs e 0]
  by (simp add: heap_is_def kmem_get_free_bytes_def) (simp add: addr_def)

section \<open>The contract of a heap allocator\<close>

text \<open>
  A heap between the addresses \<open>lo\<close> and \<open>hi\<close> represents a map from payload addresses in use to
  their sizes. Payloads in use lie inside the heap and do not overlap; an allocation returns null
  or a new payload that is at least as large as asked for; a payload in use can be freed.
  \<open>heap_run\<close> is the history of clients that free only what they were given and have not freed.
\<close>

locale heap_allocator =
  fixes lo hi :: nat
    and rep :: "'s \<Rightarrow> (nat \<Rightarrow> nat option) \<Rightarrow> bool"
    and alloc :: "'s \<Rightarrow> u64 \<Rightarrow> (u64 \<times> 's) option"
    and dealloc :: "'s \<Rightarrow> u64 \<Rightarrow> 's option"
  assumes live_inside: "rep s L \<Longrightarrow> L p = Some m \<Longrightarrow> lo \<le> p \<and> p + m \<le> hi"
    and live_disjoint: "rep s L \<Longrightarrow> L p = Some m \<Longrightarrow> L q = Some k \<Longrightarrow> p < q \<Longrightarrow> p + m \<le> q"
    and alloc_result: "rep s L \<Longrightarrow> \<exists>r s'. alloc s n = Some (r, s') \<and>
      (r = 0 \<and> s' = s \<or>
       r \<noteq> 0 \<and> L (unat r) = None \<and> (\<exists>m. unat n \<le> m \<and> rep s' (L(unat r \<mapsto> m))))"
    and dealloc_live: "rep s L \<Longrightarrow> L (unat w) \<noteq> None \<Longrightarrow>
      \<exists>s'. dealloc s w = Some s' \<and> rep s' (L(unat w := None))"
begin

inductive heap_run :: "'s \<Rightarrow> (u64 \<Rightarrow> u64 option) \<Rightarrow> bool" where
  start: "rep s Map.empty \<Longrightarrow> heap_run s Map.empty"
| alloc_ok: "heap_run s own \<Longrightarrow> alloc s n = Some (r, s') \<Longrightarrow> r \<noteq> 0 \<Longrightarrow> heap_run s' (own(r \<mapsto> n))"
| alloc_null: "heap_run s own \<Longrightarrow> alloc s n = Some (0, s') \<Longrightarrow> heap_run s' own"
| dealloc: "heap_run s own \<Longrightarrow> own p \<noteq> None \<Longrightarrow> dealloc s p = Some s' \<Longrightarrow> heap_run s' (own(p := None))"

definition covers :: "(nat \<Rightarrow> nat option) \<Rightarrow> (u64 \<Rightarrow> u64 option) \<Rightarrow> bool" where
  "covers L own \<longleftrightarrow> (\<forall>p n. own p = Some n \<longrightarrow> (\<exists>m. L (unat p) = Some m \<and> unat n \<le> m))"

lemma heap_run_covered: "heap_run s own \<Longrightarrow> \<exists>L. rep s L \<and> covers L own"
proof (induction rule: heap_run.induct)
  case (start s)
  then show ?case by (auto simp: covers_def)
next
  case (alloc_ok s own n r s')
  then obtain L m where "rep s' (L(unat r \<mapsto> m))" "covers L own" "unat n \<le> m"
    using alloc_result [of s _ n] by fastforce
  then show ?case
    by (auto simp: covers_def unat_eq_iff intro!: exI [of _ "L(unat r \<mapsto> m)"])
next
  case (alloc_null s own n s')
  then show ?case using alloc_result [of s _ n] by fastforce
next
  case (dealloc s own p s')
  then obtain L where L: "rep s L" "covers L own" by blast
  then have "L (unat p) \<noteq> None" using dealloc.hyps(2) unfolding covers_def by blast
  then have "rep s' (L(unat p := None))" using dealloc_live [OF L(1), of p] dealloc.hyps(3) by auto
  moreover have "covers (L(unat p := None)) (own(p := None))"
    using L(2) by (auto simp: covers_def unat_eq_iff)
  ultimately show ?case by blast
qed

lemma owned_inside:
  assumes "heap_run s own" "own p = Some n"
  shows "lo \<le> unat p \<and> unat p + unat n \<le> hi"
  using heap_run_covered [OF assms(1)] assms(2) live_inside by (fastforce simp: covers_def)

lemma owned_disjoint:
  assumes "heap_run s own" "own p = Some n" "own q = Some k" "p \<noteq> q"
  shows "unat p + unat n \<le> unat q \<or> unat q + unat k \<le> unat p"
proof -
  obtain L where L: "rep s L" "covers L own" using heap_run_covered [OF assms(1)] by blast
  then obtain m j where m: "L (unat p) = Some m" "unat n \<le> m" "L (unat q) = Some j" "unat k \<le> j"
    using assms(2,3) unfolding covers_def by blast
  have "unat p \<noteq> unat q" using assms(4) by (simp add: unat_eq_iff)
  then show ?thesis
    using live_disjoint [OF L(1) m(1,3)] live_disjoint [OF L(1) m(3,1)] m(2,4) by linarith
qed

lemma owned_freeable:
  assumes "heap_run s own" "own p = Some n"
  shows "\<exists>s'. dealloc s p = Some s'"
  using heap_run_covered [OF assms(1)] assms(2) dealloc_live by (fastforce simp: covers_def)

lemma alloc_fresh:
  assumes "heap_run s own" "alloc s n = Some (r, s')" "r \<noteq> 0"
  shows "own r = None"
proof -
  obtain L where L: "rep s L" "covers L own" using heap_run_covered [OF assms(1)] by blast
  then have "L (unat r) = None" using alloc_result [OF L(1), of n] assms(2,3) by auto
  then show ?thesis using L(2) unfolding covers_def by (metis not_None_eq option.distinct(1))
qed

lemma alloc_defined: "heap_run s own \<Longrightarrow> \<exists>r s'. alloc s n = Some (r, s')"
  using heap_run_covered alloc_result by blast

end

definition kmem_rep :: "nat \<Rightarrow> nat \<Rightarrow> kmem \<Rightarrow> (nat \<Rightarrow> nat option) \<Rightarrow> bool" where
  "kmem_rep lo hi s L \<longleftrightarrow> (\<exists>bs. heap_is s lo bs hi \<and> L = live lo bs)"

lemma kmalloc_fits:
  assumes "heap_is s a bs e" "n \<noteq> 0"
  shows "case fit (unat n) a bs of None \<Rightarrow> kmalloc s n = Some (0, s)
    | Some (p, bs') \<Rightarrow> \<exists>s'. kmalloc s n = Some (addr p, s') \<and> heap_is s' a bs' e"
proof -
  have h: "tiles (hdrs s) a bs e" "e < 2 ^ 64" "0 < a" "bs \<noteq> []" "g_head s = addr a"
    using assms(1) by (auto simp: heap_is_def)
  have "fits_at s (unat n) a bs e (kmalloc s n)"
    using kmalloc_loop_fits [OF h(1-3) unat_less_64, of n] h(4,5) assms(2) by (simp add: kmalloc_def)
  then show ?thesis
    using h fit_correct [of "unat n" a bs] by (fastforce simp: fits_at_def heap_is_def split: option.splits)
qed

lemma kmem_alloc_nonzero:
  assumes "heap_is s a bs e" "fit n a bs = Some (p, bs')"
  shows "0 < p" "p < 2 ^ 64" "addr p \<noteq> 0"
proof -
  obtain m where m: "live a bs' = (live a bs)(p \<mapsto> m)" "a + 24 \<le> p" "blocks_end a bs' = blocks_end a bs"
    using fit_correct [OF assms(2)] by blast
  have "e = blocks_end a bs" "e < 2 ^ 64" using assms(1) tiles_end by (auto simp: heap_is_def)
  then show "0 < p" "p < 2 ^ 64" using live_bounds [of a bs' p m] m by auto
  then show "addr p \<noteq> 0" by (simp add: addr_zero_iff)
qed

lemma kmem_alloc_result:
  assumes "heap_is s a bs e"
  shows "\<exists>r s'. kmalloc s n = Some (r, s') \<and> (r = 0 \<and> s' = s \<or> r \<noteq> 0 \<and> live a bs (unat r) = None \<and>
    (\<exists>m bs'. unat n \<le> m \<and> heap_is s' a bs' e \<and> live a bs' = (live a bs)(unat r \<mapsto> m)))"
proof (cases "n = 0 \<or> fit (unat n) a bs = None")
  case True
  then show ?thesis using kmalloc_fits [OF assms, of n] by (auto simp: kmalloc_def)
next
  case False
  then obtain p bs' where fit: "fit (unat n) a bs = Some (p, bs')" by auto
  then obtain s' where s': "kmalloc s n = Some (addr p, s')" "heap_is s' a bs' e"
    using kmalloc_fits [OF assms, of n] False by auto
  obtain m where m: "unat n \<le> m" "live a bs p = None" "live a bs' = (live a bs)(p \<mapsto> m)" "a + 24 \<le> p"
    using fit_correct [OF fit] by blast
  show ?thesis using s' m kmem_alloc_nonzero [OF assms fit] by auto
qed

interpretation kheap: heap_allocator lo hi "kmem_rep lo hi" kmalloc kfree for lo hi :: nat
proof (unfold_locales, goal_cases)
  case (1 s L p m)
  then show ?case using live_bounds tiles_end by (fastforce simp: kmem_rep_def heap_is_def)
next
  case (2 s L p m q k)
  then show ?case using live_apart by (fastforce simp: kmem_rep_def)
next
  case (3 s L n)
  then show ?case using kmem_alloc_result [of s lo _ hi n] by (fastforce simp: kmem_rep_def)
next
  case (4 s L p)
  then obtain bs m where bs: "heap_is s lo bs hi" "L = live lo bs" "live lo bs (unat p) = Some m"
    by (auto simp: kmem_rep_def)
  obtain s' bs' where "kfree s p = Some s'" "heap_is s' lo bs' hi" "release (unat p) lo bs = Some bs'"
    using kfree_live [OF bs(1,3)] by auto
  moreover have "live lo bs' = (live lo bs)(unat p := None)"
    using release_correct [of lo bs "unat p"] bs(3) calculation(3) by auto
  ultimately show ?case using bs(2) by (auto simp: kmem_rep_def)
qed

section \<open>Properties\<close>

text \<open>The heap that \<open>kmem_init\<close> sets up: one free block.\<close>

lemma kmem_init_heap:
  assumes "buffer \<noteq> 0" "24 \<le> sz" "unat buffer + unat sz < 2 ^ 64"
  shows "heap_is (kmem_init s buffer sz) (unat buffer) [(unat sz - 24, True)] (unat buffer + unat sz)"
proof -
  have "24 \<le> unat sz" using assms(2) by (simp add: word_le_nat_alt)
  moreover have "sz - 24 = addr (unat sz - 24)" using addr_diff(2) [OF calculation] by simp
  moreover have "0 < unat buffer" using assms(1) by (simp add: unat_gt_0)
  ultimately show ?thesis
    using assms(3) by (simp add: heap_is_def kmem_init_def put_hdr_def)
qed

text \<open>
  Allocation is first fit: on a well-formed heap \<open>kmalloc\<close> of a size above zero always
  returns. It gives null, with the heap unchanged, exactly if no free block is large enough.
  Otherwise it returns the payload of the lowest free block that is large enough, splits off the
  rest if that has room for a header and at least one byte, and the heap stays well formed.
\<close>

lemma kmalloc_first_fit:
  assumes "heap_is s a bs e" "n \<noteq> 0"
  shows "if \<forall>m. (m, True) \<in> set bs \<longrightarrow> m < unat n then kmalloc s n = Some (0, s)
    else \<exists>s' p bs'. kmalloc s n = Some (addr p, s') \<and> fit (unat n) a bs = Some (p, bs') \<and>
      heap_is s' a bs' e"
  using kmalloc_fits [OF assms] fit_None_iff [of "unat n" a bs]
  by (cases "fit (unat n) a bs") auto

definition small_heap :: kmem where
  "small_heap = kmem_init \<lparr>g_head = 0, hdrs = Map.empty\<rparr> 0x1000 0x100"

lemma small_heap_is: "heap_is small_heap 0x1000 [(232, True)] 0x1100"
  using kmem_init_heap [of "0x1000" "0x100"] by (simp add: small_heap_def)

lemma kmalloc_first_fit_example:
  "\<exists>s'. kmalloc small_heap 10 = Some (0x1018, s') \<and> heap_is s' 0x1000 [(10, False), (198, True)] 0x1100"
  using kmalloc_first_fit [OF small_heap_is, of 10] by (auto simp: addr_def)

text \<open>
  C19. Exclusive ownership of heap memory: along any sequence of \<open>kmalloc\<close> calls with any sizes
  and \<open>kfree\<close> calls on pointers that are held, every byte range that is held lies inside the
  heap, no two overlap, the next \<open>kmalloc\<close> returns, and each held pointer can be freed.
\<close>

theorem kmem_ranges_exclusive:
  assumes "kheap.heap_run lo hi s own"
  shows "(\<forall>p n. own p = Some n \<longrightarrow> lo \<le> unat p \<and> unat p + unat n \<le> hi \<and> (\<exists>s'. kfree s p = Some s')) \<and>
    (\<forall>p q n k. own p = Some n \<and> own q = Some k \<and> p \<noteq> q \<longrightarrow>
       unat p + unat n \<le> unat q \<or> unat q + unat k \<le> unat p) \<and>
    (\<forall>n. \<exists>r s'. kmalloc s n = Some (r, s'))"
  using kheap.owned_inside [OF assms] kheap.owned_disjoint [OF assms]
    kheap.owned_freeable [OF assms] kheap.alloc_defined [OF assms] by blast

theorem kmem_ranges_exclusive_witness:
  "\<exists>p s. kmalloc small_heap 10 = Some (p, s) \<and> unat p + 10 \<le> 0x1100 \<and> (\<exists>s'. kfree s p = Some s')"
proof -
  have live: "live 0x1000 [(232, True)] = Map.empty" by (auto simp: fun_eq_iff)
  obtain s where s: "kmalloc small_heap 10 = Some (0x1018, s)"
    using kmalloc_fits [OF small_heap_is, of 10] by (auto simp: addr_def)
  have "kheap.heap_run 0x1000 0x1100 small_heap Map.empty"
    using small_heap_is live by (intro kheap.start) (auto simp: kmem_rep_def intro!: exI [of _ "[(232, True)]"])
  then have "kheap.heap_run 0x1000 0x1100 s [0x1018 \<mapsto> 10]"
    using s by (rule kheap.alloc_ok) simp
  from kmem_ranges_exclusive [OF this] s show ?thesis by fastforce
qed

text \<open>
  Freeing and allocating again: \<open>kfree\<close> of a payload in use marks exactly that block free,
  keeps the heap well formed and raises \<open>kmem_get_free_bytes\<close> by the size of the block; asking
  for at most that size afterwards succeeds.
\<close>

lemma kfree_reusable:
  assumes "heap_is s a bs e" "live a bs p = Some m" "n \<noteq> 0" "unat n \<le> m"
  shows "\<exists>s' bs'. kfree s (addr p) = Some s' \<and> heap_is s' a bs' e \<and>
    map fst bs' = map fst bs \<and> live a bs' = (live a bs)(p := None) \<and>
    kmem_get_free_bytes s = Some (addr (free_total bs)) \<and>
    kmem_get_free_bytes s' = Some (addr (free_total bs + m)) \<and>
    (\<exists>r s''. kmalloc s' n = Some (r, s'') \<and> r \<noteq> 0)"
proof -
  obtain s' bs' where s': "kfree s (addr p) = Some s'" "heap_is s' a bs' e" "release p a bs = Some bs'"
    using kfree_live [OF assms(1,2)] by blast
  have r: "live a bs' = (live a bs)(p := None)" "map fst bs' = map fst bs"
    "free_total bs' = free_total bs + m"
    using release_correct [of a bs p] assms(2) s'(3) by auto
  have "(m, True) \<in> set bs'" by (rule release_free [OF s'(3) assms(2)])
  then obtain q cs where "fit (unat n) a bs' = Some (q, cs)"
    using fit_None_iff [of "unat n" a bs'] assms(4) by fastforce
  moreover from this obtain t where "kmalloc s' n = Some (addr q, t)" "heap_is t a cs e"
    using kmalloc_fits [OF s'(2) assms(3)] by auto
  moreover from calculation have "addr q \<noteq> 0"
    using kmem_alloc_nonzero(3) [OF s'(2)] by blast
  ultimately show ?thesis using s' r free_bytes_total [OF assms(1)] free_bytes_total [OF s'(2)] by auto
qed

lemma small_heap_alloc:
  "\<exists>s. kmalloc small_heap 10 = Some (0x1018, s) \<and> heap_is s 0x1000 [(10, False), (198, True)] 0x1100"
  using kmalloc_fits [OF small_heap_is, of 10] by (auto simp: addr_def)

lemma kfree_reusable_example:
  "\<exists>s s'. kmalloc small_heap 10 = Some (0x1018, s) \<and> kfree s 0x1018 = Some s' \<and>
     kmem_get_free_bytes s = Some 198 \<and> kmem_get_free_bytes s' = Some 208 \<and>
     (\<exists>r s''. kmalloc s' 10 = Some (r, s'') \<and> r \<noteq> 0)"
proof -
  obtain s where s: "kmalloc small_heap 10 = Some (0x1018, s)"
    "heap_is s 0x1000 [(10, False), (198, True)] 0x1100"
    using small_heap_alloc by blast
  from kfree_reusable [OF s(2), of "0x1018" 10 10] s(1) show ?thesis by (auto simp: addr_def)
qed

text \<open>Calls with any arguments, as far as they have a defined result.\<close>

inductive kmem_step :: "kmem \<Rightarrow> kmem \<Rightarrow> bool" where
  step_kmalloc: "kmalloc s n = Some (r, s') \<Longrightarrow> kmem_step s s'"
| step_kfree: "kfree s ptr = Some s' \<Longrightarrow> kmem_step s s'"

inductive_cases kmem_stepE: "kmem_step s s'"

definition blocks_le :: "nat \<Rightarrow> blocks \<Rightarrow> bool" where
  "blocks_le M bs \<longleftrightarrow> (\<forall>m\<in>set (map fst bs). m \<le> M)"

lemma kmalloc_blocks_le:
  assumes "heap_is s a bs e" "blocks_le M bs" "kmalloc s n = Some (r, s')"
  shows "\<exists>bs'. heap_is s' a bs' e \<and> blocks_le M bs'"
proof (cases "n = 0 \<or> fit (unat n) a bs = None")
  case True
  then have "s' = s"
    using assms(3) kmalloc_fits [OF assms(1), of n] by (cases "n = 0") (auto simp: kmalloc_def)
  then show ?thesis using assms by blast
next
  case False
  then obtain p bs' where fit: "fit (unat n) a bs = Some (p, bs')" by auto
  then have "heap_is s' a bs' e" using kmalloc_fits [OF assms(1), of n] False assms(3) by auto
  moreover have "\<forall>x g. (x, g) \<in> set bs' \<longrightarrow> (\<exists>y g. (y, g) \<in> set bs \<and> x \<le> y)"
    using fit_correct [OF fit] by blast
  then have "blocks_le M bs'" using assms(2) unfolding blocks_le_def by (fastforce intro: le_trans)
  ultimately show ?thesis by blast
qed

lemma kfree_blocks_le:
  assumes "heap_is s a bs e" "blocks_le M bs" "kfree s ptr = Some s'"
  shows "\<exists>bs'. heap_is s' a bs' e \<and> blocks_le M bs'"
proof (cases "ptr = 0")
  case True
  then show ?thesis using assms by (auto simp: kfree_def)
next
  case False
  let ?bs = "case release (unat (ptr - 24) + 24) a bs of None \<Rightarrow> bs | Some bs' \<Rightarrow> bs'"
  have "map fst ?bs = map fst bs" by (auto split: option.split dest: release_shape)
  then have "blocks_le M ?bs" using assms(2) unfolding blocks_le_def by metis
  then show ?thesis using kfree_correct [OF assms(1,3) False] by blast
qed

lemma kmem_steps_blocks_le:
  "kmem_step\<^sup>*\<^sup>* s s' \<Longrightarrow> heap_is s a bs e \<Longrightarrow> blocks_le M bs \<Longrightarrow>
     \<exists>bs'. heap_is s' a bs' e \<and> blocks_le M bs'"
proof (induction rule: rtranclp_induct)
  case (step t u)
  then show ?case by (blast elim: kmem_stepE dest: kmalloc_blocks_le kfree_blocks_le)
qed blast

text \<open>
  C21. Blocks are never merged: once no block of the heap, free or in use, is larger than \<open>M\<close>
  bytes, every later request for more than \<open>M\<close> bytes fails, whatever is freed in between.
\<close>

theorem kmem_never_merges:
  assumes "heap_is s a bs e" "blocks_le M bs" "kmem_step\<^sup>*\<^sup>* s s'" "M < unat n"
  shows "kmalloc s' n = Some (0, s')"
proof -
  obtain bs' where bs': "heap_is s' a bs' e" "blocks_le M bs'"
    using kmem_steps_blocks_le [OF assms(3,1,2)] by blast
  have "m < unat n" if "(m, True) \<in> set bs'" for m
    using bs'(2) that assms(4) unfolding blocks_le_def by force
  then have "fit (unat n) a bs' = None" by (simp add: fit_None_iff)
  moreover have "n \<noteq> 0" using assms(4) by auto
  ultimately show ?thesis using kmalloc_fits [OF bs'(1)] by fastforce
qed

theorem kmem_never_merges_witness:
  "\<exists>s s'. kmalloc small_heap 10 = Some (0x1018, s) \<and> kfree s 0x1018 = Some s' \<and>
     kmalloc s' 200 = Some (0, s')"
proof -
  obtain s where s: "kmalloc small_heap 10 = Some (0x1018, s)"
    "heap_is s 0x1000 [(10, False), (198, True)] 0x1100"
    using small_heap_alloc by blast
  obtain s' where s': "kfree s 0x1018 = Some s'"
    using kfree_live [OF s(2), of "0x1018" 10] by (auto simp: addr_def)
  then have "kmem_step\<^sup>*\<^sup>* s s'" by (blast intro: step_kfree)
  from kmem_never_merges [OF s(2) _ this, of 198 200] s(1) s' show ?thesis
    by (auto simp: blocks_le_def)
qed

lemma kmem_placement_first:
  assumes "buffer \<noteq> 0" "unat buffer + unat sz < 2 ^ 64" "n \<noteq> 0" "unat n + 48 < unat sz"
  shows "\<exists>s1. kmalloc (kmem_init s buffer sz) n = Some (buffer + 24, s1) \<and>
    heap_is s1 (unat buffer) [(unat n, False), (unat sz - 24 - unat n - 24, True)] (unat buffer + unat sz)"
proof -
  have "24 \<le> sz" using assms(4) by (simp add: word_le_nat_alt)
  note h0 = kmem_init_heap [OF assms(1) this assms(2), of s]
  have "fit (unat n) (unat buffer) [(unat sz - 24, True)] =
      Some (unat buffer + 24, [(unat n, False), (unat sz - 24 - unat n - 24, True)])"
    using assms(4) by auto
  moreover have "addr (unat buffer + 24) = buffer + 24" by (simp add: addr_def)
  ultimately show ?thesis using kmalloc_fits [OF h0 assms(3)] by auto
qed

text \<open>
  Placement in a fresh heap: the first allocation is placed right behind the first header,
  and a second one 24 bytes after the end of the first, so the alignment of the second is
  that of the first plus the size that was asked for.
\<close>

lemma kmem_placement:
  assumes "buffer \<noteq> 0" "unat buffer + unat sz < 2 ^ 64" "n \<noteq> 0" "k \<noteq> 0"
    "unat n + unat k + 48 < unat sz"
  shows "\<exists>s1 s2. kmalloc (kmem_init s buffer sz) n = Some (buffer + 24, s1) \<and>
    kmalloc s1 k = Some (buffer + 48 + n, s2)"
proof -
  let ?a = "unat buffer"
  obtain s1 where s1: "kmalloc (kmem_init s buffer sz) n = Some (buffer + 24, s1)"
    "heap_is s1 ?a [(unat n, False), (unat sz - 24 - unat n - 24, True)] (?a + unat sz)"
    using kmem_placement_first [OF assms(1-3)] assms(5) by auto
  have "\<exists>bs. fit (unat k) ?a [(unat n, False), (unat sz - 24 - unat n - 24, True)] =
      Some (?a + 24 + unat n + 24, bs)"
    using assms(5) by simp
  then obtain s2 where "kmalloc s1 k = Some (addr (?a + 24 + unat n + 24), s2)"
    using kmalloc_fits [OF s1(2) assms(4)] by auto
  moreover have "addr (?a + 24 + unat n + 24) = buffer + 48 + n" by (simp add: addr_def)
  ultimately show ?thesis using s1(1) by simp
qed

lemma kmem_placement_example:
  "\<exists>s1 s2. kmalloc small_heap 10 = Some (0x1018, s1) \<and> kmalloc s1 16 = Some (0x103A, s2)"
  using kmem_placement [of "0x1000" "0x100" 10 16 "\<lparr>g_head = 0, hdrs = Map.empty\<rparr>"]
  by (simp add: small_heap_def)

end
