(* ===== verification/Kmem_Spec.thy ===== *)
theory Kmem_Spec
  imports Kmem Refinement
begin

text \<open>
  What the kernel heap promises to its callers, without headers, links and addresses of headers: a list of block sizes with
  their free marks. \<open>kmalloc\<close> is \<open>fit\<close>, \<open>kfree\<close> is \<open>release\<close> and \<open>kmem_get_free_bytes\<close> is \<open>free_total\<close>
  on this list.
\<close>

section \<open>Abstract heap\<close>

datatype heap_call =
    Malloc u64
  | Mfree u64
  | Free_bytes

datatype heap_result = Ptr u64 | Freed | Bytes u64

fun heap_spec :: "nat \<Rightarrow> heap_call \<Rightarrow> blocks \<Rightarrow> heap_result \<times> blocks" where
  "heap_spec lo (Malloc n) bs =
     (if n = 0 then (Ptr 0, bs)
      else case fit (unat n) lo bs of None \<Rightarrow> (Ptr 0, bs) | Some (p, bs') \<Rightarrow> (Ptr (addr p), bs'))"
| "heap_spec lo (Mfree p) bs =
     (if p = 0 then (Freed, bs)
      else case release (unat p) lo bs of None \<Rightarrow> (Freed, bs) | Some bs' \<Rightarrow> (Freed, bs'))"
| "heap_spec lo Free_bytes bs = (Bytes (addr (free_total bs)), bs)"

fun heap_exec :: "heap_call \<Rightarrow> kmem \<Rightarrow> (heap_result \<times> kmem) option" where
  "heap_exec (Malloc n) s = do { (p, s') \<leftarrow> kmalloc s n; Some (Ptr p, s') }"
| "heap_exec (Mfree p) s = do { s' \<leftarrow> kfree s p; Some (Freed, s') }"
| "heap_exec Free_bytes s = do { n \<leftarrow> kmem_get_free_bytes s; Some (Bytes n, s) }"

text \<open>
  What a caller owes: it frees null or the payload of a block of the heap. The block may be free already, so a
  second free of a pointer is covered.
\<close>

fun heap_pre :: "nat \<Rightarrow> blocks \<Rightarrow> heap_call \<Rightarrow> bool" where
  "heap_pre lo bs (Mfree p) \<longleftrightarrow> p = 0 \<or> release (unat p) lo bs \<noteq> None"
| "heap_pre lo bs _ \<longleftrightarrow> True"

section \<open>Simulation\<close>

lemma release_header:
  assumes "tiles h a bs e" "release p a bs = Some bs'"
  shows "a + 24 \<le> p \<and> p \<le> e \<and> (\<exists>b. h (addr (p - 24)) = Some b)"
  using assms
proof (induction h a bs e arbitrary: bs' rule: tiles.induct)
  case (2 h a n f bs e)
  then show ?case using tiles_le [of h "a + 24 + n" bs e] by (fastforce split: if_splits)
qed simp

lemma kfree_block:
  assumes "heap_is s a bs e" "release (unat p) a bs = Some bs'"
  shows "p \<noteq> 0 \<and> (\<exists>s'. kfree s p = Some s' \<and> heap_is s' a bs' e)"
proof -
  have t: "tiles (hdrs s) a bs e" "0 < a" using assms(1) by (auto simp: heap_is_def)
  obtain b where p: "a + 24 \<le> unat p" and b: "hdrs s (addr (unat p - 24)) = Some b"
    using release_header [OF t(1) assms(2)] by blast
  have d: "p - 24 = addr (unat p - 24)" using addr_diff(2) [of "unat p"] p by simp
  have u: "unat (p - 24) + 24 = unat p" using p unat_less_64 [of p] by (simp add: d)
  have nz: "p \<noteq> 0" using p by auto
  obtain s' where "kfree s p = Some s'" using b nz d by (auto simp: kfree_def)
  then show ?thesis using kfree_correct [OF assms(1) _ nz] assms(2) u nz by auto
qed

interpretation blocks: simulation heap_exec "heap_spec lo" "\<lambda>s bs. heap_is s lo bs hi" "heap_pre lo"
  for lo hi :: nat
proof (unfold_locales, goal_cases)
  case (1 s bs c)
  show ?case
  proof (cases c)
    case (Malloc n)
    then show ?thesis using 1 kmalloc_fits [OF 1(1), of n]
      by (cases "n = 0") (auto simp: kmalloc_def split: option.splits)
  next
    case (Mfree p)
    show ?thesis
    proof (cases "p = 0")
      case True
      then show ?thesis using Mfree 1 by (simp add: kfree_def)
    next
      case False
      then obtain bs' where "release (unat p) lo bs = Some bs'" using Mfree 1(2) by auto
      then show ?thesis using Mfree kfree_block [OF 1(1)] by fastforce
    qed
  next
    case Free_bytes
    then show ?thesis using free_bytes_total [OF 1(1)] 1(1) by simp
  qed
qed

text \<open>
  C20. Refinement of the heap: after \<open>kmem_init\<close> on a buffer that does not wrap around and has room for a header, every
  sequence of \<open>kmalloc\<close> with any size, \<open>kfree\<close> of null or of the payload of any block, freed before or not, and
  \<open>kmem_get_free_bytes\<close> returns, with exactly the results of the list of blocks: first fit with a split when the rest has room for a
  header and a byte, null when nothing fits, and the sum of the free sizes. The links of the final heap hold the
  final list and it fills the buffer to the last byte.
\<close>

theorem kmem_refines_blocks:
  assumes "buffer \<noteq> 0" "24 \<le> sz" "unat buffer + unat sz < 2 ^ 64"
    and "run_legal (heap_pre (unat buffer)) (heap_spec (unat buffer)) cs [(unat sz - 24, True)]"
  shows "\<exists>s'. run_calls heap_exec cs (kmem_init s buffer sz) =
      Some (fst (run_spec (heap_spec (unat buffer)) cs [(unat sz - 24, True)]), s') \<and>
    heap_is s' (unat buffer) (snd (run_spec (heap_spec (unat buffer)) cs [(unat sz - 24, True)]))
      (unat buffer + unat sz)"
  by (rule blocks.runs_simulated [OF kmem_init_heap [OF assms(1-3)] assms(4)])

theorem kmem_refines_blocks_witness:
  "\<exists>s'. run_calls heap_exec [Malloc 0, Malloc 10, Malloc 32, Mfree 0x1018, Mfree 0x1018, Free_bytes, Malloc 11, Malloc 10,
      Malloc 500, Mfree 0] (kmem_init \<lparr>g_head = 0, hdrs = Map.empty\<rparr> 0x1000 0x100) =
    Some ([Ptr 0, Ptr 0x1018, Ptr 0x103A, Freed, Freed, Bytes 152, Ptr 0x1072, Ptr 0x1018, Ptr 0, Freed], s') \<and>
    heap_is s' 0x1000 [(10, False), (32, False), (11, False), (107, True)] 0x1100"
proof -
  let ?cs = "[Malloc 0, Malloc 10, Malloc 32, Mfree 0x1018, Mfree 0x1018, Free_bytes, Malloc 11, Malloc 10,
      Malloc 500, Mfree 0]"
  have "run_spec (heap_spec 0x1000) ?cs [(232, True)] =
    ([Ptr 0, Ptr 0x1018, Ptr 0x103A, Freed, Freed, Bytes 152, Ptr 0x1072, Ptr 0x1018, Ptr 0, Freed],
     [(10, False), (32, False), (11, False), (107, True)])"
    by (simp add: addr_def Let_def)
  moreover have "run_legal (heap_pre 0x1000) (heap_spec 0x1000) ?cs [(232, True)]" by simp
  ultimately show ?thesis
    using kmem_refines_blocks [of "0x1000" "0x100" ?cs "\<lparr>g_head = 0, hdrs = Map.empty\<rparr>"]
    by (simp del: run_calls.simps run_spec.simps run_legal.simps)
qed

end
