(* ===== verification/Elf_Loader.thy ===== *)
theory Elf_Loader
  imports C_Prelude
begin

text \<open>
  The ELF program loader of \<open>src/kernel/user/m11_elf_loader.c\<close>: \<open>m11_elf64_plan_load\<close> checks the
  header and the program headers of an image and fills a load plan.

  The image is the list of bytes of the object that the pointer points to (\<open>None\<close> is the null
  pointer), \<open>image_size\<close> what the caller says its size is. The packed structures are read at
  their byte offsets, little endian. A read that is not inside the object has no defined result.
\<close>

section \<open>Model\<close>

abbreviation M11_ELF_MAGIC :: u32 where "M11_ELF_MAGIC \<equiv> 0x464c457f"
abbreviation M11_ELF_MACHINE_X86_64 :: u16 where "M11_ELF_MACHINE_X86_64 \<equiv> 62"
abbreviation M11_PT_LOAD :: u32 where "M11_PT_LOAD \<equiv> 1"

datatype m11_status = M11_OK | M11_ERR_MAGIC | M11_ERR_MACHINE | M11_ERR_ENTRY
  | M11_ERR_SEGBOUNDS | M11_ERR_ALIGN | M11_ERR_SEGRANGE

record m11_elf64_ehdr =
  e_ident_magic :: u32
  e_machine :: u16
  e_entry :: u64
  e_phoff :: u64
  e_phnum :: u16

record m11_elf64_phdr =
  p_type :: u32
  p_offset :: u64
  p_vaddr :: u64
  p_filesz :: u64
  p_memsz :: u64
  p_align :: u64

record m11_process_image_plan =
  entry_virtual_address :: u64
  segment_count :: u32

definition rd_le :: "u8 list \<Rightarrow> nat \<Rightarrow> nat \<Rightarrow> 'a :: len word option" where
  "rd_le bs off n = (if off + n \<le> length bs then Some (le_word (take n (drop off bs))) else None)"

definition rd_ehdr :: "u8 list \<Rightarrow> m11_elf64_ehdr option" where
  "rd_ehdr bs = do {
     magic \<leftarrow> rd_le bs 0 4; machine \<leftarrow> rd_le bs 4 2; entry \<leftarrow> rd_le bs 6 8;
     phoff \<leftarrow> rd_le bs 14 8; phnum \<leftarrow> rd_le bs 22 2;
     Some \<lparr>e_ident_magic = magic, e_machine = machine, e_entry = entry, e_phoff = phoff, e_phnum = phnum\<rparr>
   }"

definition rd_phdr :: "u8 list \<Rightarrow> nat \<Rightarrow> m11_elf64_phdr option" where
  "rd_phdr bs off = do {
     t \<leftarrow> rd_le bs off 4; ofs \<leftarrow> rd_le bs (off + 4) 8; va \<leftarrow> rd_le bs (off + 12) 8;
     fsz \<leftarrow> rd_le bs (off + 20) 8; msz \<leftarrow> rd_le bs (off + 28) 8; al \<leftarrow> rd_le bs (off + 36) 8;
     Some \<lparr>p_type = t, p_offset = ofs, p_vaddr = va, p_filesz = fsz, p_memsz = msz, p_align = al\<rparr>
   }"

text \<open>The checks of one \<open>PT_LOAD\<close> segment, in the order of the code.\<close>

definition check_segment :: "u64 \<Rightarrow> m11_elf64_phdr \<Rightarrow> m11_status" where
  "check_segment image_size seg =
     (if p_memsz seg < p_filesz seg then M11_ERR_SEGBOUNDS
      else if image_size < p_offset seg + p_filesz seg then M11_ERR_SEGBOUNDS
      else if p_align seg = 0 then M11_ERR_ALIGN
      else if p_align seg AND (p_align seg - 1) \<noteq> 0 then M11_ERR_ALIGN
      else if p_vaddr seg < 0x400000 then M11_ERR_SEGRANGE
      else M11_OK)"

primrec plan_segments ::
  "u8 list \<Rightarrow> u64 \<Rightarrow> nat \<Rightarrow> nat \<Rightarrow> nat \<Rightarrow> m11_process_image_plan \<Rightarrow> (m11_status \<times> m11_process_image_plan) option" where
  "plan_segments bs image_size phdr 0 i plan = Some (M11_OK, plan)"
| "plan_segments bs image_size phdr (Suc k) i plan = do {
     seg \<leftarrow> rd_phdr bs (phdr + 44 * i);
     if p_type seg \<noteq> M11_PT_LOAD then plan_segments bs image_size phdr k (Suc i) plan
     else (case check_segment image_size seg of
         M11_OK \<Rightarrow> plan_segments bs image_size phdr k (Suc i)
                     (plan\<lparr>segment_count := segment_count plan + 1\<rparr>)
       | err \<Rightarrow> Some (err, plan))
   }"

definition m11_elf64_plan_load ::
  "u8 list option \<Rightarrow> u64 \<Rightarrow> m11_process_image_plan option \<Rightarrow> (m11_status \<times> m11_process_image_plan option) option" where
  "m11_elf64_plan_load img image_size plan =
     (case (img, plan) of
        (Some bytes, Some pl) \<Rightarrow>
          if image_size < 24 then Some (M11_ERR_MAGIC, plan)
          else do {
            ehdr \<leftarrow> rd_ehdr bytes;
            if e_ident_magic ehdr \<noteq> M11_ELF_MAGIC then Some (M11_ERR_MAGIC, plan)
            else if e_machine ehdr \<noteq> M11_ELF_MACHINE_X86_64 then Some (M11_ERR_MACHINE, plan)
            else if e_entry ehdr < 0x400000 then Some (M11_ERR_ENTRY, plan)
            else if image_size < e_phoff ehdr + ucast (e_phnum ehdr) * 44 then Some (M11_ERR_SEGBOUNDS, plan)
            else do {
              (st, pl') \<leftarrow> plan_segments bytes image_size (unat (e_phoff ehdr)) (unat (e_phnum ehdr)) 0
                 (pl\<lparr>entry_virtual_address := e_entry ehdr, segment_count := 0\<rparr>);
              Some (st, Some pl')
            }
          }
      | _ \<Rightarrow> Some (M11_ERR_MAGIC, plan))"

section \<open>Reading inside the image\<close>

lemma rd_ehdr_defined: "24 \<le> length bs \<Longrightarrow> \<exists>h. rd_ehdr bs = Some h"
  by (simp add: rd_ehdr_def rd_le_def)

lemma rd_phdr_defined_iff: "(\<exists>p. rd_phdr bs off = Some p) \<longleftrightarrow> off + 44 \<le> length bs"
  by (auto simp: rd_phdr_def rd_le_def)

definition phdr_at :: "u8 list \<Rightarrow> nat \<Rightarrow> m11_elf64_phdr" where
  "phdr_at bs off = the (rd_phdr bs off)"

definition phdrs :: "u8 list \<Rightarrow> nat \<Rightarrow> nat \<Rightarrow> nat \<Rightarrow> m11_elf64_phdr list" where
  "phdrs bs phdr k i = map (\<lambda>j. phdr_at bs (phdr + 44 * j)) [i..<i + k]"

text \<open>What the loop computes: the first \<open>PT_LOAD\<close> segment that fails its check decides.\<close>

fun judge :: "u64 \<Rightarrow> m11_elf64_phdr list \<Rightarrow> m11_status \<times> nat" where
  "judge sz [] = (M11_OK, 0)"
| "judge sz (seg # segs) =
     (if p_type seg \<noteq> M11_PT_LOAD then judge sz segs
      else if check_segment sz seg = M11_OK then apsnd Suc (judge sz segs)
      else (check_segment sz seg, 0))"

lemma phdrs_step: "phdrs bs phdr (Suc k) i = phdr_at bs (phdr + 44 * i) # phdrs bs phdr k (Suc i)"
proof -
  have "[i..<i + Suc k] = i # [Suc i..<Suc i + k]" by (simp add: upt_conv_Cons)
  then show ?thesis by (simp only: phdrs_def list.map)
qed

lemma plan_segments_judge:
  assumes "phdr + 44 * (i + k) \<le> length bs"
  shows "plan_segments bs sz phdr k i plan = (case judge sz (phdrs bs phdr k i) of
    (st, n) \<Rightarrow> Some (st, plan\<lparr>segment_count := segment_count plan + of_nat n\<rparr>))"
  using assms
proof (induction k arbitrary: i plan)
  case 0
  then show ?case by (simp add: phdrs_def)
next
  case (Suc k)
  obtain seg where seg: "rd_phdr bs (phdr + 44 * i) = Some seg"
    using rd_phdr_defined_iff [of bs "phdr + 44 * i"] Suc.prems by auto
  then have at: "phdr_at bs (phdr + 44 * i) = seg" by (simp add: phdr_at_def)
  obtain st n where j: "judge sz (phdrs bs phdr k (Suc i)) = (st, n)" by fastforce
  have IH: "plan_segments bs sz phdr k (Suc i) plan' = Some (st, plan'\<lparr>segment_count := segment_count plan' + of_nat n\<rparr>)"
    for plan' using Suc.IH [of "Suc i" plan'] Suc.prems j by simp
  show ?case using seg at j IH
    by (cases "check_segment sz seg") (auto simp: phdrs_step add.assoc)
qed

text \<open>A table that starts outside of the object cannot be read.\<close>

lemma plan_segments_outside:
  "length bs < phdr + 44 * i + 44 \<Longrightarrow> 0 < k \<Longrightarrow> plan_segments bs sz phdr k i plan = None"
  using rd_phdr_defined_iff [of bs "phdr + 44 * i"]
  by (cases k; cases "rd_phdr bs (phdr + 44 * i)") auto

lemma judge_OK:
  "fst (judge sz segs) = M11_OK \<longleftrightarrow> (\<forall>seg\<in>set segs. p_type seg = M11_PT_LOAD \<longrightarrow> check_segment sz seg = M11_OK)"
  by (induction segs) auto

lemma judge_count:
  "fst (judge sz segs) = M11_OK \<Longrightarrow> snd (judge sz segs) = length (filter (\<lambda>seg. p_type seg = M11_PT_LOAD) segs)"
  by (induction segs) (auto split: if_splits)

lemma phdr_table_end:
  "unat (ucast n * 44 :: u64) = 44 * unat (n :: u16)"
proof -
  have n: "unat n < 2 ^ 16" using unsigned_less [of n] by simp
  then have up: "unat (ucast n :: u64) = unat n"
    by (simp add: unsigned_ucast_eq take_bit_nat_eq_self)
  then have "unat (ucast n :: u64) * unat (44 :: u64) < 2 ^ LENGTH(64)" using n by simp
  then have "unat (ucast n * 44 :: u64) = unat (ucast n :: u64) * unat (44 :: u64)"
    by (rule unat_mult_lem [THEN iffD1])
  then show ?thesis using up by simp
qed

section \<open>The alignment test\<close>

lemma pow2_and_pred: "k < 64 \<Longrightarrow> (2 ^ k :: u64) AND (2 ^ k - 1) = 0"
  unfolding mask_eq_exp_minus_1 [symmetric]
  by (rule bit_word_eqI) (auto simp: bit_and_iff bit_exp_iff bit_mask_iff)

lemma top_bit:
  assumes "2 ^ k \<le> n" "n < 2 ^ Suc k"
  shows "bit (n :: nat) k"
proof -
  have "n div 2 ^ k = 1" using assms by (intro div_nat_eqI) auto
  then show ?thesis by (simp add: bit_iff_odd)
qed

lemma nat_log_exists: "0 < (n :: nat) \<Longrightarrow> \<exists>k. 2 ^ k \<le> n \<and> n < 2 ^ Suc k"
  using ex_power_ivl1 [of 2 n] by auto

lemma power_of_two_iff:
  "(a :: u64) \<noteq> 0 \<and> a AND (a - 1) = 0 \<longleftrightarrow> (\<exists>k<64. a = 2 ^ k)"
proof (intro iffI conjI)
  assume a: "a \<noteq> 0 \<and> a AND (a - 1) = 0"
  then have pos: "0 < unat a" by (simp add: unat_gt_0)
  then obtain k where k: "2 ^ k \<le> unat a" "unat a < 2 ^ Suc k" using nat_log_exists by blast
  have "(2 :: nat) ^ k < 2 ^ 64" using k(1) unat_less_64 [of a] by (rule le_less_trans)
  then have k64: "k < 64" by (rule power_less_imp_less_exp [rotated]) simp
  have "unat a = 2 ^ k"
  proof (rule ccontr)
    assume "unat a \<noteq> 2 ^ k"
    moreover have "unat (a - 1) = unat a - 1" using a by (intro unat_minus_one) auto
    ultimately have "bit (unat a) k" "bit (unat (a - 1)) k"
      using k by (auto intro!: top_bit)
    then have "bit (a AND (a - 1)) k" by (simp add: bit_unsigned_iff bit_and_iff)
    then show False using a by simp
  qed
  moreover have "a = of_nat (unat a)" by simp
  ultimately have "a = 2 ^ k" by (metis of_nat_numeral of_nat_power)
  then show "\<exists>k<64. a = 2 ^ k" using k64 by blast
next
  assume "\<exists>k<64. a = 2 ^ k"
  then show "a \<noteq> 0" "a AND (a - 1) = 0" by (auto simp: pow2_and_pred)
qed

section \<open>Properties\<close>

lemma word_sum_le_iff:
  "(x + y :: u64) \<le> z \<longleftrightarrow> unat x + unat y \<le> unat z \<or>
     2 ^ 64 \<le> unat x + unat y \<and> unat x + unat y - 2 ^ 64 \<le> unat z"
proof (cases "unat x + unat y < 2 ^ 64")
  case True
  then have "unat (x + y) = unat x + unat y" by (intro unat_add_lem [THEN iffD1]) simp
  then show ?thesis using True by (simp add: word_le_nat_alt)
next
  case False
  have "unat (x + y) = (unat x + unat y) mod 2 ^ 64" by (simp add: unat_word_ariths)
  also have "\<dots> = unat x + unat y - 2 ^ 64"
    using False unat_less_64 [of x] unat_less_64 [of y] by (intro mod_if [THEN trans]) (auto simp: le_mod_geq)
  finally show ?thesis
    using False unat_less_64 [of z] by (simp add: word_le_nat_alt)
qed

text \<open>
  C26. Which \<open>PT_LOAD\<close> segments are accepted: the memory size is at least the file size, the
  alignment is a power of two, the address is not below 0x400000, and the file range ends inside
  the image, or its end passes 2^64 and comes back inside the image.
\<close>

theorem elf_segment_exact:
  "check_segment sz seg = M11_OK \<longleftrightarrow>
     p_filesz seg \<le> p_memsz seg \<and> (\<exists>k<64. p_align seg = 2 ^ k) \<and> 0x400000 \<le> p_vaddr seg \<and>
     (unat (p_offset seg) + unat (p_filesz seg) \<le> unat sz \<or>
      2 ^ 64 \<le> unat (p_offset seg) + unat (p_filesz seg) \<and>
      unat (p_offset seg) + unat (p_filesz seg) - 2 ^ 64 \<le> unat sz)"
proof -
  have "check_segment sz seg = M11_OK \<longleftrightarrow> p_filesz seg \<le> p_memsz seg \<and>
      (p_align seg \<noteq> 0 \<and> p_align seg AND (p_align seg - 1) = 0) \<and> 0x400000 \<le> p_vaddr seg \<and>
      p_offset seg + p_filesz seg \<le> sz"
    by (auto simp: check_segment_def not_less)
  then show ?thesis unfolding power_of_two_iff word_sum_le_iff .
qed

theorem elf_segment_exact_witness:
  "check_segment 68 \<lparr>p_type = 1, p_offset = 0xfffffffffffff000, p_vaddr = 0x400000,
     p_filesz = 0x1010, p_memsz = 0x1010, p_align = 0x1000\<rparr> = M11_OK"
  unfolding elf_segment_exact by (auto intro!: exI [of _ 12])

definition header_ok :: "u64 \<Rightarrow> m11_elf64_ehdr \<Rightarrow> bool" where
  "header_ok sz h \<longleftrightarrow> e_ident_magic h = M11_ELF_MAGIC \<and> e_machine h = M11_ELF_MACHINE_X86_64 \<and>
     0x400000 \<le> e_entry h \<and> e_phoff h + ucast (e_phnum h) * 44 \<le> sz"

lemma plan_load_header_ok:
  assumes "rd_ehdr bs = Some h" "24 \<le> sz" "header_ok sz h"
  shows "m11_elf64_plan_load (Some bs) sz (Some pl) = do {
    (st, pl') \<leftarrow> plan_segments bs sz (unat (e_phoff h)) (unat (e_phnum h)) 0
      (pl\<lparr>entry_virtual_address := e_entry h, segment_count := 0\<rparr>);
    Some (st, Some pl') }"
  using assms unfolding header_ok_def not_less [symmetric] by (simp add: m11_elf64_plan_load_def)

lemma plan_load_header_bad:
  assumes "rd_ehdr bs = Some h" "24 \<le> sz" "\<not> header_ok sz h"
  shows "\<exists>st. m11_elf64_plan_load (Some bs) sz (Some pl) = Some (st, Some pl) \<and> st \<noteq> M11_OK"
  using assms unfolding header_ok_def not_less [symmetric] by (auto simp: m11_elf64_plan_load_def)

text \<open>
  C24. The loader on an image that is as large as stated and whose program header table does not
  pass the end of the address space: it has a defined result, so it reads inside the image only.
  It returns \<open>M11_OK\<close> exactly if the header is acceptable, the table lies in the image and
  every \<open>PT_LOAD\<close> segment passes its check, and then the plan holds the entry point and the number
  of \<open>PT_LOAD\<close> segments. If the header is refused, the plan is untouched.
\<close>

theorem elf_plan_exact:
  assumes "rd_ehdr bs = Some h" "24 \<le> sz" "unat sz \<le> length bs"
    "unat (e_phoff h) + 44 * unat (e_phnum h) < 2 ^ 64"
    "segs = phdrs bs (unat (e_phoff h)) (unat (e_phnum h)) 0"
  shows "\<exists>st pl'. m11_elf64_plan_load (Some bs) sz (Some pl) = Some (st, Some pl') \<and>
    (st = M11_OK \<longleftrightarrow> header_ok sz h \<and>
       (\<forall>seg\<in>set segs. p_type seg = M11_PT_LOAD \<longrightarrow> check_segment sz seg = M11_OK)) \<and>
    (st = M11_OK \<longrightarrow> entry_virtual_address pl' = e_entry h \<and>
       segment_count pl' = of_nat (length (filter (\<lambda>seg. p_type seg = M11_PT_LOAD) segs))) \<and>
    (\<not> header_ok sz h \<longrightarrow> pl' = pl)"
proof (cases "header_ok sz h")
  case False
  then show ?thesis using plan_load_header_bad [OF assms(1,2) False, of pl] by auto
next
  case True
  have tab: "unat (e_phoff h) + 44 * (0 + unat (e_phnum h)) \<le> length bs"
    using True assms(3,4) phdr_table_end [of "e_phnum h"] by (auto simp: header_ok_def word_sum_le_iff)
  obtain st n where j: "judge sz segs = (st, n)" by fastforce
  let ?pl = "pl\<lparr>entry_virtual_address := e_entry h, segment_count := 0 + of_nat n\<rparr>"
  have "m11_elf64_plan_load (Some bs) sz (Some pl) = Some (st, Some ?pl)"
    using plan_load_header_ok [OF assms(1,2) True] plan_segments_judge [OF tab] j assms(5) by simp
  moreover have "st = M11_OK \<longleftrightarrow> (\<forall>seg\<in>set segs. p_type seg = M11_PT_LOAD \<longrightarrow> check_segment sz seg = M11_OK)"
    using judge_OK [of sz segs] j by simp
  moreover have "st = M11_OK \<Longrightarrow> n = length (filter (\<lambda>seg. p_type seg = M11_PT_LOAD) segs)"
    using judge_count [of sz segs] j by simp
  ultimately show ?thesis using True by auto
qed

definition elf_image :: "u64 \<Rightarrow> u8 list" where
  "elf_image phoff =
     [0x7f, 0x45, 0x4c, 0x46, 0x3e, 0, 0, 0, 0x40, 0, 0, 0, 0, 0] @
     map (\<lambda>i. ucast (drop_bit (8 * i) phoff)) [0..<8] @ [1, 0] @
     [1, 0, 0, 0, 0, 0, 0, 0, 0, 0, 0, 0, 0, 0, 0x40, 0, 0, 0, 0, 0, 0x44, 0, 0, 0, 0, 0, 0, 0,
      0x44, 0, 0, 0, 0, 0, 0, 0, 0, 0x10, 0, 0, 0, 0, 0, 0]"

lemma elf_image_header:
  "rd_ehdr (elf_image 24) = Some \<lparr>e_ident_magic = M11_ELF_MAGIC, e_machine = 62, e_entry = 0x400000,
     e_phoff = 24, e_phnum = 1\<rparr>"
  "rd_ehdr (elf_image 0xffffffffffffffe0) = Some \<lparr>e_ident_magic = M11_ELF_MAGIC, e_machine = 62,
     e_entry = 0x400000, e_phoff = 0xffffffffffffffe0, e_phnum = 1\<rparr>"
  by (simp_all add: rd_ehdr_def rd_le_def elf_image_def upt_rec)

lemma elf_image_length: "length (elf_image x) = 68"
  by (simp add: elf_image_def)

lemma elf_image_segment:
  "phdr_at (elf_image 24) 24 = \<lparr>p_type = 1, p_offset = 0, p_vaddr = 0x400000, p_filesz = 0x44,
     p_memsz = 0x44, p_align = 0x1000\<rparr>"
  by (simp add: phdr_at_def rd_phdr_def rd_le_def elf_image_def upt_rec)

theorem elf_plan_exact_witness:
  "\<exists>pl'. m11_elf64_plan_load (Some (elf_image 24)) 68
       (Some \<lparr>entry_virtual_address = 0, segment_count = 0\<rparr>) = Some (M11_OK, Some pl') \<and>
     entry_virtual_address pl' = 0x400000 \<and> segment_count pl' = 1"
proof -
  have "phdrs (elf_image 24) 24 1 0 = [phdr_at (elf_image 24) 24]" by (simp add: phdrs_def)
  then show ?thesis
    using elf_plan_exact [OF elf_image_header(1), of 68 _ "\<lparr>entry_virtual_address = 0, segment_count = 0\<rparr>"]
    by (auto simp: elf_image_length elf_image_segment header_ok_def check_segment_def)
qed

text \<open>
  C25. The header bound is computed modulo 2^64: when \<open>e_phoff\<close> plus the size of the table passes
  2^64 and the wrapped sum is small enough, the loader accepts the header and reads the first
  program header outside of the image, however large the image is below 2^63 bytes.
\<close>

theorem elf_table_wraps:
  assumes "rd_ehdr bs = Some h" "24 \<le> sz" "length bs < 2 ^ 63" "header_ok sz h"
    "2 ^ 64 \<le> unat (e_phoff h) + 44 * unat (e_phnum h)"
  shows "m11_elf64_plan_load (Some bs) sz (Some pl) = None"
proof -
  have n: "unat (e_phnum h) < 2 ^ 16" using unsigned_less [of "e_phnum h"] by simp
  have "0 < unat (e_phnum h)" using assms(5) unat_less_64 [of "e_phoff h"] by (intro gr0I) simp
  moreover have "length bs < unat (e_phoff h) + 44 * 0 + 44" using n assms(3,5) by simp
  ultimately have "plan_segments bs sz (unat (e_phoff h)) (unat (e_phnum h)) 0 pl' = None" for pl'
    by (intro plan_segments_outside)
  then show ?thesis using plan_load_header_ok [OF assms(1,2,4)] by simp
qed

theorem elf_table_wraps_witness:
  "m11_elf64_plan_load (Some (elf_image 0xffffffffffffffe0)) 68
     (Some \<lparr>entry_virtual_address = 0, segment_count = 0\<rparr>) = None"
  by (rule elf_table_wraps [OF elf_image_header(2)]) (simp_all add: elf_image_length header_ok_def)

end
