(* ===== verification/Syscall.thy ===== *)
theory Syscall
  imports C_Prelude
begin

text \<open>
  The system call dispatcher of \<open>src/kernel/core/syscall.c\<close>. The handlers are pure functions of
  their arguments; a pointer argument is an address that no handler follows. The
  arguments \<open>arg2\<close> to \<open>arg5\<close> are discarded by the code.
\<close>

abbreviation MCSOS_SYS_PING :: u64 where "MCSOS_SYS_PING \<equiv> 0"
abbreviation MCSOS_SYS_GET_TICKS :: u64 where "MCSOS_SYS_GET_TICKS \<equiv> 1"
abbreviation MCSOS_SYS_WRITE_SERIAL :: u64 where "MCSOS_SYS_WRITE_SERIAL \<equiv> 2"
abbreviation MCSOS_SYS_YIELD :: u64 where "MCSOS_SYS_YIELD \<equiv> 3"
abbreviation MCSOS_SYS_EXIT_THREAD :: u64 where "MCSOS_SYS_EXIT_THREAD \<equiv> 4"
abbreviation MCSOS_SYS_MAX :: u64 where "MCSOS_SYS_MAX \<equiv> 5"
abbreviation MCSOS_ENOSYS :: int where "MCSOS_ENOSYS \<equiv> - 38"
abbreviation MCSOS_EFAULT :: int where "MCSOS_EFAULT \<equiv> - 14"

definition sys_ping :: u64 where
  "sys_ping = 0x2605020A"

definition sys_get_ticks :: u64 where
  "sys_get_ticks = 800"

definition sys_write_serial :: "u64 \<Rightarrow> u64 \<Rightarrow> u64" where
  "sys_write_serial buf len = (if buf = 0 then of_int MCSOS_EFAULT else len)"

definition sys_yield :: u64 where
  "sys_yield = 0"

definition sys_exit_thread :: "u64 \<Rightarrow> u64" where
  "sys_exit_thread code = 0"

definition mcsos_syscall_dispatch :: "u64 \<Rightarrow> u64 \<Rightarrow> u64 \<Rightarrow> u64" where
  "mcsos_syscall_dispatch nr arg0 arg1 =
     (if nr = MCSOS_SYS_PING then sys_ping
      else if nr = MCSOS_SYS_GET_TICKS then sys_get_ticks
      else if nr = MCSOS_SYS_WRITE_SERIAL then sys_write_serial arg0 arg1
      else if nr = MCSOS_SYS_YIELD then sys_yield
      else if nr = MCSOS_SYS_EXIT_THREAD then sys_exit_thread arg0
      else of_int MCSOS_ENOSYS)"

lemmas syscall_defs [model_defs] = mcsos_syscall_dispatch_def sys_ping_def sys_get_ticks_def
  sys_write_serial_def sys_yield_def sys_exit_thread_def

lemma sys_number_cases: "nr < MCSOS_SYS_MAX \<longleftrightarrow> nr \<in> {0, 1, 2, 3, 4}"
proof -
  have "unat nr < 5 \<longleftrightarrow> unat nr = 0 \<or> unat nr = 1 \<or> unat nr = 2 \<or> unat nr = 3 \<or> unat nr = 4" by auto
  moreover have "unat nr = 0 \<longleftrightarrow> nr = 0" "unat nr = 1 \<longleftrightarrow> nr = 1" "unat nr = 2 \<longleftrightarrow> nr = 2"
    "unat nr = 3 \<longleftrightarrow> nr = 3" "unat nr = 4 \<longleftrightarrow> nr = 4"
    by (simp_all add: word_unat_eq_iff)
  ultimately show ?thesis by (simp add: word_less_nat_alt)
qed

text \<open>
  Error results of system calls: \<open>-ENOSYS\<close> is returned exactly for numbers from
  \<open>MCSOS_SYS_MAX\<close> on, apart from a serial write with a non-null buffer whose length equals that
  bit pattern; \<open>-EFAULT\<close> exactly for a serial write with a null buffer, or with a length of that
  bit pattern. A length is thus confused with an error when it is at least 2^64 - 38.
\<close>

lemma syscall_errors_exact:
  "(mcsos_syscall_dispatch nr a b = of_int MCSOS_ENOSYS \<longleftrightarrow>
      MCSOS_SYS_MAX \<le> nr \<or> nr = MCSOS_SYS_WRITE_SERIAL \<and> a \<noteq> 0 \<and> b = of_int MCSOS_ENOSYS) \<and>
   (mcsos_syscall_dispatch nr a b = of_int MCSOS_EFAULT \<longleftrightarrow>
      nr = MCSOS_SYS_WRITE_SERIAL \<and> (a = 0 \<or> b = of_int MCSOS_EFAULT))"
  using sys_number_cases [of nr]
  by (cases "nr < MCSOS_SYS_MAX") (auto simp: syscall_defs not_less [symmetric])

lemma syscall_errors_exact_example:
  "mcsos_syscall_dispatch 5 0 0 = of_int MCSOS_ENOSYS \<and>
   mcsos_syscall_dispatch MCSOS_SYS_WRITE_SERIAL 0x1000 (2 ^ 64 - 14) = of_int MCSOS_EFAULT"
  using syscall_errors_exact [of 5 0 0]
    syscall_errors_exact [of MCSOS_SYS_WRITE_SERIAL "0x1000" "2 ^ 64 - 14"] by simp

end
