(* ===== verification/Named_Store.thy ===== *)
theory Named_Store
  imports C_Prelude
begin

text \<open>
  The contract that the file systems share: a table of entries with names, in which a name is
  looked up and new entries are created, never removed. A name that is created a second time takes
  a further entry, which the first one hides. The contract is stated once and
  met by the RAM file system and by both versions of MCSFS1.
\<close>

locale named_store =
  fixes ok :: "'s \<Rightarrow> bool"
    and room :: "'s \<Rightarrow> nat"
    and good_name :: "u8 list \<Rightarrow> bool"
    and entry :: "'s \<Rightarrow> u8 list \<Rightarrow> nat option"
    and lookup :: "'s \<Rightarrow> u8 list \<Rightarrow> nat option option"
    and create :: "'s \<Rightarrow> u8 list \<Rightarrow> (bool \<times> 's) option"
  assumes lookup_entry: "ok s \<Longrightarrow> is_cstr p \<Longrightarrow> lookup s p = Some (entry s (cstr p))"
    and create_room: "ok s \<Longrightarrow> 0 < room s \<Longrightarrow> is_cstr p \<Longrightarrow> good_name (cstr p) \<Longrightarrow>
      \<exists>s' i. create s p = Some (True, s') \<and> ok s' \<and> Suc (room s') = room s \<and> i \<notin> ran (entry s) \<and>
        entry s' = (if entry s (cstr p) = None then (entry s)(cstr p \<mapsto> i) else entry s)"
    and create_full: "ok s \<Longrightarrow> room s = 0 \<Longrightarrow> is_cstr p \<Longrightarrow> good_name (cstr p) \<Longrightarrow>
      create s p = Some (False, s)"
begin

text \<open>Creating a list of files one after the other, whether or not a name exists already.\<close>

fun create_all :: "'s \<Rightarrow> u8 list list \<Rightarrow> 's option" where
  "create_all s [] = Some s"
| "create_all s (p # ps) = do { (r, s') \<leftarrow> create s p; create_all s' ps }"

lemma create_defined:
  assumes "ok s" "is_cstr p" "good_name (cstr p)"
  shows "\<exists>r s'. create s p = Some (r, s') \<and> ok s' \<and> r = (0 < room s) \<and> entry s \<subseteq>\<^sub>m entry s' \<and>
    (0 < room s \<longrightarrow> entry s' (cstr p) \<noteq> None) \<and> room s' = room s - 1 \<and>
    dom (entry s') \<subseteq> insert (cstr p) (dom (entry s))"
proof (cases "0 < room s")
  case True
  then obtain s' i where "create s p = Some (True, s')" "ok s'" "Suc (room s') = room s"
    "entry s' = (if entry s (cstr p) = None then (entry s)(cstr p \<mapsto> i) else entry s)"
    using create_room [OF assms(1) True assms(2,3)] by blast
  then show ?thesis using True by (auto simp: map_le_def)
next
  case False
  then show ?thesis using create_full assms by auto
qed

lemma create_all_found:
  assumes "ok s" "\<forall>p\<in>set ps. is_cstr p \<and> good_name (cstr p)" "length ps \<le> room s"
  shows "\<exists>s'. create_all s ps = Some s' \<and> ok s' \<and> entry s \<subseteq>\<^sub>m entry s' \<and>
    dom (entry s') = dom (entry s) \<union> cstr ` set ps"
  using assms
proof (induction ps arbitrary: s)
  case (Cons p ps)
  then obtain t where t: "create s p = Some (True, t)" "ok t" "entry s \<subseteq>\<^sub>m entry t"
    "entry t (cstr p) \<noteq> None" "room t = room s - 1" "dom (entry t) \<subseteq> insert (cstr p) (dom (entry s))"
    using create_defined [of s p] by auto
  have "length ps \<le> room t" using Cons.prems(3) t(5) by simp
  then obtain s' where s': "create_all t ps = Some s'" "ok s'" "entry t \<subseteq>\<^sub>m entry s'"
    "dom (entry s') = dom (entry t) \<union> cstr ` set ps"
    using Cons.IH [OF t(2)] Cons.prems(2) by auto
  have "dom (entry t) = insert (cstr p) (dom (entry s))"
    using t(3,4,6) map_le_implies_dom_le [of "entry s" "entry t"] by auto
  moreover have "entry s \<subseteq>\<^sub>m entry s'" using t(3) s'(3) by (rule map_le_trans)
  ultimately show ?case using t(1) s' by auto
qed (simp add: map_le_def)

end

text \<open>
  The two facts that instances need: looking for a name in a table, and what appending an entry
  does to it.
\<close>

lemma find_upt_append:
  assumes "\<And>i. i < n \<Longrightarrow> P' i = P i" "P' n"
  shows "find P' [0..<Suc n] = (case find P [0..<n] of None \<Rightarrow> Some n | Some i \<Rightarrow> Some i)"
proof (cases "find P [0..<n]")
  case None
  then have "\<forall>i<n. \<not> P i" by (simp add: find_upt_None)
  then have "find P' [0..<Suc n] = Some n" using assms by (simp only: find_upt_Some) auto
  then show ?thesis using None by (simp del: upt_Suc)
next
  case (Some i)
  then have "i < n \<and> P i \<and> (\<forall>j<i. \<not> P j)" by (simp add: find_upt_Some)
  then have "find P' [0..<Suc n] = Some i" using assms by (simp only: find_upt_Some) auto
  then show ?thesis using Some by (simp del: upt_Suc)
qed

lemma find_upt_append_other:
  assumes "\<And>i. i < n \<Longrightarrow> P' i = P i" "\<not> P' n"
  shows "find P' [0..<Suc n] = find P [0..<n]"
proof (cases "find P [0..<n]")
  case None
  then have "find P' [0..<Suc n] = None"
    using assms by (simp only: find_upt_None) (metis less_Suc_eq)
  then show ?thesis using None by (simp del: upt_Suc)
next
  case (Some i)
  then have "find P' [0..<Suc n] = Some i" using assms by (simp only: find_upt_Some) (metis less_Suc_eq less_trans)
  then show ?thesis using Some by (simp del: upt_Suc)
qed

lemma find_upt_restrict:
  assumes "\<And>i. n \<le> i \<Longrightarrow> i < m \<Longrightarrow> \<not> P i" "\<And>i. i < n \<Longrightarrow> P i = Q i" "n \<le> m"
  shows "find P [0..<m] = find Q [0..<n]"
proof (cases "find Q [0..<n]")
  case None
  then have "find P [0..<m] = None" using assms by (simp only: find_upt_None) (metis not_less)
  then show ?thesis using None by simp
next
  case (Some i)
  then have "find P [0..<m] = Some i"
    using assms by (simp only: find_upt_Some) (metis less_le_trans less_trans)
  then show ?thesis using Some by simp
qed

lemma find_append_map:
  assumes "name' n = x" "\<And>i. i < n \<Longrightarrow> name' i = name i"
  shows "(\<lambda>y. find (\<lambda>i. name' i = y) [0..<Suc n]) =
    (if find (\<lambda>i. name i = x) [0..<n] = None then (\<lambda>y. find (\<lambda>i. name i = y) [0..<n])(x \<mapsto> n)
     else (\<lambda>y. find (\<lambda>i. name i = y) [0..<n]))"
proof
  fix y
  show "find (\<lambda>i. name' i = y) [0..<Suc n] =
    (if find (\<lambda>i. name i = x) [0..<n] = None then (\<lambda>y. find (\<lambda>i. name i = y) [0..<n])(x \<mapsto> n)
     else (\<lambda>y. find (\<lambda>i. name i = y) [0..<n])) y"
  proof (cases "y = x")
    case True
    then have "find (\<lambda>i. name' i = y) [0..<Suc n] =
        (case find (\<lambda>i. name i = y) [0..<n] of None \<Rightarrow> Some n | Some i \<Rightarrow> Some i)"
      using assms by (intro find_upt_append) auto
    then show ?thesis using True by (auto split: option.split simp del: upt_Suc)
  next
    case False
    then have "find (\<lambda>i. name' i = y) [0..<Suc n] = find (\<lambda>i. name i = y) [0..<n]"
      using assms by (intro find_upt_append_other) auto
    then show ?thesis using False by (simp del: upt_Suc)
  qed
qed

end
