(* ===== verification/Ramfs.thy ===== *)
theory Ramfs
  imports Named_Store
begin

text \<open>
  The RAM file system of \<open>src/kernel/fs/m13_ramfs.c\<close>: a table of 64 nodes and 8192 bytes of file
  data, of which every file gets a fixed extent of 256 bytes. A pointer to a node is its index in
  the table, the null pointer is \<open>None\<close>. A path is the list of bytes from the pointer to the end of
  its object.
\<close>

section \<open>Model\<close>

abbreviation MCS_MAX_NODES :: u32 where "MCS_MAX_NODES \<equiv> 64"
abbreviation MCS_RAMFS_DATA_BYTES :: u64 where "MCS_RAMFS_DATA_BYTES \<equiv> 8192"
abbreviation MCS_OK :: int where "MCS_OK \<equiv> 0"
abbreviation MCS_EINVAL :: int where "MCS_EINVAL \<equiv> - 1"
abbreviation MCS_ENOENT :: int where "MCS_ENOENT \<equiv> - 2"
abbreviation MCS_ENFILE :: int where "MCS_ENFILE \<equiv> - 3"
abbreviation MCS_EBADF :: int where "MCS_EBADF \<equiv> - 4"
abbreviation MCS_ENOSPC :: int where "MCS_ENOSPC \<equiv> - 5"

datatype mcs_vnode_type = MCS_VNODE_DIR | MCS_VNODE_FILE

record mcs_vnode =
  v_id :: u32
  v_parent :: u32
  v_type :: mcs_vnode_type
  v_name :: "u8 list"
  v_size :: u64
  v_data_offset :: u64
  v_data_capacity :: u64

record mcs_ramfs =
  nodes :: "mcs_vnode list"
  fdata :: "u8 list"
  node_count :: u32
  data_used :: u64

definition m13_strcmp :: "u8 list \<Rightarrow> u8 list \<Rightarrow> int option" where
  "m13_strcmp a b = strcmp_loop a b"

definition m13_strcpy :: "u8 list \<Rightarrow> u8 list \<Rightarrow> u8 list option" where
  "m13_strcpy dst src = strcpy_loop dst 0 src"

definition mcs_ramfs_init :: "mcs_ramfs \<Rightarrow> mcs_ramfs option" where
  "mcs_ramfs_init fs = do {
     n \<leftarrow> rd (nodes fs) 0;
     name \<leftarrow> m13_strcpy (v_name n) [0x2F, 0];
     ns \<leftarrow> wr (nodes fs) 0 \<lparr>v_id = 0, v_parent = 0, v_type = MCS_VNODE_DIR, v_name = name,
             v_size = 0, v_data_offset = 0, v_data_capacity = 0\<rparr>;
     Some (fs\<lparr>nodes := ns, node_count := 1, data_used := 0\<rparr>)
   }"

definition mcs_ramfs_lookup :: "mcs_ramfs \<Rightarrow> u8 list \<Rightarrow> nat option option" where
  "mcs_ramfs_lookup fs path =
     scan (\<lambda>i. do { n \<leftarrow> rd (nodes fs) i; r \<leftarrow> m13_strcmp (v_name n) path; Some (r = 0) })
       (unat (node_count fs)) 0"

definition mcs_ramfs_create_file :: "mcs_ramfs \<Rightarrow> u8 list \<Rightarrow> (nat option \<times> mcs_ramfs) option" where
  "mcs_ramfs_create_file fs path =
     (if MCS_MAX_NODES \<le> node_count fs then Some (None, fs)
      else if MCS_RAMFS_DATA_BYTES \<le> data_used fs + 256 then Some (None, fs)
      else do {
        let i = unat (node_count fs);
        n \<leftarrow> rd (nodes fs) i;
        name \<leftarrow> m13_strcpy (v_name n) path;
        ns \<leftarrow> wr (nodes fs) i \<lparr>v_id = node_count fs, v_parent = 0, v_type = MCS_VNODE_FILE,
                v_name = name, v_size = 0, v_data_offset = data_used fs, v_data_capacity = 256\<rparr>;
        Some (Some i, fs\<lparr>nodes := ns, data_used := data_used fs + 256, node_count := node_count fs + 1\<rparr>)
      })"

text \<open>
  The copy loops over the data area: the index expressions are 64-bit sums, the counter runs from
  0 to the size.
\<close>

definition put_data :: "mcs_ramfs \<Rightarrow> u64 \<Rightarrow> u8 list \<Rightarrow> u64 \<Rightarrow> mcs_ramfs option" where
  "put_data fs pos src sz = do {
     d \<leftarrow> for_up (\<lambda>i d. do { b \<leftarrow> rd src i; wr d (unat (pos + of_nat i)) b }) (unat sz) 0 (fdata fs);
     Some (fs\<lparr>fdata := d\<rparr>)
   }"

definition get_data :: "mcs_ramfs \<Rightarrow> u64 \<Rightarrow> u8 list \<Rightarrow> u64 \<Rightarrow> u8 list option" where
  "get_data fs pos dst sz =
     for_up (\<lambda>i d. do { b \<leftarrow> rd (fdata fs) (unat (pos + of_nat i)); wr d i b }) (unat sz) 0 dst"

definition mcs_ramfs_seed_file :: "mcs_ramfs \<Rightarrow> u8 list \<Rightarrow> u8 list \<Rightarrow> u64 \<Rightarrow> (int \<times> mcs_ramfs) option" where
  "mcs_ramfs_seed_file fs path dat sz = do {
     (r, fs') \<leftarrow> mcs_ramfs_create_file fs path;
     (case r of
        None \<Rightarrow> Some (MCS_ENOSPC, fs')
      | Some i \<Rightarrow> do {
          n \<leftarrow> rd (nodes fs') i;
          if v_data_capacity n < sz then Some (MCS_ENOSPC, fs')
          else do {
            fs'' \<leftarrow> put_data fs' (v_data_offset n) dat sz;
            n' \<leftarrow> rd (nodes fs'') i;
            ns \<leftarrow> wr (nodes fs'') i (n'\<lparr>v_size := sz\<rparr>);
            Some (MCS_OK, fs''\<lparr>nodes := ns\<rparr>)
          }
        })
   }"

section \<open>Invariant and contents\<close>

text \<open>
  Node 0 is the root, file \<open>i\<close> owns the 256 bytes from \<open>256 * (i - 1)\<close>. At most 31 files fit, as
  the data area is full when a further extent would reach its end.
\<close>

definition extent :: "nat \<Rightarrow> nat" where
  "extent i = 256 * (i - 1)"

definition node_ok :: "nat \<Rightarrow> mcs_vnode \<Rightarrow> bool" where
  "node_ok i n \<longleftrightarrow> is_cstr (v_name n) \<and>
     (if i = 0 then v_size n = 0 \<and> v_data_offset n = 0 \<and> v_data_capacity n = 0
      else unat (v_size n) \<le> 256 \<and> unat (v_data_offset n) = extent i \<and> unat (v_data_capacity n) = 256)"

definition ramfs_ok :: "mcs_ramfs \<Rightarrow> bool" where
  "ramfs_ok fs \<longleftrightarrow> length (nodes fs) = 64 \<and> length (fdata fs) = 8192 \<and>
     (\<forall>n\<in>set (nodes fs). length (v_name n) = 32) \<and>
     1 \<le> unat (node_count fs) \<and> unat (node_count fs) \<le> 32 \<and>
     unat (data_used fs) = 256 * (unat (node_count fs) - 1) \<and>
     (\<forall>i<unat (node_count fs). node_ok i (nodes fs ! i))"

definition content :: "mcs_ramfs \<Rightarrow> nat \<Rightarrow> u8 list" where
  "content fs i = take (unat (v_size (nodes fs ! i))) (drop (unat (v_data_offset (nodes fs ! i))) (fdata fs))"

definition name_of :: "mcs_ramfs \<Rightarrow> nat \<Rightarrow> u8 list" where
  "name_of fs i = cstr (v_name (nodes fs ! i))"

text \<open>The file system as a map from names to contents; of equal names the first node counts.\<close>

definition find_node :: "mcs_ramfs \<Rightarrow> u8 list \<Rightarrow> nat option" where
  "find_node fs name = find (\<lambda>i. name_of fs i = name) [0..<unat (node_count fs)]"

lemma ramfs_lengths:
  assumes "ramfs_ok fs"
  shows "length (nodes fs) = 64" "length (fdata fs) = 8192" "unat (node_count fs) \<le> 32"
    "0 < unat (node_count fs)"
  using assms by (auto simp: ramfs_ok_def)

lemma ramfs_node:
  "ramfs_ok fs \<Longrightarrow> i < unat (node_count fs) \<Longrightarrow> node_ok i (nodes fs ! i)"
  by (simp add: ramfs_ok_def)

lemma ramfs_name_length: "ramfs_ok fs \<Longrightarrow> i < 64 \<Longrightarrow> length (v_name (nodes fs ! i)) = 32"
  by (simp add: ramfs_ok_def)

lemma lookup_find:
  assumes "ramfs_ok fs" "is_cstr path"
  shows "mcs_ramfs_lookup fs path = Some (find_node fs (cstr path))"
proof -
  have "do { n \<leftarrow> rd (nodes fs) i; r \<leftarrow> m13_strcmp (v_name n) path; Some (r = 0) } =
      Some (name_of fs i = cstr path)" if "i < unat (node_count fs)" for i
  proof -
    have "is_cstr (v_name (nodes fs ! i))" using ramfs_node [OF assms(1) that] by (simp add: node_ok_def)
    then obtain r where "strcmp_loop (v_name (nodes fs ! i)) path = Some r"
      "r = 0 \<longleftrightarrow> cstr (v_name (nodes fs ! i)) = cstr path"
      using strcmp_loop_correct assms(2) by blast
    moreover have "i < length (nodes fs)" using that ramfs_lengths [OF assms(1)] by simp
    ultimately show ?thesis by (simp add: m13_strcmp_def name_of_def)
  qed
  then show ?thesis
    unfolding mcs_ramfs_lookup_def find_node_def
    by (subst scan_find [where P = "\<lambda>i. name_of fs i = cstr path"]) auto
qed

section \<open>Data transfer\<close>

lemma put_data_Some:
  assumes "unat pos + unat sz \<le> length (fdata fs)" "length (fdata fs) < 2 ^ 64" "unat sz \<le> length src"
  shows "put_data fs pos src sz = Some (fs\<lparr>fdata := blit (fdata fs) (unat pos) (take (unat sz) src)\<rparr>)"
proof -
  have "for_up (\<lambda>i d. do { b \<leftarrow> rd src i; wr d (unat (pos + of_nat i)) b }) (unat sz) 0 (fdata fs) =
      copy_bytes (fdata fs) (unat pos) src 0 (unat sz)"
    unfolding copy_bytes_def using assms by (intro for_up_cong) (simp add: unat_plus_of_nat)
  then show ?thesis using assms by (simp add: put_data_def copy_bytes_Some)
qed

lemma get_data_Some:
  assumes "unat pos + unat sz \<le> length (fdata fs)" "length (fdata fs) < 2 ^ 64" "unat sz \<le> length dst"
  shows "get_data fs pos dst sz = Some (blit dst 0 (take (unat sz) (drop (unat pos) (fdata fs))))"
proof -
  have "get_data fs pos dst sz = copy_bytes dst 0 (fdata fs) (unat pos) (unat sz)"
    unfolding get_data_def copy_bytes_def using assms by (intro for_up_cong) (simp add: unat_plus_of_nat)
  then show ?thesis using assms by (simp add: copy_bytes_Some)
qed

text \<open>A write that leaves its object has no defined result.\<close>

lemma put_data_None:
  assumes "length src < unat sz"
  shows "put_data fs pos src sz = None"
proof -
  let ?f = "\<lambda>i d. do { b \<leftarrow> rd src i; wr d (unat (pos + of_nat i)) b }"
  have "for_up ?f (Suc m) (length src) d = None" for m d by simp
  moreover obtain m where "unat sz = length src + Suc m" using assms less_iff_Suc_add by auto
  ultimately have "for_up ?f (unat sz) 0 (fdata fs) = None"
    using for_up_add [of ?f "length src" "Suc m" 0 "fdata fs"] by (simp del: for_up.simps split: bind_split)
  then show ?thesis by (simp add: put_data_def)
qed

section \<open>Creating files\<close>

lemma create_full:
  assumes "ramfs_ok fs" "unat (node_count fs) = 32"
  shows "mcs_ramfs_create_file fs path = Some (None, fs)"
proof -
  have "unat (data_used fs + 256) = 8192"
    using assms by (subst unat_add_lem [THEN iffD1]) (auto simp: ramfs_ok_def)
  then show ?thesis by (simp add: mcs_ramfs_create_file_def word_le_nat_alt)
qed

lemma create_room:
  assumes "ramfs_ok fs" "unat (node_count fs) < 32"
  shows "mcs_ramfs_create_file fs path = do {
    name \<leftarrow> strcpy_loop (v_name (nodes fs ! unat (node_count fs))) 0 path;
    Some (Some (unat (node_count fs)), fs\<lparr>nodes := (nodes fs)[unat (node_count fs) :=
       \<lparr>v_id = node_count fs, v_parent = 0, v_type = MCS_VNODE_FILE, v_name = name, v_size = 0,
        v_data_offset = data_used fs, v_data_capacity = 256\<rparr>],
      data_used := data_used fs + 256, node_count := node_count fs + 1\<rparr>) }"
proof -
  have "\<not> MCS_MAX_NODES \<le> node_count fs" using assms(2) by (simp add: word_le_nat_alt)
  moreover have "unat (data_used fs + 256) = unat (data_used fs) + 256"
    using assms by (subst unat_add_lem [THEN iffD1]) (auto simp: ramfs_ok_def)
  then have "\<not> MCS_RAMFS_DATA_BYTES \<le> data_used fs + 256"
    using assms by (simp add: word_le_nat_alt ramfs_ok_def)
  ultimately show ?thesis
    using assms ramfs_lengths [OF assms(1)] by (simp add: mcs_ramfs_create_file_def m13_strcpy_def Let_def)
qed

lemma create_ok:
  assumes "ramfs_ok fs" "unat (node_count fs) < 32" "is_cstr path" "length (cstr path) < 32"
  shows "\<exists>fs'. mcs_ramfs_create_file fs path = Some (Some (unat (node_count fs)), fs') \<and>
    ramfs_ok fs' \<and> unat (node_count fs') = Suc (unat (node_count fs)) \<and> fdata fs' = fdata fs \<and>
    name_of fs' (unat (node_count fs)) = cstr path \<and> content fs' (unat (node_count fs)) = [] \<and>
    (\<forall>i<unat (node_count fs). nodes fs' ! i = nodes fs ! i)"
proof -
  let ?c = "unat (node_count fs)"
  let ?name = "blit (v_name (nodes fs ! ?c)) 0 (cstr path @ [0])"
  let ?n = "\<lparr>v_id = node_count fs, v_parent = 0, v_type = MCS_VNODE_FILE, v_name = ?name, v_size = 0,
    v_data_offset = data_used fs, v_data_capacity = 256\<rparr>"
  let ?fs = "fs\<lparr>nodes := (nodes fs)[?c := ?n], data_used := data_used fs + 256, node_count := node_count fs + 1\<rparr>"
  have len: "length (v_name (nodes fs ! ?c)) = 32" using ramfs_name_length [OF assms(1)] assms(2) by simp
  have run: "mcs_ramfs_create_file fs path = Some (Some ?c, ?fs)"
    using create_room [OF assms(1,2)] strcpy_loop_Some [OF assms(3), of 0] assms(4) len by simp
  have cnt: "unat (node_count fs + 1) = Suc ?c"
    using assms(2) by (intro unat_plus_one [of _ 32]) (simp add: word_less_nat_alt)
  have used2: "unat (data_used fs) = extent ?c" using assms(1) by (simp add: ramfs_ok_def extent_def)
  have used1: "unat (data_used fs + 256) = 256 * ?c"
    using assms(2) used2 ramfs_lengths(4) [OF assms(1)]
    by (subst unat_add_lem [THEN iffD1]) (auto simp: extent_def)
  have nm: "?name = cstr path @ 0 # drop (Suc (length (cstr path))) (v_name (nodes fs ! ?c))"
    by (simp add: blit_def)
  have "node_ok i (nodes ?fs ! i)" if "i < Suc ?c" for i
    using that assms(1,2) used2 nm ramfs_lengths [OF assms(1)] ramfs_node [OF assms(1), of i]
    by (cases "i = ?c") (auto simp: node_ok_def nth_list_update)
  moreover have "length (v_name n) = 32" if "n \<in> set (nodes ?fs)" for n
    using that assms(1,4) len set_update_subset_insert [of "nodes fs" ?c ?n] by (auto simp: ramfs_ok_def)
  ultimately have "ramfs_ok ?fs"
    using assms(1,2) used1 cnt by (auto simp: ramfs_ok_def)
  moreover have "name_of ?fs ?c = cstr path" "content ?fs ?c = []"
    using ramfs_lengths [OF assms(1)] nm by (simp_all add: name_of_def content_def)
  ultimately show ?thesis using run cnt by (intro exI [of _ ?fs]) simp
qed

lemma find_node_append:
  assumes "unat (node_count fs') = Suc (unat (node_count fs))" "name_of fs' (unat (node_count fs)) = name"
    "\<forall>i<unat (node_count fs). name_of fs' i = name_of fs i"
  shows "find_node fs' = (if find_node fs name = None then (find_node fs)(name \<mapsto> unat (node_count fs))
    else find_node fs)"
proof -
  have eq: "find_node gs = (\<lambda>x. find (\<lambda>i. name_of gs i = x) [0..<unat (node_count gs)])" for gs
    by (simp add: find_node_def fun_eq_iff)
  show ?thesis unfolding eq assms(1) by (rule find_append_map) (use assms(2,3) in auto)
qed

lemma find_node_bound: "find_node fs name = Some i \<Longrightarrow> i < unat (node_count fs) \<and> name_of fs i = name"
  by (simp add: find_node_def find_upt_Some)

interpretation ramfs: named_store ramfs_ok "\<lambda>fs. 32 - unat (node_count fs)" "\<lambda>s. length s < 32"
  find_node mcs_ramfs_lookup "\<lambda>fs p. map_option (apfst (\<lambda>r. r \<noteq> None)) (mcs_ramfs_create_file fs p)"
proof (unfold_locales, goal_cases)
  case (1 s p)
  then show ?case by (rule lookup_find)
next
  case (2 s p)
  then obtain fs' where fs': "mcs_ramfs_create_file s p = Some (Some (unat (node_count s)), fs')" "ramfs_ok fs'"
    "unat (node_count fs') = Suc (unat (node_count s))" "name_of fs' (unat (node_count s)) = cstr p"
    "\<forall>i<unat (node_count s). nodes fs' ! i = nodes s ! i"
    using create_ok [of s p] by auto
  moreover have "unat (node_count s) \<notin> ran (find_node s)"
    using find_node_bound [of s] by (auto simp: ran_def)
  moreover have "\<forall>i<unat (node_count s). name_of fs' i = name_of s i" using fs'(5) by (simp add: name_of_def)
  ultimately show ?case using 2 find_node_append [of fs' s "cstr p"] by auto
next
  case (3 s p)
  then have "unat (node_count s) = 32" using ramfs_lengths(3) [of s] by simp
  then show ?case using create_full [OF 3(1)] by simp
qed

text \<open>
  C32. Creating a file: with fewer than 31 files, a path of at most 31 characters gives a new empty
  file of that name and changes no other node and no data; a longer path is written past the name
  field; and with 31 files every creation is refused, although the last 256 bytes of the data area
  and half of the node table are unused.
\<close>

theorem ramfs_create_exact:
  assumes "ramfs_ok fs" "is_cstr path"
  shows "if unat (node_count fs) = 32 then mcs_ramfs_create_file fs path = Some (None, fs)
    else if 32 \<le> length (cstr path) then mcs_ramfs_create_file fs path = None
    else \<exists>fs'. mcs_ramfs_create_file fs path = Some (Some (unat (node_count fs)), fs') \<and> ramfs_ok fs' \<and>
      unat (node_count fs') = Suc (unat (node_count fs)) \<and>
      name_of fs' (unat (node_count fs)) = cstr path \<and> content fs' (unat (node_count fs)) = [] \<and>
      (\<forall>i<unat (node_count fs). name_of fs' i = name_of fs i \<and> content fs' i = content fs i)"
proof (cases "unat (node_count fs) = 32")
  case True
  then show ?thesis using create_full [OF assms(1)] by simp
next
  case False
  then have room: "unat (node_count fs) < 32" using ramfs_lengths(3) [OF assms(1)] by simp
  show ?thesis
  proof (cases "32 \<le> length (cstr path)")
    case True
    then have "strcpy_loop (v_name (nodes fs ! unat (node_count fs))) 0 path = None"
      using ramfs_name_length [OF assms(1), of "unat (node_count fs)"] room
      by (intro strcpy_loop_None [OF assms(2)]) simp
    then show ?thesis using create_room [OF assms(1) room, of path] True False by simp
  next
    case short: False
    then show ?thesis
      using create_ok [OF assms(1) room assms(2)] False by (auto simp: name_of_def content_def)
  qed
qed

definition empty_ramfs :: mcs_ramfs where
  "empty_ramfs = \<lparr>nodes = replicate 64 \<lparr>v_id = 0, v_parent = 0, v_type = MCS_VNODE_DIR,
       v_name = replicate 32 0, v_size = 0, v_data_offset = 0, v_data_capacity = 0\<rparr>,
     fdata = replicate 8192 0, node_count = 1, data_used = 0\<rparr>"

lemma empty_ramfs_ok: "ramfs_ok empty_ramfs"
  by (simp add: ramfs_ok_def empty_ramfs_def node_ok_def is_cstr_def)

lemma empty_ramfs_count: "node_count empty_ramfs = 1"
  by (simp add: empty_ramfs_def)

theorem ramfs_create_exact_witness:
  "\<exists>fs'. mcs_ramfs_create_file empty_ramfs [0x61, 0] = Some (Some 1, fs') \<and> name_of fs' 1 = [0x61]"
  using ramfs_create_exact [OF empty_ramfs_ok, of "[0x61, 0]"] by (auto simp: empty_ramfs_count)

text \<open>Initialisation establishes the invariant with the root directory only.\<close>

lemma ramfs_init_ok:
  assumes "length (nodes fs) = 64" "length (fdata fs) = 8192" "\<forall>n\<in>set (nodes fs). length (v_name n) = 32"
  shows "\<exists>fs'. mcs_ramfs_init fs = Some fs' \<and> ramfs_ok fs' \<and> node_count fs' = 1 \<and> name_of fs' 0 = [0x2F]"
proof -
  let ?name = "blit (v_name (nodes fs ! 0)) 0 [0x2F, 0]"
  have len: "length (v_name (nodes fs ! 0)) = 32" using assms(1,3) by simp
  let ?n = "\<lparr>v_id = 0, v_parent = 0, v_type = MCS_VNODE_DIR, v_name = ?name,
    v_size = 0, v_data_offset = 0, v_data_capacity = 0\<rparr>"
  have "strcpy_loop (v_name (nodes fs ! 0)) 0 [0x2F, 0] = Some ?name"
    using strcpy_loop_Some [of "[0x2F, 0]" 0 "v_name (nodes fs ! 0)"] len by simp
  then have "mcs_ramfs_init fs = Some (fs\<lparr>nodes := (nodes fs)[0 := ?n], node_count := 1, data_used := 0\<rparr>)"
    using assms(1) by (simp add: mcs_ramfs_init_def m13_strcpy_def del: strcpy_loop.simps)
  moreover have "?name = [0x2F] @ 0 # drop (Suc (Suc 0)) (v_name (nodes fs ! 0))" by (simp add: blit_def)
  moreover have "length (v_name n) = 32" if "n \<in> set ((nodes fs)[0 := ?n])" for n
    using that assms(3) len set_update_subset_insert [of "nodes fs" 0 ?n] by auto
  ultimately show ?thesis
    using assms(1,2) by (auto simp: ramfs_ok_def node_ok_def name_of_def)
qed

section \<open>Updating one file\<close>

text \<open>
  Writing bytes into the extent of a file and setting its size: the other files keep name and
  content. \<open>write_at\<close> is the content that results.
\<close>

definition write_at :: "u8 list \<Rightarrow> nat \<Rightarrow> u8 list \<Rightarrow> u8 list" where
  "write_at c off bs = take off c @ bs @ drop (off + length bs) c"

definition set_node :: "mcs_ramfs \<Rightarrow> nat \<Rightarrow> nat \<Rightarrow> u8 list \<Rightarrow> u64 \<Rightarrow> mcs_ramfs" where
  "set_node fs i off bs sz = fs\<lparr>fdata := blit (fdata fs) (extent i + off) bs,
     nodes := (nodes fs)[i := (nodes fs ! i)\<lparr>v_size := sz\<rparr>]\<rparr>"

lemma extent_bounds:
  assumes "ramfs_ok fs" "i < unat (node_count fs)"
  shows "extent i + 256 \<le> length (fdata fs)" "i < length (nodes fs)"
  using assms ramfs_lengths [OF assms(1)] by (auto simp: extent_def)

lemma extent_apart: "0 < i \<Longrightarrow> 0 < j \<Longrightarrow> i \<noteq> j \<Longrightarrow> extent i + 256 \<le> extent j \<or> extent j + 256 \<le> extent i"
  by (cases "i < j") (auto simp: extent_def)

lemma content_eq:
  assumes "ramfs_ok fs" "i < unat (node_count fs)"
  shows "content fs i = take (unat (v_size (nodes fs ! i))) (drop (extent i) (fdata fs))"
    "unat (v_size (nodes fs ! i)) \<le> 256" "length (content fs i) = unat (v_size (nodes fs ! i))"
    "i = 0 \<Longrightarrow> content fs i = []"
proof -
  note n = ramfs_node [OF assms] extent_bounds [OF assms]
  show e: "content fs i = take (unat (v_size (nodes fs ! i))) (drop (extent i) (fdata fs))"
    using n by (cases "i = 0") (auto simp: content_def node_ok_def extent_def)
  show s: "unat (v_size (nodes fs ! i)) \<le> 256" using n by (cases "i = 0") (auto simp: node_ok_def)
  show "length (content fs i) = unat (v_size (nodes fs ! i))" using e s n by simp
  show "i = 0 \<Longrightarrow> content fs i = []" using n by (simp add: content_def node_ok_def)
qed

lemma set_node_ok:
  assumes "ramfs_ok fs" "0 < i" "i < unat (node_count fs)" "off + length bs \<le> 256" "unat sz \<le> 256"
  shows "ramfs_ok (set_node fs i off bs sz)" "node_count (set_node fs i off bs sz) = node_count fs"
    "name_of (set_node fs i off bs sz) = name_of fs"
proof -
  note b = extent_bounds [OF assms(1,3)]
  show "node_count (set_node fs i off bs sz) = node_count fs" by (simp add: set_node_def)
  show "name_of (set_node fs i off bs sz) = name_of fs"
    using b by (auto simp: set_node_def name_of_def nth_list_update)
  have "node_ok j ((nodes fs)[i := (nodes fs ! i)\<lparr>v_size := sz\<rparr>] ! j)" if "j < unat (node_count fs)" for j
    using ramfs_node [OF assms(1) that] b assms(2,5) by (auto simp: nth_list_update node_ok_def)
  moreover have "length (v_name n) = 32" if "n \<in> set ((nodes fs)[i := (nodes fs ! i)\<lparr>v_size := sz\<rparr>])" for n
    using that set_update_subset_insert [of "nodes fs" i "(nodes fs ! i)\<lparr>v_size := sz\<rparr>"] assms(1) b(2)
    by (auto simp: ramfs_ok_def)
  moreover have "length (blit (fdata fs) (extent i + off) bs) = length (fdata fs)"
    using b(1) assms(4) by simp
  ultimately show "ramfs_ok (set_node fs i off bs sz)"
    using assms(1) by (simp add: ramfs_ok_def set_node_def)
qed

lemma slice_blit_inside:
  assumes "off \<le> s" "e + s \<le> length d" "e + off + length bs \<le> length d"
  shows "take (max s (off + length bs)) (drop e (blit d (e + off) bs)) = write_at (take s (drop e d)) off bs"
proof -
  let ?X = "drop e d"
  have X: "drop e (blit d (e + off) bs) = take off ?X @ bs @ drop (off + length bs) ?X"
    using assms(3) by (simp add: blit_def drop_take add.assoc) (simp add: ac_simps)
  have o: "length (take off ?X) = off" using assms(1,2) by simp
  show ?thesis
  proof (cases "s \<le> off + length bs")
    case True
    then show ?thesis using assms(1) o by (simp add: X write_at_def max_def min_def)
  next
    case False
    then show ?thesis using assms(1) o by (simp add: X write_at_def max_def min_def drop_take)
  qed
qed

lemma set_node_content:
  assumes "ramfs_ok fs" "0 < i" "i < unat (node_count fs)" "off + length bs \<le> 256"
    "off \<le> unat (v_size (nodes fs ! i))" "unat sz = max (unat (v_size (nodes fs ! i))) (off + length bs)"
  shows "content (set_node fs i off bs sz) i = write_at (content fs i) off bs"
    "j \<noteq> i \<Longrightarrow> j < unat (node_count fs) \<Longrightarrow> content (set_node fs i off bs sz) j = content fs j"
proof -
  let ?fs = "set_node fs i off bs sz"
  note b = extent_bounds [OF assms(1,3)] and s = content_eq [OF assms(1,3)]
  have "unat sz \<le> 256" using assms(4,6) s(2) by simp
  note ok = set_node_ok [OF assms(1-4) this]
  have "content ?fs i = take (unat sz) (drop (extent i) (blit (fdata fs) (extent i + off) bs))"
    using content_eq(1) [OF ok(1), of i] ok(2) assms(3) b(2) by (simp add: set_node_def)
  also have "\<dots> = write_at (content fs i) off bs"
    unfolding s(1) assms(6) using assms(4,5) s(2) b(1) by (intro slice_blit_inside) auto
  finally show "content ?fs i = write_at (content fs i) off bs" .
  assume j: "j \<noteq> i" "j < unat (node_count fs)"
  show "content ?fs j = content fs j"
  proof (cases "j = 0")
    case True
    then show ?thesis using content_eq(4) [OF ok(1), of j] content_eq(4) [OF assms(1) j(2)] ok(2) j by simp
  next
    case False
    note t = content_eq [OF assms(1) j(2)] and e = extent_bounds [OF assms(1) j(2)]
    have "extent i + 256 \<le> extent j \<or> extent j + 256 \<le> extent i" using extent_apart assms(2) False j(1) by simp
    then have "take (unat (v_size (nodes fs ! j))) (drop (extent j) (blit (fdata fs) (extent i + off) bs)) =
        take (unat (v_size (nodes fs ! j))) (drop (extent j) (fdata fs))"
      using t(2) b(1) e(1) assms(4) by (intro slice_blit_other) auto
    then show ?thesis
      using content_eq(1) [OF ok(1), of j] ok(2) j t(1) by (simp add: set_node_def)
  qed
qed

text \<open>
  Seeding a file: a size of at most 256 bytes gives a new last file with exactly the given
  bytes and leaves all other files alone. A larger size is refused with \<open>MCS_ENOSPC\<close>, but the new
  empty file stays.
\<close>

lemma ramfs_seed_exact:
  assumes "ramfs_ok fs" "is_cstr path" "length (cstr path) < 32" "unat (node_count fs) < 32"
    "unat sz \<le> length dat"
  shows "\<exists>fs'. mcs_ramfs_seed_file fs path dat sz = Some (if 256 < sz then MCS_ENOSPC else MCS_OK, fs') \<and>
    ramfs_ok fs' \<and> unat (node_count fs') = Suc (unat (node_count fs)) \<and>
    name_of fs' (unat (node_count fs)) = cstr path \<and>
    content fs' (unat (node_count fs)) = (if 256 < sz then [] else take (unat sz) dat) \<and>
    (\<forall>i<unat (node_count fs). name_of fs' i = name_of fs i \<and> content fs' i = content fs i)"
proof -
  let ?c = "unat (node_count fs)"
  obtain f1 where f1: "mcs_ramfs_create_file fs path = Some (Some ?c, f1)" "ramfs_ok f1"
    "unat (node_count f1) = Suc ?c" "fdata f1 = fdata fs" "name_of f1 ?c = cstr path" "content f1 ?c = []"
    "\<forall>i<?c. nodes f1 ! i = nodes fs ! i"
    using create_ok [OF assms(1,4,2,3)] by blast
  have same: "\<forall>i<?c. name_of f1 i = name_of fs i \<and> content f1 i = content fs i"
    using f1(4,7) by (simp add: name_of_def content_def)
  have c: "0 < ?c" "?c < unat (node_count f1)" using ramfs_lengths(4) [OF assms(1)] f1(3) by auto
  note n = ramfs_node [OF f1(2) c(2)] and b = extent_bounds [OF f1(2) c(2)]
  have n': "unat (v_data_capacity (nodes f1 ! ?c)) = 256" "unat (v_data_offset (nodes f1 ! ?c)) = extent ?c"
    "length (content f1 ?c) = unat (v_size (nodes f1 ! ?c))"
    using n c(1) content_eq(3) [OF f1(2) c(2)] by (auto simp: node_ok_def)
  show ?thesis
  proof (cases "256 < sz")
    case True
    then have "mcs_ramfs_seed_file fs path dat sz = Some (MCS_ENOSPC, f1)"
      using f1(1) b(2) n'(1) by (simp add: mcs_ramfs_seed_file_def word_less_nat_alt)
    then show ?thesis using True f1 same by auto
  next
    case False
    then have sz: "unat sz \<le> 256" by (simp add: word_less_nat_alt)
    let ?bs = "take (unat sz) dat"
    have "put_data f1 (v_data_offset (nodes f1 ! ?c)) dat sz = Some (f1\<lparr>fdata := blit (fdata f1) (extent ?c) ?bs\<rparr>)"
      using put_data_Some [of "v_data_offset (nodes f1 ! ?c)" sz f1 dat] n'(2) b(1) sz assms(5)
        ramfs_lengths(2) [OF f1(2)] by simp
    then have run: "mcs_ramfs_seed_file fs path dat sz = Some (MCS_OK, set_node f1 ?c 0 ?bs sz)"
      using f1(1) b(2) n'(1) sz by (simp add: mcs_ramfs_seed_file_def word_less_nat_alt set_node_def)
    have s: "v_size (nodes f1 ! ?c) = 0" using n'(3) f1(6) by (simp add: unat_eq_zero)
    have len: "0 + length ?bs \<le> 256" "unat sz = max (unat (v_size (nodes f1 ! ?c))) (0 + length ?bs)"
      using s sz assms(5) by auto
    note ok = set_node_ok [OF f1(2) c len(1) sz] and cont = set_node_content [OF f1(2) c len(1) _ len(2)]
    show ?thesis
      using run ok cont f1(3,5,6) same False c by (auto simp: write_at_def)
  qed
qed

lemma ramfs_seed_exact_example:
  "\<exists>fs'. mcs_ramfs_seed_file empty_ramfs [0x61, 0] [7, 8, 9] 3 = Some (MCS_OK, fs') \<and> content fs' 1 = [7, 8, 9]"
  using ramfs_seed_exact [OF empty_ramfs_ok, of "[0x61, 0]" 3 "[7, 8, 9]"] by (auto simp: empty_ramfs_count)

end
