(* ===== verification/Vfs.thy ===== *)
theory Vfs
  imports Ramfs
begin

text \<open>
  The file descriptor layer of \<open>src/kernel/fs/m13_vfs.c\<close> over the RAM file system: a table of 16
  open files, each with an offset, a node and a file system.

  File systems live in a store indexed by address; an open file holds the address of its file
  system and the index of its node there. The results are C integers; \<open>(int64_t)size\<close> is the signed
  reading of the 64-bit size.
\<close>

section \<open>Model\<close>

abbreviation MCS_MAX_OPEN_FILES :: nat where "MCS_MAX_OPEN_FILES \<equiv> 16"
abbreviation MCS_O_CREAT :: u32 where "MCS_O_CREAT \<equiv> 0x100"
abbreviation MCS_SEEK_SET :: int where "MCS_SEEK_SET \<equiv> 0"
abbreviation MCS_SEEK_CUR :: int where "MCS_SEEK_CUR \<equiv> 1"
abbreviation MCS_SEEK_END :: int where "MCS_SEEK_END \<equiv> 2"

record mcs_file =
  f_flags :: u32
  f_offset :: u64
  f_node :: nat
  f_fs :: u64
  f_used :: bool

type_synonym mcs_fd_table = "mcs_file list"
type_synonym fs_store = "u64 \<Rightarrow> mcs_ramfs option"

definition mcs_fd_table_init :: "mcs_fd_table \<Rightarrow> mcs_fd_table option" where
  "mcs_fd_table_init tab =
     for_up (\<lambda>i t. do { f \<leftarrow> rd t i; wr t i (f\<lparr>f_used := False\<rparr>) }) MCS_MAX_OPEN_FILES 0 tab"

text \<open>The second half of \<open>mcs_vfs_open\<close>: a descriptor for a node.\<close>

definition fd_install :: "mcs_fd_table \<Rightarrow> u64 \<Rightarrow> nat \<Rightarrow> u32 \<Rightarrow> (int \<times> mcs_fd_table) option" where
  "fd_install tab fs node flags = do {
     hit \<leftarrow> scan (\<lambda>fd. do { f \<leftarrow> rd tab fd; Some (\<not> f_used f) }) MCS_MAX_OPEN_FILES 0;
     (case hit of
        None \<Rightarrow> Some (MCS_ENFILE, tab)
      | Some fd \<Rightarrow> do {
          tab' \<leftarrow> wr tab fd \<lparr>f_flags = flags, f_offset = 0, f_node = node, f_fs = fs, f_used = True\<rparr>;
          Some (int fd, tab') })
   }"

definition mcs_vfs_open ::
  "mcs_fd_table \<Rightarrow> fs_store \<Rightarrow> u64 \<Rightarrow> u8 list \<Rightarrow> u32 \<Rightarrow> (int \<times> mcs_fd_table \<times> fs_store) option" where
  "mcs_vfs_open tab st fs path flags = do {
     fso \<leftarrow> st fs;
     hit \<leftarrow> mcs_ramfs_lookup fso path;
     (case hit of
        Some node \<Rightarrow> do { (r, tab') \<leftarrow> fd_install tab fs node flags; Some (r, tab', st) }
      | None \<Rightarrow>
          if flags AND MCS_O_CREAT = 0 then Some (MCS_ENOENT, tab, st)
          else do {
            (new, fso') \<leftarrow> mcs_ramfs_create_file fso path;
            (case new of
               None \<Rightarrow> Some (MCS_ENOSPC, tab, st(fs \<mapsto> fso'))
             | Some node \<Rightarrow> do {
                 (r, tab') \<leftarrow> fd_install tab fs node flags;
                 Some (r, tab', st(fs \<mapsto> fso')) })
          })
   }"

definition bad_fd :: "int \<Rightarrow> bool" where
  "bad_fd fd \<longleftrightarrow> fd < 0 \<or> 16 \<le> fd"

definition mcs_vfs_read ::
  "mcs_fd_table \<Rightarrow> fs_store \<Rightarrow> int \<Rightarrow> u8 list \<Rightarrow> u64 \<Rightarrow> (int \<times> mcs_fd_table \<times> u8 list) option" where
  "mcs_vfs_read tab st fd buffer sz =
     (if bad_fd fd then Some (MCS_EBADF, tab, buffer)
      else do {
        file \<leftarrow> rd tab (nat fd);
        if \<not> f_used file then Some (MCS_EBADF, tab, buffer)
        else do {
          fs \<leftarrow> st (f_fs file);
          node \<leftarrow> rd (nodes fs) (f_node file);
          let remain = v_size node - f_offset file;
          let n = (if remain < sz then remain else sz);
          dst \<leftarrow> get_data fs (v_data_offset node + f_offset file) buffer n;
          tab' \<leftarrow> wr tab (nat fd) (file\<lparr>f_offset := f_offset file + n\<rparr>);
          Some (sint n, tab', dst)
        }
      })"

definition mcs_vfs_write ::
  "mcs_fd_table \<Rightarrow> fs_store \<Rightarrow> int \<Rightarrow> u8 list \<Rightarrow> u64 \<Rightarrow> (int \<times> mcs_fd_table \<times> fs_store) option" where
  "mcs_vfs_write tab st fd buffer sz =
     (if bad_fd fd then Some (MCS_EBADF, tab, st)
      else do {
        file \<leftarrow> rd tab (nat fd);
        if \<not> f_used file then Some (MCS_EBADF, tab, st)
        else do {
          fs \<leftarrow> st (f_fs file);
          node \<leftarrow> rd (nodes fs) (f_node file);
          if v_data_capacity node < f_offset file + sz then Some (MCS_ENOSPC, tab, st)
          else do {
            fs1 \<leftarrow> put_data fs (v_data_offset node + f_offset file) buffer sz;
            let off = f_offset file + sz;
            tab' \<leftarrow> wr tab (nat fd) (file\<lparr>f_offset := off\<rparr>);
            ns \<leftarrow> (if v_size node < off then wr (nodes fs1) (f_node file) (node\<lparr>v_size := off\<rparr>)
                   else Some (nodes fs1));
            Some (sint sz, tab', st(f_fs file \<mapsto> fs1\<lparr>nodes := ns\<rparr>))
          }
        }
      })"

definition mcs_vfs_lseek ::
  "mcs_fd_table \<Rightarrow> fs_store \<Rightarrow> int \<Rightarrow> u64 \<Rightarrow> int \<Rightarrow> (int \<times> mcs_fd_table) option" where
  "mcs_vfs_lseek tab st fd offset whence =
     (if bad_fd fd then Some (MCS_EBADF, tab)
      else do {
        file \<leftarrow> rd tab (nat fd);
        if \<not> f_used file then Some (MCS_EBADF, tab)
        else if whence \<noteq> MCS_SEEK_SET \<and> whence \<noteq> MCS_SEEK_CUR \<and> whence \<noteq> MCS_SEEK_END then Some (MCS_EINVAL, tab)
        else do {
          fs \<leftarrow> st (f_fs file);
          node \<leftarrow> rd (nodes fs) (f_node file);
          let new_offset = (if whence = MCS_SEEK_SET then offset
                            else if whence = MCS_SEEK_CUR then f_offset file + offset
                            else v_size node + offset);
          if v_size node < new_offset then Some (MCS_EINVAL, tab)
          else do {
            tab' \<leftarrow> wr tab (nat fd) (file\<lparr>f_offset := new_offset\<rparr>);
            Some (sint new_offset, tab')
          }
        }
      })"

definition mcs_vfs_close :: "mcs_fd_table \<Rightarrow> int \<Rightarrow> (int \<times> mcs_fd_table) option" where
  "mcs_vfs_close tab fd =
     (if bad_fd fd then Some (MCS_EBADF, tab)
      else do {
        file \<leftarrow> rd tab (nat fd);
        tab' \<leftarrow> wr tab (nat fd) (file\<lparr>f_used := False\<rparr>);
        Some (MCS_OK, tab')
      })"

text \<open>The global pointer \<open>mcs_active_ramfs_for_test\<close> is set and not read by this file.\<close>

definition mcs_vfs_set_active_ramfs_for_test :: "u64 \<Rightarrow> u64 \<Rightarrow> u64" where
  "mcs_vfs_set_active_ramfs_for_test active fs = fs"

section \<open>Invariant\<close>

text \<open>
  Every file system in the store is well formed; every used descriptor refers to a node of one, at
  an offset inside the file.
\<close>

definition file_ok :: "fs_store \<Rightarrow> mcs_file \<Rightarrow> bool" where
  "file_ok st f \<longleftrightarrow> (\<exists>fs. st (f_fs f) = Some fs \<and> f_node f < unat (node_count fs) \<and>
     unat (f_offset f) \<le> unat (v_size (nodes fs ! f_node f)))"

definition vfs_ok :: "mcs_fd_table \<Rightarrow> fs_store \<Rightarrow> bool" where
  "vfs_ok tab st \<longleftrightarrow> length tab = 16 \<and> (\<forall>a fs. st a = Some fs \<longrightarrow> ramfs_ok fs) \<and>
     (\<forall>f\<in>set tab. f_used f \<longrightarrow> file_ok st f)"

text \<open>A descriptor in use, with all that it refers to.\<close>

definition open_file :: "mcs_fd_table \<Rightarrow> fs_store \<Rightarrow> int \<Rightarrow> mcs_file \<Rightarrow> mcs_ramfs \<Rightarrow> bool" where
  "open_file tab st fd f fs \<longleftrightarrow> 0 \<le> fd \<and> fd < 16 \<and> f = tab ! nat fd \<and> f_used f \<and> st (f_fs f) = Some fs"

lemma open_file_facts:
  assumes "vfs_ok tab st" "open_file tab st fd f fs"
  shows "\<not> bad_fd fd" "rd tab (nat fd) = Some f" "nat fd < length tab" "f_used f" "st (f_fs f) = Some fs"
    "ramfs_ok fs" "f_node f < unat (node_count fs)"
    "unat (f_offset f) \<le> length (content fs (f_node f))" "length (content fs (f_node f)) \<le> 256"
    "rd (nodes fs) (f_node f) = Some (nodes fs ! f_node f)"
proof -
  have o: "0 \<le> fd" "fd < 16" "f = tab ! nat fd" "f_used f" "st (f_fs f) = Some fs"
    using assms(2) by (auto simp: open_file_def)
  then show "\<not> bad_fd fd" "f_used f" "st (f_fs f) = Some fs" by (auto simp: bad_fd_def)
  have len: "length tab = 16" using assms(1) by (simp add: vfs_ok_def)
  then show i: "nat fd < length tab" using o by simp
  then show "rd tab (nat fd) = Some f" using o by simp
  show ok: "ramfs_ok fs" using assms(1) o(5) by (auto simp: vfs_ok_def)
  have "file_ok st f" using assms(1) o(3,4) i by (auto simp: vfs_ok_def)
  then have f: "f_node f < unat (node_count fs)" "unat (f_offset f) \<le> unat (v_size (nodes fs ! f_node f))"
    using o(5) by (auto simp: file_ok_def)
  then show "f_node f < unat (node_count fs)" by simp
  show "unat (f_offset f) \<le> length (content fs (f_node f))" "length (content fs (f_node f)) \<le> 256"
    using content_eq(2,3) [OF ok f(1)] f(2) by auto
  show "rd (nodes fs) (f_node f) = Some (nodes fs ! f_node f)" using extent_bounds(2) [OF ok f(1)] by simp
qed

text \<open>Initialisation closes every descriptor, so the invariant holds for any well-formed store.\<close>

lemma fd_table_init_closed:
  assumes "length tab = 16"
  shows "\<exists>tab'. mcs_fd_table_init tab = Some tab' \<and> length tab' = 16 \<and> (\<forall>f\<in>set tab'. \<not> f_used f)"
proof -
  let ?I = "\<lambda>i t. length t = 16 \<and> (\<forall>k<i. \<not> f_used (t ! k))"
  have "\<exists>t. mcs_fd_table_init tab = Some t \<and> ?I (0 + 16) t"
    unfolding mcs_fd_table_init_def
    by (rule for_up_rule [where I = ?I]) (use assms in \<open>auto simp: nth_list_update less_Suc_eq\<close>)
  then show ?thesis by (auto simp: in_set_conv_nth)
qed

lemma fd_table_init_ok:
  assumes "length tab = 16" "\<forall>a fs. st a = Some fs \<longrightarrow> ramfs_ok fs"
  shows "\<exists>tab'. mcs_fd_table_init tab = Some tab' \<and> vfs_ok tab' st"
  using fd_table_init_closed [OF assms(1)] assms(2) by (auto simp: vfs_ok_def)

section \<open>Reading and writing\<close>

lemma unat_min_size:
  "unat (if (a :: u64) < b then a else b) = min (unat b) (unat a)"
  by (simp add: word_less_nat_alt min_def)

lemma unat_data_pos:
  assumes "ramfs_ok fs" "i < unat (node_count fs)" "unat off \<le> 256"
  shows "unat (v_data_offset (nodes fs ! i) + off) = extent i + unat off"
proof -
  have "unat (v_data_offset (nodes fs ! i)) = extent i"
    using ramfs_node [OF assms(1,2)] by (cases "i = 0") (auto simp: node_ok_def extent_def)
  moreover have "extent i + 256 \<le> 8192"
    using extent_bounds(1) [OF assms(1,2)] ramfs_lengths(2) [OF assms(1)] by simp
  ultimately show ?thesis using assms(3) by (subst unat_add_lem [THEN iffD1]) auto
qed

lemma vfs_read_exact:
  assumes "vfs_ok tab st" "open_file tab st fd f fs" "unat sz \<le> length buffer"
  shows "mcs_vfs_read tab st fd buffer sz = Some
    (int (min (unat sz) (length (content fs (f_node f)) - unat (f_offset f))),
     tab[nat fd := f\<lparr>f_offset := f_offset f + of_nat (min (unat sz) (length (content fs (f_node f)) - unat (f_offset f)))\<rparr>],
     blit buffer 0 (take (unat sz) (drop (unat (f_offset f)) (content fs (f_node f)))))"
proof -
  note o = open_file_facts [OF assms(1,2)]
  let ?i = "f_node f" and ?off = "unat (f_offset f)"
  let ?node = "nodes fs ! ?i"
  let ?n = "if v_size ?node - f_offset f < sz then v_size ?node - f_offset f else sz"
  note c = content_eq [OF o(6,7)]
  have rem: "unat (v_size ?node - f_offset f) = length (content fs ?i) - ?off"
    using o(8) c(3) by (subst unat_sub) (auto simp: word_le_nat_alt)
  then have n: "unat ?n = min (unat sz) (length (content fs ?i) - ?off)" by (simp only: unat_min_size)
  have pos: "unat (v_data_offset ?node + f_offset f) = extent ?i + ?off"
    using o(8,9) by (intro unat_data_pos [OF o(6,7)]) simp
  have "get_data fs (v_data_offset ?node + f_offset f) buffer ?n =
      Some (blit buffer 0 (take (unat ?n) (drop (extent ?i + ?off) (fdata fs))))"
    using get_data_Some [of "v_data_offset ?node + f_offset f" ?n fs buffer] pos n assms(3) o(8,9)
      extent_bounds(1) [OF o(6,7)] ramfs_lengths(2) [OF o(6)] by simp
  moreover have "take (unat ?n) (drop (extent ?i + ?off) (fdata fs)) = take (unat sz) (drop ?off (content fs ?i))"
    unfolding c(1) n using c(3) by (simp add: drop_take c(1) add.commute)
  moreover have "sint ?n = int (unat ?n)" using n o(9) by (intro sint_small) simp
  moreover have "?n = of_nat (unat ?n)" by simp
  ultimately show ?thesis using o n by (simp add: mcs_vfs_read_def Let_def)
qed

lemma set_node_id: "set_node fs i off [] (v_size (nodes fs ! i)) = fs"
  by (simp add: set_node_def)

lemma write_at_nil: "off \<le> length c \<Longrightarrow> write_at c off [] = c"
  by (simp add: write_at_def)

lemma length_write_at: "off \<le> length c \<Longrightarrow> length (write_at c off bs) = max (length c) (off + length bs)"
  by (simp add: write_at_def max_def)

definition capacity :: "nat \<Rightarrow> nat" where
  "capacity i = (if i = 0 then 0 else 256)"

lemma vfs_write_run:
  assumes "vfs_ok tab st" "open_file tab st fd f fs" "unat sz \<le> length buffer" "unat sz < 2 ^ 63"
  shows "mcs_vfs_write tab st fd buffer sz =
    (if capacity (f_node f) < unat (f_offset f) + unat sz then Some (MCS_ENOSPC, tab, st)
     else Some (int (unat sz), tab[nat fd := f\<lparr>f_offset := f_offset f + sz\<rparr>],
       st(f_fs f \<mapsto> set_node fs (f_node f) (unat (f_offset f)) (take (unat sz) buffer)
         (if v_size (nodes fs ! f_node f) < f_offset f + sz then f_offset f + sz else v_size (nodes fs ! f_node f)))))"
proof -
  note o = open_file_facts [OF assms(1,2)]
  let ?i = "f_node f" and ?off = "unat (f_offset f)"
  let ?node = "nodes fs ! ?i"
  have off: "?off \<le> 256" using o(8,9) by simp
  have sum: "unat (f_offset f + sz) = ?off + unat sz"
    using off assms(4) by (intro unat_add_lem [THEN iffD1]) simp
  have cap: "unat (v_data_capacity ?node) = capacity ?i"
    using ramfs_node [OF o(6,7)] by (auto simp: node_ok_def capacity_def)
  have full: "v_data_capacity ?node < f_offset f + sz \<longleftrightarrow> capacity ?i < ?off + unat sz"
    by (simp add: word_less_nat_alt sum cap)
  show ?thesis
  proof (cases "capacity ?i < ?off + unat sz")
    case True
    then show ?thesis using o full by (simp add: mcs_vfs_write_def)
  next
    case False
    then have le: "?off + unat sz \<le> 256" by (auto simp: capacity_def split: if_splits)
    have pos: "unat (v_data_offset ?node + f_offset f) = extent ?i + ?off"
      by (rule unat_data_pos [OF o(6,7) off])
    have "put_data fs (v_data_offset ?node + f_offset f) buffer sz =
        Some (fs\<lparr>fdata := blit (fdata fs) (extent ?i + ?off) (take (unat sz) buffer)\<rparr>)"
      using put_data_Some [of "v_data_offset ?node + f_offset f" sz fs buffer] pos le assms(3)
        extent_bounds(1) [OF o(6,7)] ramfs_lengths(2) [OF o(6)] by simp
    moreover have "sint sz = int (unat sz)" by (rule sint_small [OF assms(4)])
    ultimately show ?thesis
      using o full False extent_bounds(2) [OF o(6,7)] by (simp add: mcs_vfs_write_def Let_def set_node_def)
  qed
qed

lemma vfs_write_effect:
  assumes "vfs_ok tab st" "open_file tab st fd f fs" "unat sz \<le> length buffer" "unat sz < 2 ^ 63"
    "unat (f_offset f) + unat sz \<le> capacity (f_node f)"
  shows "\<exists>fs'. mcs_vfs_write tab st fd buffer sz = Some (int (unat sz),
      tab[nat fd := f\<lparr>f_offset := f_offset f + sz\<rparr>], st(f_fs f \<mapsto> fs')) \<and> ramfs_ok fs' \<and>
    node_count fs' = node_count fs \<and> name_of fs' = name_of fs \<and>
    content fs' (f_node f) = write_at (content fs (f_node f)) (unat (f_offset f)) (take (unat sz) buffer) \<and>
    (\<forall>j<unat (node_count fs). j \<noteq> f_node f \<longrightarrow> content fs' j = content fs j)"
proof -
  note o = open_file_facts [OF assms(1,2)]
  let ?i = "f_node f" and ?off = "unat (f_offset f)" and ?bs = "take (unat sz) buffer"
  let ?sz = "if v_size (nodes fs ! ?i) < f_offset f + sz then f_offset f + sz else v_size (nodes fs ! ?i)"
  let ?fs = "set_node fs ?i ?off ?bs ?sz"
  have run: "mcs_vfs_write tab st fd buffer sz = Some (int (unat sz),
      tab[nat fd := f\<lparr>f_offset := f_offset f + sz\<rparr>], st(f_fs f \<mapsto> ?fs))"
    using vfs_write_run [OF assms(1-4)] assms(5) by (simp del: fun_upd_apply)
  have size: "unat (v_size (nodes fs ! ?i)) = length (content fs ?i)" using content_eq(3) [OF o(6,7)] by simp
  have sum: "unat (f_offset f + sz) = ?off + unat sz"
    using o(8,9) assms(4) by (intro unat_add_lem [THEN iffD1]) simp
  show ?thesis
  proof (cases "?i = 0")
    case True
    then have z: "?bs = []" "sz = 0" using assms(5) by (auto simp: capacity_def unat_eq_zero)
    have "\<not> v_size (nodes fs ! ?i) < f_offset f + sz" using z o(8) size by (simp add: word_less_nat_alt)
    then have "?fs = fs" using z set_node_id by simp
    then show ?thesis using run o(6,8) z(1) by (auto simp: write_at_nil)
  next
    case False
    have len: "?off + length ?bs \<le> 256" "?off \<le> unat (v_size (nodes fs ! ?i))" "0 < ?i"
      "unat ?sz = max (unat (v_size (nodes fs ! ?i))) (?off + length ?bs)"
      using False assms(3,5) o(8) size sum by (auto simp: capacity_def word_less_nat_alt)
    have "unat ?sz \<le> 256" using len(1,4) size o(9) by simp
    note ok = set_node_ok [OF o(6) len(3) o(7) len(1) this]
      and cont = set_node_content [OF o(6) len(3) o(7) len(1,2,4)]
    show ?thesis using run ok cont by (intro exI [of _ ?fs]) auto
  qed
qed

text \<open>Two ways to keep the invariant: a file system that only grows, and a changed descriptor.\<close>

lemma vfs_ok_store:
  assumes "vfs_ok tab st" "st a = Some fs" "ramfs_ok fs'" "unat (node_count fs) \<le> unat (node_count fs')"
    "\<forall>j<unat (node_count fs). length (content fs j) \<le> length (content fs' j)"
  shows "vfs_ok tab (st(a \<mapsto> fs'))"
proof -
  have ok: "ramfs_ok fs" using assms(1,2) by (auto simp: vfs_ok_def)
  have "unat (v_size (nodes fs ! j)) \<le> unat (v_size (nodes fs' ! j))" if "j < unat (node_count fs)" for j
    using mp [OF spec [OF assms(5)] that] assms(4) that content_eq(3) [OF ok that]
      content_eq(3) [OF assms(3), of j] by (metis order_less_le_trans)
  then have "file_ok (st(a \<mapsto> fs')) f" if "file_ok st f" for f
    using that assms(2,4) unfolding file_ok_def by (cases "f_fs f = a") fastforce+
  then show ?thesis using assms(1,3) by (auto simp: vfs_ok_def)
qed

lemma vfs_ok_fd:
  assumes "vfs_ok tab st" "f_used f \<longrightarrow> file_ok st f"
  shows "vfs_ok (tab[i := f]) st"
  using assms set_update_subset_insert [of tab i f] by (auto simp: vfs_ok_def)

lemma file_ok_iff:
  assumes "ramfs_ok fs" "st (f_fs f) = Some fs"
  shows "file_ok st f \<longleftrightarrow> f_node f < unat (node_count fs) \<and> unat (f_offset f) \<le> length (content fs (f_node f))"
  using assms content_eq(3) [OF assms(1)] by (auto simp: file_ok_def)

section \<open>Every call is defined and keeps the invariant\<close>

lemma fd_install_result:
  assumes "length tab = 16"
  shows "(\<forall>f\<in>set tab. f_used f) \<and> fd_install tab fs node flags = Some (MCS_ENFILE, tab) \<or>
    (\<exists>fd<16. \<not> f_used (tab ! fd) \<and> (\<forall>k<fd. f_used (tab ! k)) \<and>
      fd_install tab fs node flags = Some (int fd,
        tab[fd := \<lparr>f_flags = flags, f_offset = 0, f_node = node, f_fs = fs, f_used = True\<rparr>]))"
proof -
  let ?free = "find (\<lambda>i. \<not> f_used (tab ! i)) [0..<16]"
  have "scan (\<lambda>fd. do { f \<leftarrow> rd tab fd; Some (\<not> f_used f) }) 16 0 = Some ?free"
    using scan_find [of 0 16 "\<lambda>fd. do { f \<leftarrow> rd tab fd; Some (\<not> f_used f) }" "\<lambda>i. \<not> f_used (tab ! i)"] assms
    by simp
  then have run: "fd_install tab fs node flags = (case ?free of None \<Rightarrow> Some (MCS_ENFILE, tab)
      | Some fd \<Rightarrow> do { tab' \<leftarrow> wr tab fd \<lparr>f_flags = flags, f_offset = 0, f_node = node, f_fs = fs, f_used = True\<rparr>;
          Some (int fd, tab') })"
    by (simp add: fd_install_def del: fun_upd_apply)
  show ?thesis
  proof (cases ?free)
    case None
    then have "\<forall>f\<in>set tab. f_used f" using assms unfolding find_upt_None by (simp add: all_set_conv_all_nth)
    then show ?thesis using None run by simp
  next
    case (Some fd)
    then have "fd < 16 \<and> \<not> f_used (tab ! fd) \<and> (\<forall>k<fd. f_used (tab ! k))"
      unfolding find_upt_Some by simp
    then show ?thesis using Some run assms by auto
  qed
qed

lemma fd_install_ok:
  assumes "vfs_ok tab st" "st fs = Some fso" "node < unat (node_count fso)"
  shows "\<exists>r tab'. fd_install tab fs node flags = Some (r, tab') \<and> vfs_ok tab' st"
proof -
  have len: "length tab = 16" and ok: "ramfs_ok fso" using assms(1,2) by (auto simp: vfs_ok_def)
  let ?f = "\<lparr>f_flags = flags, f_offset = 0, f_node = node, f_fs = fs, f_used = True\<rparr>"
  have "file_ok st ?f" using assms(2,3) file_ok_iff [OF ok, of st ?f] by simp
  then have "vfs_ok (tab[fd := ?f]) st" for fd using vfs_ok_fd [OF assms(1), of ?f] by simp
  then show ?thesis using fd_install_result [OF len, of fs node flags] assms(1) by blast
qed

lemma vfs_open_ok:
  assumes "vfs_ok tab st" "st fs = Some fso" "is_cstr path" "length (cstr path) < 32"
  shows "\<exists>r tab' st'. mcs_vfs_open tab st fs path flags = Some (r, tab', st') \<and> vfs_ok tab' st'"
proof -
  have ok: "ramfs_ok fso" using assms(1,2) by (auto simp: vfs_ok_def)
  note look = lookup_find [OF ok assms(3)]
  show ?thesis
  proof (cases "find_node fso (cstr path)")
    case (Some node)
    then show ?thesis
      using look fd_install_ok [OF assms(1,2), of node flags] find_node_bound [of fso "cstr path" node] assms(2)
      by (auto simp: mcs_vfs_open_def)
  next
    case None
    show ?thesis
    proof (cases "flags AND MCS_O_CREAT = 0 \<or> unat (node_count fso) = 32")
      case True
      then show ?thesis using None look create_full [OF ok, of path] assms(1,2)
        by (auto simp: mcs_vfs_open_def fun_upd_idem)
    next
      case False
      then have room: "unat (node_count fso) < 32" using ramfs_lengths(3) [OF ok] by simp
      obtain f1 where f1: "mcs_ramfs_create_file fso path = Some (Some (unat (node_count fso)), f1)" "ramfs_ok f1"
        "unat (node_count f1) = Suc (unat (node_count fso))" "fdata f1 = fdata fso"
        "\<forall>i<unat (node_count fso). nodes f1 ! i = nodes fso ! i"
        using create_ok [OF ok room assms(3,4)] by blast
      have "vfs_ok tab (st(fs \<mapsto> f1))"
        using f1 by (intro vfs_ok_store [OF assms(1,2)]) (auto simp: content_def)
      then obtain r tab' where "fd_install tab fs (unat (node_count fso)) flags = Some (r, tab')"
        "vfs_ok tab' (st(fs \<mapsto> f1))"
        using fd_install_ok [of tab "st(fs \<mapsto> f1)" fs f1 "unat (node_count fso)" flags] f1(3) by auto
      then show ?thesis using None False look f1(1) assms(2) by (simp add: mcs_vfs_open_def del: fun_upd_apply)
    qed
  qed
qed

text \<open>A descriptor number either names an open file or is refused.\<close>

lemma fd_cases:
  assumes "vfs_ok tab st"
  obtains (bad) "bad_fd fd"
  | (unused) "\<not> bad_fd fd" "rd tab (nat fd) = Some (tab ! nat fd)" "\<not> f_used (tab ! nat fd)"
  | (opened) f fs where "open_file tab st fd f fs"
proof (cases "bad_fd fd")
  case False
  then have fd: "0 \<le> fd" "fd < 16" "nat fd < length tab" using assms by (auto simp: bad_fd_def vfs_ok_def)
  show thesis
  proof (cases "f_used (tab ! nat fd)")
    case True
    then have "file_ok st (tab ! nat fd)" using assms fd(3) by (auto simp: vfs_ok_def)
    then show thesis using opened True fd by (auto simp: open_file_def file_ok_def)
  qed (use unused False fd in auto)
qed (use bad in auto)

lemma vfs_read_ok:
  assumes "vfs_ok tab st" "unat sz \<le> length buffer"
  shows "\<exists>r tab' b. mcs_vfs_read tab st fd buffer sz = Some (r, tab', b) \<and> vfs_ok tab' st"
  using assms(1)
proof (cases rule: fd_cases [of tab st fd])
  case (opened f fs)
  note o = open_file_facts [OF assms(1) opened]
  let ?n = "min (unat sz) (length (content fs (f_node f)) - unat (f_offset f))"
  have "unat (f_offset f + of_nat ?n) = unat (f_offset f) + ?n" using o(8,9) by (intro unat_plus_of_nat) simp
  then have "file_ok st (f\<lparr>f_offset := f_offset f + of_nat ?n\<rparr>)"
    using o(5-9) file_ok_iff [OF o(6), of st "f\<lparr>f_offset := f_offset f + of_nat ?n\<rparr>"] by simp
  then show ?thesis using vfs_read_exact [OF assms(1) opened assms(2)] vfs_ok_fd [OF assms(1)] by auto
qed (use assms in \<open>auto simp: mcs_vfs_read_def\<close>)

lemma vfs_write_ok:
  assumes "vfs_ok tab st" "unat sz \<le> length buffer" "unat sz < 2 ^ 63"
  shows "\<exists>r tab' st'. mcs_vfs_write tab st fd buffer sz = Some (r, tab', st') \<and> vfs_ok tab' st'"
  using assms(1)
proof (cases rule: fd_cases [of tab st fd])
  case (opened f fs)
  note o = open_file_facts [OF assms(1) opened]
  show ?thesis
  proof (cases "unat (f_offset f) + unat sz \<le> capacity (f_node f)")
    case False
    then show ?thesis using vfs_write_run [OF assms(1) opened assms(2,3)] assms(1) by simp
  next
    case True
    obtain fs' where w: "mcs_vfs_write tab st fd buffer sz = Some (int (unat sz),
        tab[nat fd := f\<lparr>f_offset := f_offset f + sz\<rparr>], st(f_fs f \<mapsto> fs'))" "ramfs_ok fs'"
      "node_count fs' = node_count fs"
      "content fs' (f_node f) = write_at (content fs (f_node f)) (unat (f_offset f)) (take (unat sz) buffer)"
      "\<forall>j<unat (node_count fs). j \<noteq> f_node f \<longrightarrow> content fs' j = content fs j"
      using vfs_write_effect [OF assms(1) opened assms(2,3) True] by blast
    have len: "length (content fs' (f_node f)) = max (length (content fs (f_node f))) (unat (f_offset f) + unat sz)"
      using w(4) o(8) assms(2) by (simp add: length_write_at)
    then have "length (content fs j) \<le> length (content fs' j)" if "j < unat (node_count fs)" for j
      using w(5) that by (cases "j = f_node f") auto
    then have "vfs_ok tab (st(f_fs f \<mapsto> fs'))"
      using w(2,3) by (intro vfs_ok_store [OF assms(1) o(5)]) auto
    moreover have "unat (f_offset f + sz) = unat (f_offset f) + unat sz"
      using o(8,9) assms(3) by (intro unat_add_lem [THEN iffD1]) simp
    then have "file_ok (st(f_fs f \<mapsto> fs')) (f\<lparr>f_offset := f_offset f + sz\<rparr>)"
      using len w(2,3) o(7) file_ok_iff [OF w(2), of "st(f_fs f \<mapsto> fs')" "f\<lparr>f_offset := f_offset f + sz\<rparr>"]
      by simp
    ultimately show ?thesis using w(1) vfs_ok_fd by (auto simp del: fun_upd_apply)
  qed
qed (use assms in \<open>auto simp: mcs_vfs_write_def\<close>)

lemma vfs_lseek_ok:
  assumes "vfs_ok tab st"
  shows "\<exists>r tab'. mcs_vfs_lseek tab st fd offset whence = Some (r, tab') \<and> vfs_ok tab' st"
  using assms
proof (cases rule: fd_cases [of tab st fd])
  case (opened f fs)
  note o = open_file_facts [OF assms opened]
  have "vfs_ok (tab[nat fd := f\<lparr>f_offset := x\<rparr>]) st" if "\<not> v_size (nodes fs ! f_node f) < x" for x
    using that o(5-7) file_ok_iff [OF o(6), of st "f\<lparr>f_offset := x\<rparr>"] content_eq(3) [OF o(6,7)]
    by (intro vfs_ok_fd [OF assms]) (auto simp: word_less_nat_alt)
  then show ?thesis using o assms by (auto simp: mcs_vfs_lseek_def Let_def)
qed (use assms in \<open>auto simp: mcs_vfs_lseek_def\<close>)

lemma vfs_close_ok:
  assumes "vfs_ok tab st"
  shows "\<exists>r tab'. mcs_vfs_close tab fd = Some (r, tab') \<and> vfs_ok tab' st"
proof (cases "bad_fd fd")
  case False
  then have "nat fd < length tab" using assms by (auto simp: bad_fd_def vfs_ok_def)
  then show ?thesis using False vfs_ok_fd [OF assms] by (auto simp: mcs_vfs_close_def)
qed (use assms in \<open>auto simp: mcs_vfs_close_def\<close>)

section \<open>Properties\<close>

text \<open>
  C30. Safety of the file layer: in a state where every open descriptor is inside its file, every
  call has a defined result and leads to such a state again, for any descriptor number, flags,
  offset and whence; the caller only has to pass terminated paths of at most 31 characters and
  buffers that are as long as their size says and shorter than 2^63 bytes.
\<close>

theorem vfs_calls_safe:
  assumes "vfs_ok tab st"
  shows "(st fs \<noteq> None \<and> is_cstr path \<and> length (cstr path) < 32 \<longrightarrow>
      (\<exists>r tab' st'. mcs_vfs_open tab st fs path flags = Some (r, tab', st') \<and> vfs_ok tab' st')) \<and>
    (unat sz \<le> length buffer \<longrightarrow>
      (\<exists>r tab' b. mcs_vfs_read tab st fd buffer sz = Some (r, tab', b) \<and> vfs_ok tab' st)) \<and>
    (unat sz \<le> length buffer \<and> unat sz < 2 ^ 63 \<longrightarrow>
      (\<exists>r tab' st'. mcs_vfs_write tab st fd buffer sz = Some (r, tab', st') \<and> vfs_ok tab' st')) \<and>
    (\<exists>r tab'. mcs_vfs_lseek tab st fd offset whence = Some (r, tab') \<and> vfs_ok tab' st) \<and>
    (\<exists>r tab'. mcs_vfs_close tab fd = Some (r, tab') \<and> vfs_ok tab' st)"
  using assms vfs_open_ok [OF assms, of fs _ path flags] vfs_read_ok [OF assms] vfs_write_ok [OF assms]
    vfs_lseek_ok [OF assms] vfs_close_ok [OF assms] by blast

definition no_files :: mcs_fd_table where
  "no_files = replicate 16 \<lparr>f_flags = 0, f_offset = 0, f_node = 0, f_fs = 0, f_used = False\<rparr>"

definition one_fs :: fs_store where
  "one_fs = [0x1000 \<mapsto> empty_ramfs]"

lemma no_files_ok: "vfs_ok no_files one_fs"
  using empty_ramfs_ok by (auto simp: vfs_ok_def no_files_def one_fs_def)

theorem vfs_calls_safe_witness:
  "\<exists>r tab' st'. mcs_vfs_open no_files one_fs 0x1000 [0x61, 0] MCS_O_CREAT = Some (r, tab', st') \<and> vfs_ok tab' st'"
proof -
  have "one_fs 0x1000 \<noteq> None \<and> is_cstr [0x61, 0] \<and> length (cstr [0x61, 0]) < 32"
    by (simp add: one_fs_def)
  then show ?thesis
    using vfs_calls_safe [OF no_files_ok, of "0x1000" "[0x61, 0]" MCS_O_CREAT 0 "[]" 0 0 0] by blast
qed

text \<open>
  Writing through a descriptor: a write is refused with \<open>MCS_ENOSPC\<close>, without effect, exactly
  if it would pass the capacity of the file. Otherwise it returns the size, the file content is the
  old one with the bytes laid over it at the offset, no other file changes, and seeking back to the
  old offset and reading delivers the bytes that were written.
\<close>

lemma vfs_write_read_back:
  assumes "vfs_ok tab st" "open_file tab st fd f fs" "unat sz \<le> length buffer" "unat sz < 2 ^ 63"
    "unat sz \<le> length dst"
  shows "if capacity (f_node f) < unat (f_offset f) + unat sz
    then mcs_vfs_write tab st fd buffer sz = Some (MCS_ENOSPC, tab, st)
    else \<exists>t1 t2 t3 s1 fs'. mcs_vfs_write tab st fd buffer sz = Some (int (unat sz), t1, s1) \<and>
      s1 = st(f_fs f \<mapsto> fs') \<and> name_of fs' = name_of fs \<and>
      content fs' (f_node f) = write_at (content fs (f_node f)) (unat (f_offset f)) (take (unat sz) buffer) \<and>
      (\<forall>j<unat (node_count fs). j \<noteq> f_node f \<longrightarrow> content fs' j = content fs j) \<and>
      mcs_vfs_lseek t1 s1 fd (f_offset f) MCS_SEEK_SET = Some (int (unat (f_offset f)), t2) \<and>
      mcs_vfs_read t2 s1 fd dst sz = Some (int (unat sz), t3, blit dst 0 (take (unat sz) buffer))"
proof (cases "capacity (f_node f) < unat (f_offset f) + unat sz")
  case True
  then show ?thesis using vfs_write_run [OF assms(1-4)] by simp
next
  case False
  note o = open_file_facts [OF assms(1,2)]
  let ?i = "f_node f" and ?off = "unat (f_offset f)" and ?bs = "take (unat sz) buffer"
  let ?t1 = "tab[nat fd := f\<lparr>f_offset := f_offset f + sz\<rparr>]"
  obtain fs' where w: "mcs_vfs_write tab st fd buffer sz = Some (int (unat sz), ?t1, st(f_fs f \<mapsto> fs'))"
    "ramfs_ok fs'" "node_count fs' = node_count fs" "name_of fs' = name_of fs"
    "content fs' ?i = write_at (content fs ?i) ?off ?bs"
    "\<forall>j<unat (node_count fs). j \<noteq> ?i \<longrightarrow> content fs' j = content fs j"
    using vfs_write_effect [OF assms(1-4)] False by auto
  let ?s = "st(f_fs f \<mapsto> fs')"
  have ok1: "vfs_ok ?t1 ?s" using vfs_write_ok [OF assms(1,3,4), of fd] w(1) by (simp del: fun_upd_apply)
  have len: "length (content fs' ?i) = max (length (content fs ?i)) (?off + unat sz)"
    using w(5) o(8) assms(3) by (simp add: length_write_at)
  have i: "?i < unat (node_count fs')" using o(7) w(3) by simp
  note c' = content_eq [OF w(2) i]
  let ?f = "f\<lparr>f_offset := f_offset f\<rparr>" and ?t2 = "?t1[nat fd := f]"
  have "\<not> v_size (nodes fs' ! ?i) < f_offset f" using c'(3) len o(8) by (simp add: word_less_nat_alt)
  moreover have "sint (f_offset f) = int ?off" using o(8,9) by (intro sint_small) simp
  ultimately have seek: "mcs_vfs_lseek ?t1 ?s fd (f_offset f) MCS_SEEK_SET = Some (int ?off, ?t2)"
    using o extent_bounds(2) [OF w(2) i] by (simp add: mcs_vfs_lseek_def Let_def)
  have ok2: "vfs_ok ?t2 ?s"
    using vfs_lseek_ok [OF ok1, of fd "f_offset f" MCS_SEEK_SET] seek by (simp del: list_update_overwrite fun_upd_apply)
  have op: "open_file ?t2 ?s fd f fs'" using assms(2) o(3) by (auto simp: open_file_def)
  have "take (unat sz) (drop ?off (content fs' ?i)) = ?bs"
    using w(5) o(8) assms(3) by (simp add: write_at_def min_def)
  moreover have "min (unat sz) (length (content fs' ?i) - ?off) = unat sz" using len by simp
  ultimately have "\<exists>t3. mcs_vfs_read ?t2 ?s fd dst sz = Some (int (unat sz), t3, blit dst 0 ?bs)"
    using vfs_read_exact [OF ok2 op assms(5)] by (simp del: list_update_overwrite fun_upd_apply)
  then show ?thesis using False w seek by (auto simp del: fun_upd_apply)
qed

lemma first_open:
  "\<exists>tab st f fs. mcs_vfs_open no_files one_fs 0x1000 [0x61, 0] MCS_O_CREAT = Some (0, tab, st) \<and>
     vfs_ok tab st \<and> open_file tab st 0 f fs \<and> f_node f = 1 \<and> f_offset f = 0 \<and> content fs 1 = []"
proof -
  let ?f = "\<lparr>f_flags = MCS_O_CREAT, f_offset = 0, f_node = 1, f_fs = 0x1000, f_used = True\<rparr>"
  obtain fs where fs: "mcs_ramfs_create_file empty_ramfs [0x61, 0] = Some (Some 1, fs)" "content fs 1 = []"
    using create_ok [OF empty_ramfs_ok, of "[0x61, 0]"] by (auto simp: empty_ramfs_count)
  have "find_node empty_ramfs [0x61] = None"
    by (simp add: find_node_def empty_ramfs_count name_of_def) (simp add: empty_ramfs_def cstr_def)
  then have look: "mcs_ramfs_lookup empty_ramfs [0x61, 0] = Some None"
    using lookup_find [OF empty_ramfs_ok, of "[0x61, 0]"] by simp
  have nf: "length no_files = 16" "\<not> f_used (no_files ! 0)" "\<not> (\<forall>f\<in>set no_files. f_used f)"
    by (simp_all add: no_files_def)
  then obtain fd where fd: "\<forall>k<fd. f_used (no_files ! k)"
    "fd_install no_files 0x1000 1 MCS_O_CREAT = Some (int fd, no_files[fd := ?f])"
    using fd_install_result [of no_files "0x1000" 1 MCS_O_CREAT] by blast
  have "fd = 0" using fd(1) nf(2) by (metis gr0I)
  with fd(2) have "fd_install no_files 0x1000 1 MCS_O_CREAT = Some (0, no_files[0 := ?f])" by simp
  then have run: "mcs_vfs_open no_files one_fs 0x1000 [0x61, 0] MCS_O_CREAT =
      Some (0, no_files[0 := ?f], one_fs(0x1000 \<mapsto> fs))"
    using look fs(1) by (simp add: mcs_vfs_open_def one_fs_def)
  moreover have "vfs_ok (no_files[0 := ?f]) (one_fs(0x1000 \<mapsto> fs))"
    using vfs_open_ok [OF no_files_ok, of "0x1000" empty_ramfs "[0x61, 0]" MCS_O_CREAT] run
    by (simp add: one_fs_def)
  moreover have "open_file (no_files[0 := ?f]) (one_fs(0x1000 \<mapsto> fs)) 0 ?f fs"
    by (simp add: open_file_def no_files_def)
  ultimately show ?thesis using fs(2) by (intro exI conjI) auto
qed

lemma vfs_write_read_back_example:
  "\<exists>tab st t1 s1. mcs_vfs_open no_files one_fs 0x1000 [0x61, 0] MCS_O_CREAT = Some (0, tab, st) \<and>
     mcs_vfs_write tab st 0 [1, 2, 3] 3 = Some (3, t1, s1)"
proof -
  obtain tab st f fs where o: "mcs_vfs_open no_files one_fs 0x1000 [0x61, 0] MCS_O_CREAT = Some (0, tab, st)"
    "vfs_ok tab st" "open_file tab st 0 f fs" "f_node f = 1" "f_offset f = 0"
    using first_open by blast
  from vfs_write_read_back [OF o(2,3), of 3 "[1, 2, 3]" "[0, 0, 0]"] o show ?thesis
    by (auto simp: capacity_def)
qed

text \<open>
  Opening: an existing path gets the lowest free descriptor at offset 0 on its node and nothing
  else changes; a missing path without \<open>MCS_O_CREAT\<close> gives \<open>MCS_ENOENT\<close> without effect; with it a
  new file is created while there is room. When no descriptor is free the result is
  \<open>MCS_ENFILE\<close>, but a file that had to be created stays.
\<close>

lemma vfs_open_exact:
  assumes "vfs_ok tab st" "st fs = Some fso" "is_cstr path" "length (cstr path) < 32"
    "mcs_vfs_open tab st fs path flags = Some (r, tab', st')"
  shows "(case find_node fso (cstr path) of
      Some node \<Rightarrow> st' = st \<and> fd_install tab fs node flags = Some (r, tab')
    | None \<Rightarrow>
        if flags AND MCS_O_CREAT = 0 then r = MCS_ENOENT \<and> tab' = tab \<and> st' = st
        else if unat (node_count fso) = 32 then r = MCS_ENOSPC \<and> tab' = tab \<and> st' = st
        else (\<exists>fso'. st' = st(fs \<mapsto> fso') \<and> find_node fso' = (find_node fso)(cstr path \<mapsto> unat (node_count fso)) \<and>
               fd_install tab fs (unat (node_count fso)) flags = Some (r, tab'))) \<and>
    (r = MCS_ENFILE \<longleftrightarrow> r \<noteq> MCS_ENOENT \<and> r \<noteq> MCS_ENOSPC \<and> (\<forall>f\<in>set tab. f_used f))"
proof -
  have ok: "ramfs_ok fso" and len: "length tab = 16" using assms(1,2) by (auto simp: vfs_ok_def)
  note look = lookup_find [OF ok assms(3)]
  have enfile: "r = MCS_ENFILE \<longleftrightarrow> r \<noteq> MCS_ENOENT \<and> r \<noteq> MCS_ENOSPC \<and> (\<forall>f\<in>set tab. f_used f)"
    if "fd_install tab fs n flags = Some (r, tab')" for n
    using that fd_install_result [OF len, of fs n flags] len by (auto simp: all_set_conv_all_nth)
  show ?thesis
  proof (cases "find_node fso (cstr path)")
    case (Some node)
    then have "st' = st" "fd_install tab fs node flags = Some (r, tab')"
      using assms(2,5) look by (auto simp: mcs_vfs_open_def split: bind_splits)
    then show ?thesis using Some enfile by simp
  next
    case None
    consider (enoent) "flags AND MCS_O_CREAT = 0" | (full) "flags AND MCS_O_CREAT \<noteq> 0" "unat (node_count fso) = 32"
      | (make) "flags AND MCS_O_CREAT \<noteq> 0" "unat (node_count fso) < 32"
      using ramfs_lengths(3) [OF ok] by fastforce
    then show ?thesis
    proof cases
      case enoent
      then show ?thesis using None assms(2,5) look by (simp add: mcs_vfs_open_def)
    next
      case full
      then have "r = MCS_ENOSPC \<and> tab' = tab \<and> st' = st"
        using None assms(2,5) look create_full [OF ok full(2), of path]
        by (auto simp: mcs_vfs_open_def fun_upd_idem)
      then show ?thesis using None full by simp
    next
      case make
      obtain f1 where f1: "mcs_ramfs_create_file fso path = Some (Some (unat (node_count fso)), f1)"
        "unat (node_count f1) = Suc (unat (node_count fso))" "name_of f1 (unat (node_count fso)) = cstr path"
        "\<forall>i<unat (node_count fso). nodes f1 ! i = nodes fso ! i"
        using create_ok [OF ok make(2) assms(3,4)] by blast
      have "st' = st(fs \<mapsto> f1)" "fd_install tab fs (unat (node_count fso)) flags = Some (r, tab')"
        using None assms(2,5) look make(1) f1(1) by (auto simp: mcs_vfs_open_def split: bind_splits)
      moreover have "find_node f1 = (find_node fso)(cstr path \<mapsto> unat (node_count fso))"
        using find_node_append [OF f1(2,3)] f1(4) None by (simp add: name_of_def)
      ultimately show ?thesis using None make enfile by auto
    qed
  qed
qed

lemma vfs_open_exact_example:
  "\<exists>tab st. mcs_vfs_open no_files one_fs 0x1000 [0x61, 0] MCS_O_CREAT = Some (0, tab, st) \<and>
     (\<exists>fso'. st = one_fs(0x1000 \<mapsto> fso') \<and> find_node fso' [0x61] = Some 1)"
proof -
  obtain tab st where o: "mcs_vfs_open no_files one_fs 0x1000 [0x61, 0] MCS_O_CREAT = Some (0, tab, st)"
    using first_open by blast
  have "find_node empty_ramfs (cstr [0x61, 0]) = None"
    by (simp add: find_node_def empty_ramfs_count name_of_def) (simp add: empty_ramfs_def cstr_def)
  moreover have "one_fs 0x1000 = Some empty_ramfs" by (simp add: one_fs_def)
  ultimately show ?thesis
    using vfs_open_exact [OF no_files_ok _ _ _ o, of empty_ramfs] o by (auto simp: empty_ramfs_count)
qed

text \<open>
  Descriptors that are not open: after \<open>mcs_vfs_close\<close> of any descriptor number in range, read,
  write and seek on it give \<open>MCS_EBADF\<close> and change nothing, as they do for numbers out of range.
  Closing a descriptor that is not open also reports success.
\<close>

lemma vfs_closed_refused:
  assumes "length tab = 16" "0 \<le> fd" "fd < 16"
  shows "\<exists>tab'. mcs_vfs_close tab fd = Some (MCS_OK, tab') \<and>
    mcs_vfs_read tab' st fd buffer sz = Some (MCS_EBADF, tab', buffer) \<and>
    mcs_vfs_write tab' st fd buffer sz = Some (MCS_EBADF, tab', st) \<and>
    mcs_vfs_lseek tab' st fd offset whence = Some (MCS_EBADF, tab') \<and>
    mcs_vfs_close tab' fd = Some (MCS_OK, tab') \<and> (\<forall>i. int i \<noteq> fd \<longrightarrow> tab' ! i = tab ! i)"
proof -
  let ?tab = "tab[nat fd := (tab ! nat fd)\<lparr>f_used := False\<rparr>]"
  have fd: "\<not> bad_fd fd" "nat fd < length tab" using assms by (auto simp: bad_fd_def)
  have "mcs_vfs_close tab fd = Some (MCS_OK, ?tab)" using fd by (simp add: mcs_vfs_close_def)
  moreover have "rd ?tab (nat fd) = Some ((tab ! nat fd)\<lparr>f_used := False\<rparr>)" using fd by simp
  moreover have "mcs_vfs_close ?tab fd = Some (MCS_OK, ?tab)" using fd by (simp add: mcs_vfs_close_def)
  moreover have "\<forall>i. int i \<noteq> fd \<longrightarrow> ?tab ! i = tab ! i"
    using assms(2) by (auto intro!: nth_list_update_neq)
  ultimately show ?thesis
    using fd by (intro exI [of _ ?tab]) (simp add: mcs_vfs_read_def mcs_vfs_write_def mcs_vfs_lseek_def)
qed

lemma vfs_closed_refused_example:
  "\<exists>tab'. mcs_vfs_close no_files 3 = Some (MCS_OK, tab') \<and> mcs_vfs_write tab' one_fs 3 [1] 1 = Some (MCS_EBADF, tab', one_fs)"
  using vfs_closed_refused [of no_files 3 one_fs "[1]" 1 0 0] by (auto simp: no_files_def)

text \<open>
  C31. The capacity test of \<open>mcs_vfs_write\<close> is computed modulo 2^64: when the offset plus the size
  passes 2^64 and wraps to at most the capacity, the write is accepted and runs outside of the buffer,
  for every buffer shorter than 2^63 bytes.
\<close>

theorem vfs_write_wraps:
  assumes "vfs_ok tab st" "open_file tab st fd f fs" "length buffer < 2 ^ 63"
    "2 ^ 64 \<le> unat (f_offset f) + unat sz" "unat (f_offset f) + unat sz - 2 ^ 64 \<le> capacity (f_node f)"
  shows "mcs_vfs_write tab st fd buffer sz = None"
proof -
  note o = open_file_facts [OF assms(1,2)]
  let ?node = "nodes fs ! f_node f"
  have cap: "unat (v_data_capacity ?node) = capacity (f_node f)"
    using ramfs_node [OF o(6,7)] by (auto simp: node_ok_def capacity_def)
  have "unat (f_offset f + sz) = (unat (f_offset f) + unat sz) mod 2 ^ 64" by (simp add: unat_word_ariths)
  also have "\<dots> = unat (f_offset f) + unat sz - 2 ^ 64"
    using assms(4) unat_less_64 [of "f_offset f"] unat_less_64 [of sz] by (simp add: le_mod_geq)
  finally have "\<not> v_data_capacity ?node < f_offset f + sz"
    using assms(5) cap by (simp add: word_less_nat_alt)
  moreover have "length buffer < unat sz" using assms(3,4) o(8,9) by simp
  then have "put_data fs (v_data_offset ?node + f_offset f) buffer sz = None" by (rule put_data_None)
  ultimately show ?thesis using o by (simp add: mcs_vfs_write_def)
qed

theorem vfs_write_wraps_witness:
  "\<exists>tab st t1 s1. mcs_vfs_open no_files one_fs 0x1000 [0x61, 0] MCS_O_CREAT = Some (0, tab, st) \<and>
     mcs_vfs_write tab st 0 [7] 1 = Some (1, t1, s1) \<and> mcs_vfs_write t1 s1 0 [7] 0xffffffffffffffff = None"
proof -
  obtain tab st f fs where o: "mcs_vfs_open no_files one_fs 0x1000 [0x61, 0] MCS_O_CREAT = Some (0, tab, st)"
    "vfs_ok tab st" "open_file tab st 0 f fs" "f_node f = 1" "f_offset f = 0"
    using first_open by blast
  obtain fs' where w: "mcs_vfs_write tab st 0 [7] 1 = Some (1, tab[0 := f\<lparr>f_offset := 1\<rparr>], st(f_fs f \<mapsto> fs'))"
    using vfs_write_effect [OF o(2,3), of 1 "[7]"] o(4,5) by (auto simp: capacity_def)
  let ?t = "tab[0 := f\<lparr>f_offset := 1\<rparr>]" and ?s = "st(f_fs f \<mapsto> fs')"
  have "vfs_ok ?t ?s" using vfs_write_ok [OF o(2), of 1 "[7]" 0] w by auto
  moreover have "open_file ?t ?s 0 (f\<lparr>f_offset := 1\<rparr>) fs'"
    using o(3) open_file_facts(3) [OF o(2,3)] by (auto simp: open_file_def)
  ultimately have "mcs_vfs_write ?t ?s 0 [7] 0xffffffffffffffff = None"
    by (rule vfs_write_wraps) (simp_all add: capacity_def o(4))
  then show ?thesis using o(1) w by blast
qed

end
