(* ===== verification/Vfs_Spec.thy ===== *)
theory Vfs_Spec
  imports Vfs Refinement
begin

text \<open>
  What the file layer promises, without its tables: an abstract file layer of named byte strings and
  descriptors, and the proof that \<open>Vfs\<close> over \<open>Ramfs\<close> implements it. The abstract layer knows nothing of nodes,
  extents, offsets into the data area, name fields or addresses.
\<close>

section \<open>Abstract file layer\<close>

text \<open>
  The files are numbered in the order of their creation, file 0 is the root directory, which holds no
  data. An open descriptor is a file number and a position.
\<close>

record file_layer =
  files :: "(u8 list \<times> u8 list) list"
  fds :: "(nat \<times> nat) option list"

definition file_no :: "file_layer \<Rightarrow> u8 list \<Rightarrow> nat option" where
  "file_no s name = find (\<lambda>i. fst (files s ! i) = name) [0..<length (files s)]"

definition spec_install :: "file_layer \<Rightarrow> nat \<Rightarrow> int \<times> file_layer" where
  "spec_install s i = (case find (\<lambda>d. fds s ! d = None) [0..<16] of
     None \<Rightarrow> (MCS_ENFILE, s)
   | Some d \<Rightarrow> (int d, s\<lparr>fds := (fds s)[d := Some (i, 0)]\<rparr>))"

definition spec_open :: "file_layer \<Rightarrow> u8 list \<Rightarrow> bool \<Rightarrow> int \<times> file_layer" where
  "spec_open s name creat = (case file_no s name of
     Some i \<Rightarrow> spec_install s i
   | None \<Rightarrow>
       if \<not> creat then (MCS_ENOENT, s)
       else if length (files s) = 32 then (MCS_ENOSPC, s)
       else spec_install (s\<lparr>files := files s @ [(name, [])]\<rparr>) (length (files s)))"

definition spec_fd :: "file_layer \<Rightarrow> int \<Rightarrow> (nat \<times> nat) option" where
  "spec_fd s fd = (if 0 \<le> fd \<and> fd < 16 then fds s ! nat fd else None)"

definition spec_read :: "file_layer \<Rightarrow> int \<Rightarrow> u8 list \<Rightarrow> nat \<Rightarrow> (int \<times> u8 list) \<times> file_layer" where
  "spec_read s fd buffer n = (case spec_fd s fd of
     None \<Rightarrow> ((MCS_EBADF, buffer), s)
   | Some (i, off) \<Rightarrow>
       let bs = take n (drop off (snd (files s ! i)))
       in ((int (length bs), blit buffer 0 bs), s\<lparr>fds := (fds s)[nat fd := Some (i, off + length bs)]\<rparr>))"

definition spec_write :: "file_layer \<Rightarrow> int \<Rightarrow> u8 list \<Rightarrow> int \<times> file_layer" where
  "spec_write s fd bs = (case spec_fd s fd of
     None \<Rightarrow> (MCS_EBADF, s)
   | Some (i, off) \<Rightarrow>
       if (if i = 0 then 0 else 256) < off + length bs then (MCS_ENOSPC, s)
       else (int (length bs),
         s\<lparr>files := (files s)[i := (fst (files s ! i), write_at (snd (files s ! i)) off bs)],
           fds := (fds s)[nat fd := Some (i, off + length bs)]\<rparr>))"

text \<open>Positions are computed modulo 2^64, so that a large offset moves backwards.\<close>

definition spec_seek :: "file_layer \<Rightarrow> int \<Rightarrow> nat \<Rightarrow> int \<Rightarrow> int \<times> file_layer" where
  "spec_seek s fd n whence = (case spec_fd s fd of
     None \<Rightarrow> (MCS_EBADF, s)
   | Some (i, off) \<Rightarrow>
       let size = length (snd (files s ! i));
           base = (if whence = 0 then Some 0 else if whence = 1 then Some off else if whence = 2 then Some size else None)
       in (case base of
             None \<Rightarrow> (MCS_EINVAL, s)
           | Some b \<Rightarrow>
               let p = (b + n) mod 2 ^ 64
               in if size < p then (MCS_EINVAL, s) else (int p, s\<lparr>fds := (fds s)[nat fd := Some (i, p)]\<rparr>)))"

definition spec_close :: "file_layer \<Rightarrow> int \<Rightarrow> int \<times> file_layer" where
  "spec_close s fd =
     (if 0 \<le> fd \<and> fd < 16 then (MCS_OK, s\<lparr>fds := (fds s)[nat fd := None]\<rparr>) else (MCS_EBADF, s))"

section \<open>Calls\<close>

datatype vfs_call =
    Open "u8 list" u32
  | Read int "u8 list" u64
  | Write int "u8 list" u64
  | Seek int u64 int
  | Close int

text \<open>A call on the file system at address \<open>a\<close>; its result is the return value and the buffer of a read.\<close>

fun vfs_exec :: "u64 \<Rightarrow> vfs_call \<Rightarrow> mcs_fd_table \<times> fs_store \<Rightarrow> ((int \<times> u8 list) \<times> mcs_fd_table \<times> fs_store) option" where
  "vfs_exec a (Open path flags) (tab, st) = do {
     (r, tab', st') \<leftarrow> mcs_vfs_open tab st a path flags; Some ((r, []), tab', st') }"
| "vfs_exec a (Read fd buffer sz) (tab, st) = do {
     (r, tab', b) \<leftarrow> mcs_vfs_read tab st fd buffer sz; Some ((r, b), tab', st) }"
| "vfs_exec a (Write fd buffer sz) (tab, st) = do {
     (r, tab', st') \<leftarrow> mcs_vfs_write tab st fd buffer sz; Some ((r, []), tab', st') }"
| "vfs_exec a (Seek fd offset whence) (tab, st) = do {
     (r, tab') \<leftarrow> mcs_vfs_lseek tab st fd offset whence; Some ((r, []), tab', st) }"
| "vfs_exec a (Close fd) (tab, st) = do {
     (r, tab') \<leftarrow> mcs_vfs_close tab fd; Some ((r, []), tab', st) }"

fun spec_exec :: "vfs_call \<Rightarrow> file_layer \<Rightarrow> (int \<times> u8 list) \<times> file_layer" where
  "spec_exec (Open path flags) s = (let (r, s') = spec_open s (cstr path) (flags AND MCS_O_CREAT \<noteq> 0) in ((r, []), s'))"
| "spec_exec (Read fd buffer sz) s = spec_read s fd buffer (unat sz)"
| "spec_exec (Write fd buffer sz) s = (let (r, s') = spec_write s fd (take (unat sz) buffer) in ((r, []), s'))"
| "spec_exec (Seek fd offset whence) s = (let (r, s') = spec_seek s fd (unat offset) whence in ((r, []), s'))"
| "spec_exec (Close fd) s = (let (r, s') = spec_close s fd in ((r, []), s'))"

text \<open>What a caller owes: terminated paths of at most 31 characters, buffers as long as their size says.\<close>

fun call_ok :: "vfs_call \<Rightarrow> bool" where
  "call_ok (Open path flags) \<longleftrightarrow> is_cstr path \<and> length (cstr path) < 32"
| "call_ok (Read fd buffer sz) \<longleftrightarrow> unat sz \<le> length buffer"
| "call_ok (Write fd buffer sz) \<longleftrightarrow> unat sz \<le> length buffer \<and> unat sz < 2 ^ 63"
| "call_ok _ \<longleftrightarrow> True"

abbreviation vfs_run :: "u64 \<Rightarrow> vfs_call list \<Rightarrow> mcs_fd_table \<times> fs_store \<Rightarrow>
    ((int \<times> u8 list) list \<times> mcs_fd_table \<times> fs_store) option" where
  "vfs_run a \<equiv> run_calls (vfs_exec a)"

abbreviation spec_run :: "vfs_call list \<Rightarrow> file_layer \<Rightarrow> (int \<times> u8 list) list \<times> file_layer" where
  "spec_run \<equiv> run_spec spec_exec"

section \<open>Simulation\<close>

definition abs_fd :: "mcs_file \<Rightarrow> (nat \<times> nat) option" where
  "abs_fd f = (if f_used f then Some (f_node f, unat (f_offset f)) else None)"

definition abs_files :: "mcs_ramfs \<Rightarrow> (u8 list \<times> u8 list) list" where
  "abs_files fs = map (\<lambda>i. (name_of fs i, content fs i)) [0..<unat (node_count fs)]"

definition abs_layer :: "mcs_fd_table \<Rightarrow> mcs_ramfs \<Rightarrow> file_layer" where
  "abs_layer tab fs = \<lparr>files = abs_files fs, fds = map abs_fd tab\<rparr>"

definition sim :: "u64 \<Rightarrow> mcs_fd_table \<times> fs_store \<Rightarrow> file_layer \<Rightarrow> bool" where
  "sim a = (\<lambda>(tab, st) s. vfs_ok tab st \<and> (\<forall>f\<in>set tab. f_used f \<longrightarrow> f_fs f = a) \<and>
     (\<exists>fs. st a = Some fs \<and> s = abs_layer tab fs))"

lemma abs_layer_simps [simp]: "files (abs_layer tab fs) = abs_files fs" "fds (abs_layer tab fs) = map abs_fd tab"
  "length (abs_files fs) = unat (node_count fs)"
  by (simp_all add: abs_layer_def abs_files_def)

lemma abs_files_nth: "i < unat (node_count fs) \<Longrightarrow> abs_files fs ! i = (name_of fs i, content fs i)"
  by (simp add: abs_files_def)

lemma file_no_abs: "file_no (abs_layer tab fs) name = find_node fs name"
  unfolding file_no_def find_node_def abs_layer_simps
  by (rule find_cong) (simp_all add: abs_files_nth)

lemma abs_layer_fd:
  "abs_layer (tab[i := f]) fs = (abs_layer tab fs)\<lparr>fds := (fds (abs_layer tab fs))[i := abs_fd f]\<rparr>"
  by (simp add: abs_layer_def map_update)

lemma used_fs_update:
  "\<forall>f\<in>set tab. f_used f \<longrightarrow> f_fs f = a \<Longrightarrow> f_used f \<longrightarrow> f_fs f = a \<Longrightarrow>
     \<forall>g\<in>set (tab[i := f]). f_used g \<longrightarrow> f_fs g = a"
  using set_update_subset_insert [of tab i f] by auto

text \<open>A descriptor number is bad, closed or open on both sides.\<close>

lemma sim_fd:
  assumes "sim a (tab, st) s"
  obtains (closed) "bad_fd fd \<or> \<not> bad_fd fd \<and> rd tab (nat fd) = Some (tab ! nat fd) \<and> \<not> f_used (tab ! nat fd)"
      "spec_fd s fd = None"
  | (opened) f fs where "open_file tab st fd f fs" "spec_fd s fd = Some (f_node f, unat (f_offset f))"
      "f_fs f = a" "st a = Some fs" "s = abs_layer tab fs" "f_node f < unat (node_count fs)"
      "files s ! f_node f = (name_of fs (f_node f), content fs (f_node f))"
proof -
  have ok: "vfs_ok tab st" and own: "\<forall>f\<in>set tab. f_used f \<longrightarrow> f_fs f = a"
    using assms by (auto simp: sim_def)
  obtain fs where fs: "st a = Some fs" "s = abs_layer tab fs" using assms by (auto simp: sim_def)
  have len: "length tab = 16" using ok by (simp add: vfs_ok_def)
  from ok show thesis
  proof (cases rule: fd_cases [of tab st fd])
    case bad
    then show thesis using closed fs(2) by (auto simp: bad_fd_def spec_fd_def)
  next
    case unused
    then show thesis using closed fs(2) len by (auto simp: spec_fd_def bad_fd_def abs_fd_def)
  next
    case (opened f fs')
    note o = open_file_facts [OF ok opened]
    have "f_fs f = a" using own o(2,3,4) by (metis nth_mem option.inject rd_Some)
    moreover from this have "fs' = fs" using o(5) fs(1) by simp
    moreover have "spec_fd s fd = Some (f_node f, unat (f_offset f))"
      using o(1-4) fs(2) by (auto simp: spec_fd_def bad_fd_def abs_fd_def)
    ultimately show thesis using that(2) opened fs o(7) abs_files_nth [of "f_node f" fs] by simp
  qed
qed

definition refines :: "u64 \<Rightarrow> vfs_call \<Rightarrow> mcs_fd_table \<times> fs_store \<Rightarrow> file_layer \<Rightarrow> bool" where
  "refines a c x s \<longleftrightarrow> (\<exists>y. vfs_exec a c x = Some (fst (spec_exec c s), y) \<and> sim a y (snd (spec_exec c s)))"

lemma sim_same: "sim a (tab, st) s \<Longrightarrow> st a = Some fs \<Longrightarrow> s = abs_layer tab fs"
  by (auto simp: sim_def)

lemma simI:
  "vfs_ok tab st \<Longrightarrow> \<forall>f\<in>set tab. f_used f \<longrightarrow> f_fs f = a \<Longrightarrow> st a = Some fs \<Longrightarrow> s = abs_layer tab fs \<Longrightarrow> sim a (tab, st) s"
  by (auto simp: sim_def)

lemma sim_parts:
  assumes "sim a (tab, st) s"
  shows "vfs_ok tab st" "\<forall>f\<in>set tab. f_used f \<longrightarrow> f_fs f = a" "length tab = 16"
  using assms by (auto simp: sim_def vfs_ok_def)

lemma refines_read:
  assumes "sim a (tab, st) s" "unat sz \<le> length buffer"
  shows "refines a (Read fd buffer sz) (tab, st) s"
  using assms(1)
proof (cases rule: sim_fd [where fd = fd])
  case closed
  then show ?thesis using assms(1) by (auto simp: refines_def spec_read_def mcs_vfs_read_def)
next
  case (opened f fs)
  note ok = sim_parts [OF assms(1)] and o = open_file_facts [OF sim_parts(1) [OF assms(1)] opened(1)]
  let ?bs = "take (unat sz) (drop (unat (f_offset f)) (content fs (f_node f)))"
  let ?n = "min (unat sz) (length (content fs (f_node f)) - unat (f_offset f))"
  let ?f = "f\<lparr>f_offset := f_offset f + of_nat ?n\<rparr>"
  have n: "length ?bs = ?n" by simp
  have run: "mcs_vfs_read tab st fd buffer sz = Some (int ?n, tab[nat fd := ?f], blit buffer 0 ?bs)"
    by (rule vfs_read_exact [OF ok(1) opened(1) assms(2)])
  have off: "unat (f_offset f + of_nat ?n) = unat (f_offset f) + ?n" using o(8,9) by (intro unat_plus_of_nat) simp
  have "vfs_ok (tab[nat fd := ?f]) st"
    using vfs_read_ok [OF ok(1) assms(2), of fd] run by simp
  moreover have "\<forall>g\<in>set (tab[nat fd := ?f]). f_used g \<longrightarrow> f_fs g = a"
    using ok(2) opened(3) by (intro used_fs_update) auto
  moreover have "abs_fd ?f = Some (f_node f, unat (f_offset f) + length ?bs)"
    unfolding n using o(4) off by (simp add: abs_fd_def)
  ultimately have "sim a (tab[nat fd := ?f], st) (s\<lparr>fds := (fds s)[nat fd := Some (f_node f, unat (f_offset f) + length ?bs)]\<rparr>)"
    using opened(4,5) by (intro simI [of _ _ _ fs]) (simp_all add: abs_layer_fd)
  then show ?thesis using run opened(2,7) n by (simp add: refines_def spec_read_def Let_def)
qed

lemma refines_close:
  assumes "sim a (tab, st) s"
  shows "refines a (Close fd) (tab, st) s"
proof -
  note ok = sim_parts [OF assms]
  obtain fs where fs: "st a = Some fs" "s = abs_layer tab fs" using assms by (auto simp: sim_def)
  show ?thesis
  proof (cases "bad_fd fd")
    case True
    then show ?thesis using assms by (auto simp: refines_def spec_close_def mcs_vfs_close_def bad_fd_def)
  next
    case False
    let ?f = "(tab ! nat fd)\<lparr>f_used := False\<rparr>"
    have i: "nat fd < length tab" using False ok(3) by (auto simp: bad_fd_def)
    have run: "mcs_vfs_close tab fd = Some (MCS_OK, tab[nat fd := ?f])"
      using False i by (simp add: mcs_vfs_close_def)
    have "vfs_ok (tab[nat fd := ?f]) st" using vfs_close_ok [OF ok(1), of fd] run by simp
    moreover have "\<forall>g\<in>set (tab[nat fd := ?f]). f_used g \<longrightarrow> f_fs g = a"
      using ok(2) by (intro used_fs_update) auto
    ultimately have "sim a (tab[nat fd := ?f], st) (s\<lparr>fds := (fds s)[nat fd := None]\<rparr>)"
      using fs by (intro simI [of _ _ _ fs]) (simp_all add: abs_layer_fd abs_fd_def)
    then show ?thesis using run False by (simp add: refines_def spec_close_def bad_fd_def)
  qed
qed

text \<open>The word from which a seek counts, for both layers.\<close>

definition seek_base :: "int \<Rightarrow> u64 \<Rightarrow> u64 \<Rightarrow> u64 option" where
  "seek_base whence off eof = (if whence = MCS_SEEK_SET then Some 0 else if whence = MCS_SEEK_CUR then Some off
     else if whence = MCS_SEEK_END then Some eof else None)"

lemma lseek_eq:
  assumes "vfs_ok tab st" "open_file tab st fd f fs"
  shows "mcs_vfs_lseek tab st fd offset whence = (case seek_base whence (f_offset f) (v_size (nodes fs ! f_node f)) of
      None \<Rightarrow> Some (MCS_EINVAL, tab)
    | Some b \<Rightarrow> if length (content fs (f_node f)) < unat (b + offset) then Some (MCS_EINVAL, tab)
        else Some (int (unat (b + offset)), tab[nat fd := f\<lparr>f_offset := b + offset\<rparr>]))"
proof -
  note o = open_file_facts [OF assms]
  have size: "unat (v_size (nodes fs ! f_node f)) = length (content fs (f_node f))" using content_eq(3) [OF o(6,7)] by simp
  have small: "sint p = int (unat p)" if "\<not> length (content fs (f_node f)) < unat p" for p :: u64
    using that o(9) by (intro sint_small) simp
  show ?thesis using o size small by (auto simp: mcs_vfs_lseek_def seek_base_def word_less_nat_alt Let_def)
qed

lemma spec_seek_eq:
  assumes "spec_fd s fd = Some (i, unat off)" "unat eof = length (snd (files s ! i))"
  shows "spec_seek s fd (unat offset) whence = (case seek_base whence off eof of
      None \<Rightarrow> (MCS_EINVAL, s)
    | Some b \<Rightarrow> if length (snd (files s ! i)) < unat (b + offset) then (MCS_EINVAL, s)
        else (int (unat (b + offset)), s\<lparr>fds := (fds s)[nat fd := Some (i, unat (b + offset))]\<rparr>))"
proof -
  have p: "unat (b + offset) = (unat b + unat offset) mod 2 ^ 64" for b :: u64 by (simp add: unat_word_ariths)
  show ?thesis using assms p [of 0] p [of off] p [of eof] by (simp add: spec_seek_def seek_base_def Let_def)
qed

lemma refines_seek:
  assumes "sim a (tab, st) s"
  shows "refines a (Seek fd offset whence) (tab, st) s"
  using assms
proof (cases rule: sim_fd [where fd = fd])
  case closed
  then show ?thesis using assms by (auto simp: refines_def spec_seek_def mcs_vfs_lseek_def)
next
  case (opened f fs)
  note ok = sim_parts [OF assms] and o = open_file_facts [OF sim_parts(1) [OF assms] opened(1)]
  let ?c = "content fs (f_node f)" and ?base = "seek_base whence (f_offset f) (v_size (nodes fs ! f_node f))"
  have "unat (v_size (nodes fs ! f_node f)) = length (snd (files s ! f_node f))"
    using content_eq(3) [OF o(6,7)] opened(7) by simp
  note spec = spec_seek_eq [OF opened(2) this, of offset whence] and run = lseek_eq [OF ok(1) opened(1), of offset whence]
  consider (refused) "?base = None \<or> (\<exists>b. ?base = Some b \<and> length ?c < unat (b + offset))"
    | (moved) b where "?base = Some b" "\<not> length ?c < unat (b + offset)"
    by (cases ?base) auto
  then show ?thesis
  proof cases
    case refused
    then show ?thesis using run spec opened(7) assms by (auto simp: refines_def)
  next
    case moved
    let ?f = "f\<lparr>f_offset := b + offset\<rparr>"
    have "vfs_ok (tab[nat fd := ?f]) st"
      using vfs_lseek_ok [OF ok(1), of fd offset whence] run moved by simp
    moreover have "\<forall>g\<in>set (tab[nat fd := ?f]). f_used g \<longrightarrow> f_fs g = a"
      using ok(2) opened(3) by (intro used_fs_update) auto
    ultimately show ?thesis using run spec moved opened(4,5,7) o(4)
      by (auto simp: refines_def abs_layer_fd abs_fd_def intro!: simI [of _ _ _ fs])
  qed
qed

lemma abs_files_update:
  assumes "i < unat (node_count fs)" "node_count fs' = node_count fs" "name_of fs' = name_of fs"
    "\<forall>j<unat (node_count fs). j \<noteq> i \<longrightarrow> content fs' j = content fs j"
  shows "abs_files fs' = (abs_files fs)[i := (name_of fs i, content fs' i)]"
  by (rule nth_equalityI) (use assms in \<open>auto simp: abs_files_nth nth_list_update\<close>)

lemma refines_write:
  assumes "sim a (tab, st) s" "unat sz \<le> length buffer" "unat sz < 2 ^ 63"
  shows "refines a (Write fd buffer sz) (tab, st) s"
  using assms(1)
proof (cases rule: sim_fd [where fd = fd])
  case closed
  then show ?thesis using assms(1) by (auto simp: refines_def spec_write_def mcs_vfs_write_def)
next
  case (opened f fs)
  note ok = sim_parts [OF assms(1)] and o = open_file_facts [OF sim_parts(1) [OF assms(1)] opened(1)]
  let ?i = "f_node f" and ?off = "unat (f_offset f)" and ?bs = "take (unat sz) buffer"
  have len: "length ?bs = unat sz" using assms(2) by simp
  show ?thesis
  proof (cases "capacity ?i < ?off + unat sz")
    case True
    then show ?thesis using vfs_write_run [OF ok(1) opened(1) assms(2,3)] opened(2) len assms(1)
      by (simp add: refines_def spec_write_def capacity_def del: length_take)
  next
    case False
    let ?f = "f\<lparr>f_offset := f_offset f + sz\<rparr>"
    obtain fs' where w: "mcs_vfs_write tab st fd buffer sz = Some (int (unat sz), tab[nat fd := ?f], st(f_fs f \<mapsto> fs'))"
      "node_count fs' = node_count fs" "name_of fs' = name_of fs"
      "content fs' ?i = write_at (content fs ?i) ?off ?bs"
      "\<forall>j<unat (node_count fs). j \<noteq> ?i \<longrightarrow> content fs' j = content fs j"
      using vfs_write_effect [OF ok(1) opened(1) assms(2,3)] False by auto
    have sum: "unat (f_offset f + sz) = ?off + unat sz"
      using o(8,9) assms(3) by (intro unat_add_lem [THEN iffD1]) simp
    have "vfs_ok (tab[nat fd := ?f]) (st(f_fs f \<mapsto> fs'))"
      using vfs_write_ok [OF ok(1) assms(2,3), of fd] w(1) by (simp del: fun_upd_apply)
    moreover have "\<forall>g\<in>set (tab[nat fd := ?f]). f_used g \<longrightarrow> f_fs g = a"
      using ok(2) opened(3) by (intro used_fs_update) auto
    moreover have "abs_files fs' = (files s)[?i := (fst (files s ! ?i), write_at (snd (files s ! ?i)) ?off ?bs)]"
      using abs_files_update [OF opened(6) w(2,3,5)] opened(5,7) w(4) by simp
    ultimately have "sim a (tab[nat fd := ?f], st(f_fs f \<mapsto> fs')) (snd (spec_write s fd ?bs))"
      using opened(2,3,5) False len o(4) sum
      by (intro simI [of _ _ _ fs']) (simp_all add: spec_write_def capacity_def abs_layer_def abs_fd_def map_update del: length_take)
    moreover have "fst (spec_write s fd ?bs) = int (unat sz)"
      using opened(2) False len by (simp add: spec_write_def capacity_def del: length_take)
    ultimately show ?thesis using w(1) by (simp add: refines_def case_prod_beta Let_def del: fun_upd_apply)
  qed
qed


text \<open>The free descriptor of both layers is the first one that is not in use.\<close>

lemma find_free_fd:
  assumes "length tab = 16"
  shows "find (\<lambda>d. map abs_fd tab ! d = None) [0..<16] = find (\<lambda>d. \<not> f_used (tab ! d)) [0..<16]"
  by (rule find_cong) (use assms in \<open>auto simp: abs_fd_def\<close>)

lemma install_refines:
  assumes "vfs_ok tab st" "\<forall>f\<in>set tab. f_used f \<longrightarrow> f_fs f = a" "st a = Some fs" "node < unat (node_count fs)"
  shows "\<exists>tab'. fd_install tab a node flags = Some (fst (spec_install (abs_layer tab fs) node), tab') \<and>
    sim a (tab', st) (snd (spec_install (abs_layer tab fs) node))"
proof -
  have len: "length tab = 16" using assms(1) by (simp add: vfs_ok_def)
  let ?f = "\<lparr>f_flags = flags, f_offset = 0, f_node = node, f_fs = a, f_used = True\<rparr>"
  obtain r tab' where ok: "fd_install tab a node flags = Some (r, tab')" "vfs_ok tab' st"
    using fd_install_ok [OF assms(1,3,4)] by blast
  have spec: "spec_install (abs_layer tab fs) node = (case find (\<lambda>d. \<not> f_used (tab ! d)) [0..<16] of
      None \<Rightarrow> (MCS_ENFILE, abs_layer tab fs)
    | Some d \<Rightarrow> (int d, abs_layer (tab[d := ?f]) fs))"
    by (simp add: spec_install_def find_free_fd [OF len] abs_layer_fd abs_fd_def split: option.split)
  consider (full) "\<forall>f\<in>set tab. f_used f" "r = MCS_ENFILE" "tab' = tab"
    | (free) d where "d < 16" "\<not> f_used (tab ! d)" "\<forall>k<d. f_used (tab ! k)" "r = int d" "tab' = tab[d := ?f]"
    using fd_install_result [OF len, of a node flags] ok(1) by auto
  then show ?thesis
  proof cases
    case full
    then have "find (\<lambda>d. \<not> f_used (tab ! d)) [0..<16] = None" using len by (auto simp: find_upt_None all_set_conv_all_nth)
    then show ?thesis using full ok spec assms(2,3) by (auto intro!: simI)
  next
    case free
    then have "find (\<lambda>d. \<not> f_used (tab ! d)) [0..<16] = Some d" by (simp add: find_upt_Some)
    moreover have "\<forall>g\<in>set tab'. f_used g \<longrightarrow> f_fs g = a"
      unfolding free(5) using assms(2) by (intro used_fs_update) auto
    ultimately show ?thesis using free(4,5) ok spec assms(3) by (auto intro!: simI)
  qed
qed

lemma abs_files_append:
  assumes "unat (node_count fs') = Suc (unat (node_count fs))" "fdata fs' = fdata fs"
    "\<forall>i<unat (node_count fs). nodes fs' ! i = nodes fs ! i"
  shows "abs_files fs' = abs_files fs @
    [(name_of fs' (unat (node_count fs)), content fs' (unat (node_count fs)))]"
  using assms by (simp add: abs_files_def name_of_def content_def)

lemma create_refines:
  assumes "vfs_ok tab st" "\<forall>f\<in>set tab. f_used f \<longrightarrow> f_fs f = a" "st a = Some fs" "unat (node_count fs) < 32"
    "is_cstr path" "length (cstr path) < 32"
  defines "s' \<equiv> (abs_layer tab fs)\<lparr>files := abs_files fs @ [(cstr path, [])]\<rparr>"
  shows "\<exists>fs' tab'. mcs_ramfs_create_file fs path = Some (Some (unat (node_count fs)), fs') \<and>
    fd_install tab a (unat (node_count fs)) flags = Some (fst (spec_install s' (unat (node_count fs))), tab') \<and>
    sim a (tab', st(a \<mapsto> fs')) (snd (spec_install s' (unat (node_count fs))))"
proof -
  let ?c = "unat (node_count fs)"
  have ok: "ramfs_ok fs" using assms(1,3) by (auto simp: vfs_ok_def)
  obtain fs' where new: "mcs_ramfs_create_file fs path = Some (Some ?c, fs')" "ramfs_ok fs'"
    "unat (node_count fs') = Suc ?c" "fdata fs' = fdata fs" "name_of fs' ?c = cstr path" "content fs' ?c = []"
    "\<forall>i<?c. nodes fs' ! i = nodes fs ! i"
    using create_ok [OF ok assms(4-6)] by blast
  have vok: "vfs_ok tab (st(a \<mapsto> fs'))"
    using new(3,4,7) by (intro vfs_ok_store [OF assms(1,3) new(2)]) (auto simp: content_def)
  have "s' = abs_layer tab fs'"
    using new(5,6) abs_files_append [OF new(3,4,7)] by (simp add: s'_def abs_layer_def)
  then have "\<exists>tab'. fd_install tab a ?c flags = Some (fst (spec_install s' ?c), tab') \<and>
      sim a (tab', st(a \<mapsto> fs')) (snd (spec_install s' ?c))"
    using install_refines [OF vok assms(2), of fs' ?c flags] new(3) by simp
  then show ?thesis using new(1) by blast
qed

lemma refines_open:
  assumes "sim a (tab, st) s" "is_cstr path" "length (cstr path) < 32"
  shows "refines a (Open path flags) (tab, st) s"
proof -
  note ok = sim_parts [OF assms(1)]
  obtain fs where fs: "st a = Some fs" "s = abs_layer tab fs" using assms(1) by (auto simp: sim_def)
  have fok: "ramfs_ok fs" using ok(1) fs(1) by (auto simp: vfs_ok_def)
  note look = lookup_find [OF fok assms(2)]
  consider (hit) i where "find_node fs (cstr path) = Some i"
    | (enoent) "find_node fs (cstr path) = None" "flags AND MCS_O_CREAT = 0"
    | (full) "find_node fs (cstr path) = None" "flags AND MCS_O_CREAT \<noteq> 0" "unat (node_count fs) = 32"
    | (make) "find_node fs (cstr path) = None" "flags AND MCS_O_CREAT \<noteq> 0" "unat (node_count fs) < 32"
    using ramfs_lengths(3) [OF fok] by fastforce
  then show ?thesis
  proof cases
    case hit
    then have i: "i < unat (node_count fs)" using find_node_bound by blast
    from install_refines [OF ok(1,2) fs(1) i, of flags] show ?thesis
      using hit look fs by (auto simp: refines_def mcs_vfs_open_def spec_open_def file_no_abs case_prod_beta)
  next
    case enoent
    then show ?thesis using look fs assms(1) by (auto simp: refines_def mcs_vfs_open_def spec_open_def file_no_abs)
  next
    case full
    then show ?thesis using look fs assms(1) create_full [OF fok full(3), of path]
      by (auto simp: refines_def mcs_vfs_open_def spec_open_def file_no_abs fun_upd_idem)
  next
    case make
    then show ?thesis using look fs create_refines [OF ok(1,2) fs(1) make(3) assms(2,3), of flags]
      by (auto simp: refines_def mcs_vfs_open_def spec_open_def file_no_abs case_prod_beta)
  qed
qed

section \<open>Refinement\<close>

lemma exec_refines:
  assumes "sim a x s" "call_ok c"
  shows "refines a c x s"
proof (cases x)
  case (Pair tab st)
  then show ?thesis using assms
    by (cases c) (auto intro: refines_open refines_read refines_write refines_seek refines_close)
qed

interpretation files: simulation "vfs_exec a" spec_exec "sim a" "\<lambda>s. call_ok" for a :: u64
  by unfold_locales (use exec_refines in \<open>auto simp: refines_def\<close>)

text \<open>After initialisation there is the root directory only and no descriptor is open.\<close>

definition fresh_layer :: file_layer where
  "fresh_layer = \<lparr>files = [([0x2F], [])], fds = replicate 16 None\<rparr>"

lemma init_sim:
  assumes "length (nodes fs) = 64" "length (fdata fs) = 8192" "\<forall>n\<in>set (nodes fs). length (v_name n) = 32"
    "length tab = 16"
  shows "\<exists>fs0 tab0. mcs_ramfs_init fs = Some fs0 \<and> mcs_fd_table_init tab = Some tab0 \<and>
    sim a (tab0, [a \<mapsto> fs0]) fresh_layer"
proof -
  obtain fs0 where fs0: "mcs_ramfs_init fs = Some fs0" "ramfs_ok fs0" "node_count fs0 = 1" "name_of fs0 0 = [0x2F]"
    using ramfs_init_ok [OF assms(1-3)] by blast
  obtain tab0 where tab0: "mcs_fd_table_init tab = Some tab0" "length tab0 = 16" "\<forall>f\<in>set tab0. \<not> f_used f"
    using fd_table_init_closed [OF assms(4)] by blast
  have "content fs0 0 = []" using ramfs_node [OF fs0(2), of 0] fs0(3) by (simp add: node_ok_def content_def)
  moreover have "map abs_fd tab0 = replicate 16 None"
    using tab0(2,3) by (intro nth_equalityI) (auto simp: abs_fd_def)
  ultimately have "abs_layer tab0 fs0 = fresh_layer"
    using fs0(3,4) by (simp add: abs_layer_def abs_files_def fresh_layer_def)
  moreover have "vfs_ok tab0 [a \<mapsto> fs0]" using fs0(2) tab0(2,3) by (auto simp: vfs_ok_def)
  ultimately have "sim a (tab0, [a \<mapsto> fs0]) fresh_layer"
    using tab0(3) by (intro simI [of _ _ _ fs0]) auto
  then show ?thesis using fs0(1) tab0(1) by blast
qed


text \<open>
  C29. Refinement of the file layer: from the initialised file system and descriptor table, every sequence
  of opens, reads, writes, seeks and closes, on any descriptor numbers and in any interleaving of the
  open files, is defined, as long as paths are shorter than 32 characters and buffers have the size that is
  passed. It returns exactly the results of the abstract file layer, in which a file is a name and a byte string and
  a descriptor is a file number and a position, and ends in a state that represents the abstract one.
\<close>

theorem vfs_refines_spec:
  assumes "length (nodes fs) = 64" "length (fdata fs) = 8192" "\<forall>n\<in>set (nodes fs). length (v_name n) = 32"
    "length tab = 16" "\<forall>c\<in>set cs. call_ok c"
  shows "\<exists>fs0 tab0 tab' st' fs'. mcs_ramfs_init fs = Some fs0 \<and> mcs_fd_table_init tab = Some tab0 \<and>
    vfs_run a cs (tab0, [a \<mapsto> fs0]) = Some (fst (spec_run cs fresh_layer), tab', st') \<and>
    st' a = Some fs' \<and> abs_layer tab' fs' = snd (spec_run cs fresh_layer)"
proof -
  obtain fs0 tab0 where init: "mcs_ramfs_init fs = Some fs0" "mcs_fd_table_init tab = Some tab0"
    "sim a (tab0, [a \<mapsto> fs0]) fresh_layer"
    using init_sim [OF assms(1-4)] by blast
  then show ?thesis using files.runs_simulated [OF init(3)] assms(5) by (fastforce simp: sim_def)
qed

lemmas spec_defs = spec_open_def spec_write_def spec_seek_def spec_read_def spec_close_def spec_fd_def
  spec_install_def file_no_def write_at_def blit_def cstr_def

lemma spec_run_example:
  "fst (spec_run [Open [0x61, 0] MCS_O_CREAT, Write 0 [1, 2, 3] 3, Open [0x61, 0] 0, Seek 0 1 0, Read 0 [0, 0] 2,
      Read 1 [0] 1, Close 1, Read 1 [0] 1, Open [0x62, 0] 0] fresh_layer) =
    [(0, []), (3, []), (1, []), (1, []), (2, [2, 3]), (1, [1]), (0, []), (MCS_EBADF, [0]), (MCS_ENOENT, [])]"
proof -
  have ds: "[0..<16] = 0 # 1 # [2..<16]" by (simp add: upt_conv_Cons)
  let ?s = "\<lambda>c d e. \<lparr>files = [([0x2F], []), ([0x61], c)], fds = d # e # replicate 14 None\<rparr>"
  have fresh: "fresh_layer = \<lparr>files = [([0x2F], [])], fds = None # None # replicate 14 None\<rparr>"
    by (simp add: fresh_layer_def numeral_eq_Suc)
  have "spec_exec (Open [0x61, 0] MCS_O_CREAT) fresh_layer = ((0, []), ?s [] (Some (1, 0)) None)"
    unfolding fresh by (simp add: spec_defs ds)
  moreover have "spec_exec (Write 0 [1, 2, 3] 3) (?s [] (Some (1, 0)) None) = ((3, []), ?s [1, 2, 3] (Some (1, 3)) None)"
    by (simp add: spec_defs ds)
  moreover have "spec_exec (Open [0x61, 0] 0) (?s [1, 2, 3] (Some (1, 3)) None) = ((1, []), ?s [1, 2, 3] (Some (1, 3)) (Some (1, 0)))"
    by (simp add: spec_defs ds)
  moreover have "spec_exec (Seek 0 1 0) (?s [1, 2, 3] (Some (1, 3)) (Some (1, 0))) = ((1, []), ?s [1, 2, 3] (Some (1, 1)) (Some (1, 0)))"
    by (simp add: spec_defs ds)
  moreover have "spec_exec (Read 0 [0, 0] 2) (?s [1, 2, 3] (Some (1, 1)) (Some (1, 0))) =
      ((2, [2, 3]), ?s [1, 2, 3] (Some (1, 3)) (Some (1, 0)))"
    by (simp add: spec_defs ds)
  moreover have "spec_exec (Read 1 [0] 1) (?s [1, 2, 3] (Some (1, 3)) (Some (1, 0))) =
      ((1, [1]), ?s [1, 2, 3] (Some (1, 3)) (Some (1, 1)))"
    by (simp add: spec_defs ds)
  moreover have "spec_exec (Close 1) (?s [1, 2, 3] (Some (1, 3)) (Some (1, 1))) = ((0, []), ?s [1, 2, 3] (Some (1, 3)) None)"
    by (simp add: spec_defs ds)
  moreover have "spec_exec (Read 1 [0] 1) (?s [1, 2, 3] (Some (1, 3)) None) = ((MCS_EBADF, [0]), ?s [1, 2, 3] (Some (1, 3)) None)"
    by (simp add: spec_defs ds)
  moreover have "spec_exec (Open [0x62, 0] 0) (?s [1, 2, 3] (Some (1, 3)) None) = ((MCS_ENOENT, []), ?s [1, 2, 3] (Some (1, 3)) None)"
    by (simp add: spec_defs ds)
  ultimately show ?thesis by (intro run_spec_step) (assumption+, simp)
qed

theorem vfs_refines_spec_witness:
  "\<exists>fs0 tab0 y. mcs_ramfs_init empty_ramfs = Some fs0 \<and> mcs_fd_table_init no_files = Some tab0 \<and>
     vfs_run 0x1000 [Open [0x61, 0] MCS_O_CREAT, Write 0 [1, 2, 3] 3, Open [0x61, 0] 0, Seek 0 1 0, Read 0 [0, 0] 2,
       Read 1 [0] 1, Close 1, Read 1 [0] 1, Open [0x62, 0] 0] (tab0, [0x1000 \<mapsto> fs0]) =
     Some ([(0, []), (3, []), (1, []), (1, []), (2, [2, 3]), (1, [1]), (0, []), (MCS_EBADF, [0]), (MCS_ENOENT, [])], y)"
proof -
  let ?cs = "[Open [0x61, 0] MCS_O_CREAT, Write 0 [1, 2, 3] 3, Open [0x61, 0] 0, Seek 0 1 0, Read 0 [0, 0] 2,
    Read 1 [0] 1, Close 1, Read 1 [0] 1, Open [0x62, 0] 0]"
  have "\<forall>c\<in>set ?cs. call_ok c" by simp
  moreover have "length (nodes empty_ramfs) = 64" "length (fdata empty_ramfs) = 8192"
    "\<forall>n\<in>set (nodes empty_ramfs). length (v_name n) = 32" "length no_files = 16"
    by (simp_all add: empty_ramfs_def no_files_def)
  ultimately show ?thesis
    using vfs_refines_spec [of empty_ramfs no_files ?cs "0x1000"] unfolding spec_run_example by blast
qed

end
