(* ===== verification/Mcsfs1.thy ===== *)
theory Mcsfs1
  imports Named_Store
begin

text \<open>
  The stand-alone file system of \<open>src/fs/mcsfs1/mcsfs1.c\<close>: 32 inodes, each with a name of at most 31
  characters and 256 bytes of data of its own. A null file system or name is \<open>None\<close>.
\<close>

section \<open>Model\<close>

abbreviation MCSFS1_MAGIC :: u32 where "MCSFS1_MAGIC \<equiv> 0x4D435331"
abbreviation MCSFS1_OK :: int where "MCSFS1_OK \<equiv> 0"
abbreviation MCSFS1_EINVAL :: int where "MCSFS1_EINVAL \<equiv> - 1"
abbreviation MCSFS1_ENOSPC :: int where "MCSFS1_ENOSPC \<equiv> - 2"
abbreviation MCSFS1_ENOENT :: int where "MCSFS1_ENOENT \<equiv> - 3"
abbreviation MCSFS1_MAX_FILES :: nat where "MCSFS1_MAX_FILES \<equiv> 32"
abbreviation MCSFS1_NAME_LEN :: nat where "MCSFS1_NAME_LEN \<equiv> 32"
abbreviation MCSFS1_DATA_SIZE :: u64 where "MCSFS1_DATA_SIZE \<equiv> 256"

record mcsfs1_inode =
  i_used :: u8
  i_name :: "u8 list"
  i_size :: u64
  i_data :: "u8 list"

record mcsfs1 =
  fs_magic :: u32
  fs_inode_count :: u32
  fs_inodes :: "mcsfs1_inode list"

fun mcsfs1_strlen :: "u8 list \<Rightarrow> u64 \<Rightarrow> u64 option" where
  "mcsfs1_strlen [] len = None"
| "mcsfs1_strlen (c # cs) len = (if c \<noteq> 0 then mcsfs1_strlen cs (len + 1) else Some len)"

fun mcsfs1_streq :: "u8 list \<Rightarrow> u8 list \<Rightarrow> bool option" where
  "mcsfs1_streq (a # as) (b # bs) =
     (if a \<noteq> 0 \<and> b \<noteq> 0 then (if a \<noteq> b then Some False else mcsfs1_streq as bs)
      else Some (a = b))"
| "mcsfs1_streq _ _ = None"

definition mcsfs1_memcpy :: "u8 list \<Rightarrow> u8 list \<Rightarrow> u64 \<Rightarrow> u8 list option" where
  "mcsfs1_memcpy dst src sz = copy_bytes dst 0 src 0 (unat sz)"

definition mcsfs1_init :: "mcsfs1 \<Rightarrow> mcsfs1 option" where
  "mcsfs1_init fs = do {
     ns \<leftarrow> for_up (\<lambda>i ns. do { n \<leftarrow> rd ns i; wr ns i (n\<lparr>i_used := 0\<rparr>) }) MCSFS1_MAX_FILES 0 (fs_inodes fs);
     Some (fs\<lparr>fs_magic := MCSFS1_MAGIC, fs_inode_count := 0, fs_inodes := ns\<rparr>)
   }"

text \<open>The name loop of \<open>mcsfs1_create\<close>: at most \<open>MCSFS1_NAME_LEN\<close> characters, up to the terminator.\<close>

primrec name_loop :: "nat \<Rightarrow> nat \<Rightarrow> u8 list \<Rightarrow> u8 list \<Rightarrow> u8 list option" where
  "name_loop 0 j dst src = Some dst"
| "name_loop (Suc k) j dst src = do {
     c \<leftarrow> rd src j;
     dst' \<leftarrow> wr dst j c;
     if c = 0 then Some dst' else name_loop k (Suc j) dst' src
   }"

definition mcsfs1_create :: "mcsfs1 option \<Rightarrow> u8 list option \<Rightarrow> (int \<times> mcsfs1 option) option" where
  "mcsfs1_create fso nameo =
     (case (fso, nameo) of
        (Some fs, Some name) \<Rightarrow> do {
          len \<leftarrow> mcsfs1_strlen name 0;
          if 32 \<le> len then Some (MCSFS1_EINVAL, fso)
          else do {
            hit \<leftarrow> scan (\<lambda>i. do { n \<leftarrow> rd (fs_inodes fs) i; Some (i_used n = 0) }) MCSFS1_MAX_FILES 0;
            (case hit of
               None \<Rightarrow> Some (MCSFS1_ENOSPC, fso)
             | Some i \<Rightarrow> do {
                 n \<leftarrow> rd (fs_inodes fs) i;
                 nm \<leftarrow> name_loop MCSFS1_NAME_LEN 0 (i_name n) name;
                 ns \<leftarrow> wr (fs_inodes fs) i (n\<lparr>i_used := 1, i_name := nm, i_size := 0\<rparr>);
                 Some (MCSFS1_OK, Some (fs\<lparr>fs_inodes := ns, fs_inode_count := fs_inode_count fs + 1\<rparr>)) })
          }
        }
      | _ \<Rightarrow> Some (MCSFS1_EINVAL, fso))"

text \<open>The search that \<open>mcsfs1_write\<close> and \<open>mcsfs1_read\<close> share.\<close>

definition mcsfs1_find :: "mcsfs1 \<Rightarrow> u8 list \<Rightarrow> nat option option" where
  "mcsfs1_find fs name =
     scan (\<lambda>i. do { n \<leftarrow> rd (fs_inodes fs) i;
                    if i_used n = 0 then Some False else mcsfs1_streq (i_name n) name })
       MCSFS1_MAX_FILES 0"

definition mcsfs1_write :: "mcsfs1 \<Rightarrow> u8 list \<Rightarrow> u8 list \<Rightarrow> u64 \<Rightarrow> (int \<times> mcsfs1) option" where
  "mcsfs1_write fs name dat sz =
     (if MCSFS1_DATA_SIZE < sz then Some (MCSFS1_ENOSPC, fs)
      else do {
        hit \<leftarrow> mcsfs1_find fs name;
        (case hit of
           None \<Rightarrow> Some (MCSFS1_ENOENT, fs)
         | Some i \<Rightarrow> do {
             n \<leftarrow> rd (fs_inodes fs) i;
             d \<leftarrow> mcsfs1_memcpy (i_data n) dat sz;
             ns \<leftarrow> wr (fs_inodes fs) i (n\<lparr>i_data := d, i_size := sz\<rparr>);
             Some (MCSFS1_OK, fs\<lparr>fs_inodes := ns\<rparr>) })
      })"

definition mcsfs1_read :: "mcsfs1 \<Rightarrow> u8 list \<Rightarrow> u8 list \<Rightarrow> u64 \<Rightarrow> (int \<times> u8 list) option" where
  "mcsfs1_read fs name buffer sz = do {
     hit \<leftarrow> mcsfs1_find fs name;
     (case hit of
        None \<Rightarrow> Some (MCSFS1_ENOENT, buffer)
      | Some i \<Rightarrow> do {
          n \<leftarrow> rd (fs_inodes fs) i;
          let k = (if i_size n < sz then i_size n else sz);
          b \<leftarrow> mcsfs1_memcpy buffer (i_data n) k;
          Some (sint (ucast k :: 32 word), b) })
   }"

section \<open>String routines\<close>

lemma mcsfs1_strlen_correct:
  "is_cstr s \<Longrightarrow> mcsfs1_strlen s len = Some (len + of_nat (length (cstr s)))"
  by (induction s len rule: mcsfs1_strlen.induct) (auto simp: add.assoc)

lemma mcsfs1_streq_correct:
  "is_cstr a \<Longrightarrow> is_cstr b \<Longrightarrow> mcsfs1_streq a b = Some (cstr a = cstr b)"
  by (induction a b rule: mcsfs1_streq.induct) auto

text \<open>The bounded name copy is the unbounded one when the terminator is in reach.\<close>

lemma name_loop_strcpy:
  "is_cstr src \<Longrightarrow> length (cstr src) < k \<Longrightarrow>
     name_loop k (length pre) dst (pre @ src) = strcpy_loop dst (length pre) src"
proof (induction k arbitrary: pre dst src)
  case (Suc k)
  then obtain c cs where src: "src = c # cs" by (cases src) auto
  show ?case
  proof (cases "c = 0")
    case True
    then show ?thesis using src by (simp add: nth_append split: bind_split)
  next
    case False
    have "name_loop k (length (pre @ [c])) d ((pre @ [c]) @ cs) = strcpy_loop d (length (pre @ [c])) cs" for d
      using Suc.prems src False by (intro Suc.IH) auto
    then show ?thesis using src False by (simp add: nth_append split: bind_split)
  qed
qed simp

lemma name_loop_Some:
  assumes "is_cstr src" "length (cstr src) < 32" "length dst = 32"
  shows "name_loop 32 0 dst src = Some (blit dst 0 (cstr src @ [0]))"
  using name_loop_strcpy [OF assms(1,2), of "[]" dst] strcpy_loop_Some [OF assms(1), of 0 dst] assms(2,3)
  by simp

section \<open>Invariant and contents\<close>

definition inode_ok :: "mcsfs1_inode \<Rightarrow> bool" where
  "inode_ok n \<longleftrightarrow> is_cstr (i_name n) \<and> unat (i_size n) \<le> 256"

definition mcsfs1_ok :: "mcsfs1 \<Rightarrow> bool" where
  "mcsfs1_ok fs \<longleftrightarrow> length (fs_inodes fs) = 32 \<and> unat (fs_inode_count fs) \<le> 32 \<and>
     (\<forall>i<32. length (i_name (fs_inodes fs ! i)) = 32 \<and> length (i_data (fs_inodes fs ! i)) = 256 \<and>
        (i_used (fs_inodes fs ! i) \<noteq> 0 \<longleftrightarrow> i < unat (fs_inode_count fs)) \<and>
        (i < unat (fs_inode_count fs) \<longrightarrow> inode_ok (fs_inodes fs ! i)))"

definition fs_name :: "mcsfs1 \<Rightarrow> nat \<Rightarrow> u8 list" where
  "fs_name fs i = cstr (i_name (fs_inodes fs ! i))"

definition fs_content :: "mcsfs1 \<Rightarrow> nat \<Rightarrow> u8 list" where
  "fs_content fs i = take (unat (i_size (fs_inodes fs ! i))) (i_data (fs_inodes fs ! i))"

definition fs_entry :: "mcsfs1 \<Rightarrow> u8 list \<Rightarrow> nat option" where
  "fs_entry fs name = find (\<lambda>i. fs_name fs i = name) [0..<unat (fs_inode_count fs)]"

lemma mcsfs1_facts:
  assumes "mcsfs1_ok fs"
  shows "length (fs_inodes fs) = 32" "unat (fs_inode_count fs) \<le> 32"
    "i < 32 \<Longrightarrow> length (i_name (fs_inodes fs ! i)) = 32"
    "i < 32 \<Longrightarrow> length (i_data (fs_inodes fs ! i)) = 256"
    "i < 32 \<Longrightarrow> i_used (fs_inodes fs ! i) \<noteq> 0 \<longleftrightarrow> i < unat (fs_inode_count fs)"
    "i < unat (fs_inode_count fs) \<Longrightarrow> inode_ok (fs_inodes fs ! i)"
  using assms by (auto simp: mcsfs1_ok_def)

lemma fs_entry_bound: "fs_entry fs name = Some i \<Longrightarrow> i < unat (fs_inode_count fs) \<and> fs_name fs i = name"
  by (simp add: fs_entry_def find_upt_Some)

lemma mcsfs1_find_entry:
  assumes "mcsfs1_ok fs" "is_cstr name"
  shows "mcsfs1_find fs name = Some (fs_entry fs (cstr name))"
proof -
  note F = mcsfs1_facts [OF assms(1)]
  let ?P = "\<lambda>i. i < unat (fs_inode_count fs) \<and> fs_name fs i = cstr name"
  have "do { n \<leftarrow> rd (fs_inodes fs) i; if i_used n = 0 then Some False else mcsfs1_streq (i_name n) name } =
      Some (?P i)" if "i < 32" for i
    using F(1) F(5) [OF that] F(6) [of i] that assms(2)
    by (auto simp: mcsfs1_streq_correct inode_ok_def fs_name_def)
  then have "mcsfs1_find fs name = Some (find ?P [0..<0 + 32])"
    unfolding mcsfs1_find_def by (intro scan_find) simp
  moreover have "find ?P [0..<0 + 32] = fs_entry fs (cstr name)"
    unfolding fs_entry_def using F(2) by (intro find_upt_restrict) auto
  ultimately show ?thesis by simp
qed

lemma mcsfs1_slot:
  assumes "mcsfs1_ok fs"
  shows "scan (\<lambda>i. do { n \<leftarrow> rd (fs_inodes fs) i; Some (i_used n = 0) }) 32 0 =
    Some (if unat (fs_inode_count fs) < 32 then Some (unat (fs_inode_count fs)) else None)"
proof -
  note F = mcsfs1_facts [OF assms]
  let ?P = "\<lambda>i. i_used (fs_inodes fs ! i) = 0"
  have "scan (\<lambda>i. do { n \<leftarrow> rd (fs_inodes fs) i; Some (i_used n = 0) }) 32 0 = Some (find ?P [0..<0 + 32])"
    using F(1) by (intro scan_find) simp
  moreover have "find ?P [0..<32] = (if unat (fs_inode_count fs) < 32 then Some (unat (fs_inode_count fs)) else None)"
  proof (cases "unat (fs_inode_count fs) < 32")
    case True
    then have "\<forall>j<unat (fs_inode_count fs). \<not> ?P j" using F(5) by simp
    then have "find ?P [0..<32] = Some (unat (fs_inode_count fs))"
      unfolding find_upt_Some using True F(5) [of "unat (fs_inode_count fs)"] by auto
    then show ?thesis using True by simp
  next
    case False
    then have "find ?P [0..<32] = None" unfolding find_upt_None using F(5) by auto
    then show ?thesis using False by simp
  qed
  ultimately show ?thesis by simp
qed

section \<open>Operations\<close>

lemma len_bound: "n < 2 ^ 64 \<Longrightarrow> (32 :: u64) \<le> of_nat n \<longleftrightarrow> 32 \<le> n"
  by (simp add: word_le_nat_alt)

lemma mcsfs1_create_full:
  assumes "mcsfs1_ok fs" "unat (fs_inode_count fs) = 32" "is_cstr name" "length (cstr name) < 32"
  shows "mcsfs1_create (Some fs) (Some name) = Some (MCSFS1_ENOSPC, Some fs)"
  using mcsfs1_strlen_correct [OF assms(3), of 0] len_bound [of "length (cstr name)"] mcsfs1_slot [OF assms(1)] assms(2,4)
  by (simp add: mcsfs1_create_def)

lemma mcsfs1_create_ok:
  assumes "mcsfs1_ok fs" "unat (fs_inode_count fs) < 32" "is_cstr name" "length (cstr name) < 32"
  shows "\<exists>fs'. mcsfs1_create (Some fs) (Some name) = Some (MCSFS1_OK, Some fs') \<and> mcsfs1_ok fs' \<and>
    unat (fs_inode_count fs') = Suc (unat (fs_inode_count fs)) \<and>
    fs_name fs' (unat (fs_inode_count fs)) = cstr name \<and> fs_content fs' (unat (fs_inode_count fs)) = [] \<and>
    (\<forall>i<unat (fs_inode_count fs). fs_inodes fs' ! i = fs_inodes fs ! i)"
proof -
  note F = mcsfs1_facts [OF assms(1)]
  let ?c = "unat (fs_inode_count fs)"
  let ?nm = "blit (i_name (fs_inodes fs ! ?c)) 0 (cstr name @ [0])"
  let ?n = "(fs_inodes fs ! ?c)\<lparr>i_used := 1, i_name := ?nm, i_size := 0\<rparr>"
  let ?fs = "fs\<lparr>fs_inodes := (fs_inodes fs)[?c := ?n], fs_inode_count := fs_inode_count fs + 1\<rparr>"
  have "name_loop 32 0 (i_name (fs_inodes fs ! ?c)) name = Some ?nm"
    using name_loop_Some [OF assms(3,4)] F(3) assms(2) by simp
  then have run: "mcsfs1_create (Some fs) (Some name) = Some (MCSFS1_OK, Some ?fs)"
    using mcsfs1_strlen_correct [OF assms(3), of 0] len_bound [of "length (cstr name)"] mcsfs1_slot [OF assms(1)]
      assms(2,4) F(1) by (simp add: mcsfs1_create_def)
  have cnt: "unat (fs_inode_count fs + 1) = Suc ?c"
    using assms(2) by (intro unat_plus_one [of _ 32]) (simp add: word_less_nat_alt)
  have nm: "?nm = cstr name @ 0 # drop (Suc (length (cstr name))) (i_name (fs_inodes fs ! ?c))"
    by (simp add: blit_def)
  have len: "length ?nm = 32" using F(3) [of ?c] assms(2,4) by simp
  have "mcsfs1_ok ?fs"
    unfolding mcsfs1_ok_def
  proof (intro conjI allI impI)
    fix i :: nat assume i: "i < 32"
    show "length (i_name (fs_inodes ?fs ! i)) = 32" "length (i_data (fs_inodes ?fs ! i)) = 256"
      using F(1,3,4) i len assms(2) by (auto simp: nth_list_update)
    show "i_used (fs_inodes ?fs ! i) \<noteq> 0 \<longleftrightarrow> i < unat (fs_inode_count ?fs)"
      using F(1) F(5) [OF i] i cnt assms(2) by (auto simp: nth_list_update)
    assume "i < unat (fs_inode_count ?fs)"
    then show "inode_ok (fs_inodes ?fs ! i)"
      using F(1) F(6) [of i] i cnt nm assms(2) by (cases "i = ?c") (auto simp: nth_list_update inode_ok_def)
  qed (use F(1) assms(2) cnt in auto)
  moreover have "fs_name ?fs ?c = cstr name" "fs_content ?fs ?c = []"
    using F(1) assms(2) nm by (simp_all add: fs_name_def fs_content_def)
  ultimately show ?thesis using run cnt by (intro exI [of _ ?fs]) simp
qed

lemma fs_entry_append:
  assumes "unat (fs_inode_count fs') = Suc (unat (fs_inode_count fs))"
    "fs_name fs' (unat (fs_inode_count fs)) = name"
    "\<forall>i<unat (fs_inode_count fs). fs_name fs' i = fs_name fs i"
  shows "fs_entry fs' = (if fs_entry fs name = None then (fs_entry fs)(name \<mapsto> unat (fs_inode_count fs))
    else fs_entry fs)"
proof -
  have eq: "fs_entry gs = (\<lambda>x. find (\<lambda>i. fs_name gs i = x) [0..<unat (fs_inode_count gs)])" for gs
    by (simp add: fs_entry_def fun_eq_iff)
  show ?thesis unfolding eq assms(1) by (rule find_append_map) (use assms(2,3) in auto)
qed

interpretation mcsfs1: named_store mcsfs1_ok "\<lambda>fs. 32 - unat (fs_inode_count fs)" "\<lambda>s. length s < 32"
  fs_entry mcsfs1_find
  "\<lambda>fs p. map_option (map_prod (\<lambda>r. r = MCSFS1_OK) the) (mcsfs1_create (Some fs) (Some p))"
proof (unfold_locales, goal_cases)
  case (1 s p)
  then show ?case by (rule mcsfs1_find_entry)
next
  case (2 s p)
  then obtain fs' where fs': "mcsfs1_create (Some s) (Some p) = Some (MCSFS1_OK, Some fs')" "mcsfs1_ok fs'"
    "unat (fs_inode_count fs') = Suc (unat (fs_inode_count s))"
    "fs_name fs' (unat (fs_inode_count s)) = cstr p"
    "\<forall>i<unat (fs_inode_count s). fs_inodes fs' ! i = fs_inodes s ! i"
    using mcsfs1_create_ok [of s p] by auto
  moreover have "unat (fs_inode_count s) \<notin> ran (fs_entry s)"
    using fs_entry_bound [of s] by (auto simp: ran_def)
  ultimately show ?case using 2 fs_entry_append [OF fs'(3,4)] by (auto simp: fs_name_def)
next
  case (3 s p)
  then have "unat (fs_inode_count s) = 32" using mcsfs1_facts(2) [of s] by simp
  then show ?case using mcsfs1_create_full [OF 3(1)] 3 by simp
qed

lemma mcsfs1_write_effect:
  assumes "mcsfs1_ok fs" "is_cstr name" "fs_entry fs (cstr name) = Some i" "unat sz \<le> 256"
    "unat sz \<le> length dat"
  shows "\<exists>fs'. mcsfs1_write fs name dat sz = Some (MCSFS1_OK, fs') \<and> mcsfs1_ok fs' \<and>
    fs_entry fs' = fs_entry fs \<and> fs_inode_count fs' = fs_inode_count fs \<and> fs_content fs' i = take (unat sz) dat \<and>
    (\<forall>j. j \<noteq> i \<longrightarrow> fs_content fs' j = fs_content fs j)"
proof -
  note F = mcsfs1_facts [OF assms(1)]
  have i: "i < unat (fs_inode_count fs)" "i < 32" using fs_entry_bound [OF assms(3)] F(2) by auto
  let ?d = "blit (i_data (fs_inodes fs ! i)) 0 (take (unat sz) dat)"
  let ?n = "(fs_inodes fs ! i)\<lparr>i_data := ?d, i_size := sz\<rparr>"
  let ?fs = "fs\<lparr>fs_inodes := (fs_inodes fs)[i := ?n]\<rparr>"
  have "mcsfs1_memcpy (i_data (fs_inodes fs ! i)) dat sz = Some ?d"
    using F(4) [OF i(2)] assms(4,5) by (simp add: mcsfs1_memcpy_def copy_bytes_Some)
  then have "mcsfs1_write fs name dat sz = Some (MCSFS1_OK, ?fs)"
    using mcsfs1_find_entry [OF assms(1,2)] assms(3,4) F(1) i(2)
    by (simp add: mcsfs1_write_def word_less_nat_alt)
  moreover have names: "fs_name ?fs = fs_name fs"
    using F(1) i(2) by (auto simp: fs_name_def nth_list_update fun_eq_iff)
  then have "fs_entry ?fs = fs_entry fs" by (simp add: fs_entry_def fun_eq_iff)
  moreover have "mcsfs1_ok ?fs"
    using assms(1,4,5) F(4) [OF i(2)] i by (auto simp: mcsfs1_ok_def nth_list_update inode_ok_def)
  moreover have "fs_content ?fs i = take (unat sz) dat"
    using F(1) i(2) assms(5) by (simp add: fs_content_def blit_def)
  moreover have "\<forall>j. j \<noteq> i \<longrightarrow> fs_content ?fs j = fs_content fs j"
    using F(1) i(2) by (simp add: fs_content_def nth_list_update)
  ultimately show ?thesis by (intro exI [of _ ?fs]) simp
qed

lemma mcsfs1_read_exact:
  assumes "mcsfs1_ok fs" "is_cstr name" "unat sz \<le> length buffer"
  shows "mcsfs1_read fs name buffer sz = (case fs_entry fs (cstr name) of
      None \<Rightarrow> Some (MCSFS1_ENOENT, buffer)
    | Some i \<Rightarrow> Some (int (min (unat sz) (length (fs_content fs i))),
        blit buffer 0 (take (unat sz) (fs_content fs i))))"
proof (cases "fs_entry fs (cstr name)")
  case None
  then show ?thesis using mcsfs1_find_entry [OF assms(1,2)] by (simp add: mcsfs1_read_def)
next
  case (Some i)
  note F = mcsfs1_facts [OF assms(1)]
  have i: "i < unat (fs_inode_count fs)" "i < 32" using fs_entry_bound [OF Some] F(2) by auto
  let ?n = "fs_inodes fs ! i"
  let ?k = "if i_size ?n < sz then i_size ?n else sz"
  have size: "unat (i_size ?n) \<le> 256" using F(6) [OF i(1)] by (simp add: inode_ok_def)
  then have len: "length (fs_content fs i) = unat (i_size ?n)" using F(4) [OF i(2)] by (simp add: fs_content_def)
  have k: "unat ?k = min (unat sz) (unat (i_size ?n))" by (simp add: word_less_nat_alt min_def)
  have "mcsfs1_memcpy buffer (i_data ?n) ?k = Some (blit buffer 0 (take (unat ?k) (i_data ?n)))"
    using F(4) [OF i(2)] k size assms(3) by (simp add: mcsfs1_memcpy_def copy_bytes_Some)
  moreover have "take (unat ?k) (i_data ?n) = take (unat sz) (fs_content fs i)"
    unfolding k by (simp add: fs_content_def min.commute)
  moreover have "sint (ucast ?k :: 32 word) = int (unat ?k)" using k size by (intro sint_ucast_small) simp
  ultimately show ?thesis
    using mcsfs1_find_entry [OF assms(1,2)] Some F(1) i(2) k len by (simp add: mcsfs1_read_def Let_def)
qed

section \<open>Properties\<close>

text \<open>
  Files keep what is written to them: writing at most 256 bytes to an existing name succeeds,
  reading that name then delivers these bytes and their number, and reading any other name
  delivers the same as before. A larger write and a missing name are refused without effect.
\<close>

lemma mcsfs1_write_read:
  assumes "mcsfs1_ok fs" "is_cstr name" "is_cstr other" "unat sz \<le> length dat"
    "unat sz \<le> length buffer" "unat k \<le> length buffer"
  shows "if 256 < sz then mcsfs1_write fs name dat sz = Some (MCSFS1_ENOSPC, fs)
    else if fs_entry fs (cstr name) = None then mcsfs1_write fs name dat sz = Some (MCSFS1_ENOENT, fs)
    else \<exists>fs'. mcsfs1_write fs name dat sz = Some (MCSFS1_OK, fs') \<and> mcsfs1_ok fs' \<and>
      mcsfs1_read fs' name buffer sz = Some (int (unat sz), blit buffer 0 (take (unat sz) dat)) \<and>
      (cstr other \<noteq> cstr name \<longrightarrow> mcsfs1_read fs' other buffer k = mcsfs1_read fs other buffer k)"
proof (cases "256 < sz \<or> fs_entry fs (cstr name) = None")
  case True
  then show ?thesis
    using mcsfs1_find_entry [OF assms(1,2)] by (auto simp: mcsfs1_write_def)
next
  case False
  then obtain i where i: "fs_entry fs (cstr name) = Some i" and sz: "unat sz \<le> 256"
    by (auto simp: word_less_nat_alt)
  obtain fs' where w: "mcsfs1_write fs name dat sz = Some (MCSFS1_OK, fs')" "mcsfs1_ok fs'"
    "fs_entry fs' = fs_entry fs" "fs_content fs' i = take (unat sz) dat"
    "\<forall>j. j \<noteq> i \<longrightarrow> fs_content fs' j = fs_content fs j"
    using mcsfs1_write_effect [OF assms(1,2) i sz assms(4)] by blast
  have "mcsfs1_read fs' name buffer sz = Some (int (unat sz), blit buffer 0 (take (unat sz) dat))"
    using mcsfs1_read_exact [OF w(2) assms(2,5)] w(3,4) i assms(4) by simp
  moreover have "mcsfs1_read fs' other buffer k = mcsfs1_read fs other buffer k" if "cstr other \<noteq> cstr name"
  proof -
    have "fs_entry fs (cstr other) \<noteq> Some i" using fs_entry_bound i that by metis
    then show ?thesis
      using mcsfs1_read_exact [OF w(2) assms(3,6)] mcsfs1_read_exact [OF assms(1,3,6)] w(3,5)
      by (auto split: option.split)
  qed
  ultimately show ?thesis using False w(1,2) by auto
qed

lemma mcsfs1_init_ok:
  assumes "length (fs_inodes fs) = 32"
    "\<forall>i<32. length (i_name (fs_inodes fs ! i)) = 32 \<and> length (i_data (fs_inodes fs ! i)) = 256"
  shows "\<exists>fs'. mcsfs1_init fs = Some fs' \<and> mcsfs1_ok fs' \<and> fs_inode_count fs' = 0"
proof -
  let ?I = "\<lambda>i ns. length ns = 32 \<and> (\<forall>k<i. i_used (ns ! k) = 0) \<and>
    (\<forall>k<32. length (i_name (ns ! k)) = 32 \<and> length (i_data (ns ! k)) = 256)"
  have "\<exists>ns. for_up (\<lambda>i ns. do { n \<leftarrow> rd ns i; wr ns i (n\<lparr>i_used := 0\<rparr>) }) 32 0 (fs_inodes fs) = Some ns \<and>
      ?I (0 + 32) ns"
    by (rule for_up_rule [where I = ?I]) (use assms in \<open>auto simp: nth_list_update less_Suc_eq\<close>)
  then show ?thesis by (auto simp: mcsfs1_init_def mcsfs1_ok_def)
qed

definition blank_mcsfs1 :: mcsfs1 where
  "blank_mcsfs1 = \<lparr>fs_magic = MCSFS1_MAGIC, fs_inode_count = 0, fs_inodes = replicate 32
     \<lparr>i_used = 0, i_name = replicate 32 0, i_size = 0, i_data = replicate 256 0\<rparr>\<rparr>"

lemma blank_mcsfs1_ok: "mcsfs1_ok blank_mcsfs1" "fs_inode_count blank_mcsfs1 = 0"
  by (simp_all add: mcsfs1_ok_def blank_mcsfs1_def)

lemma mcsfs1_write_read_example:
  "\<exists>fs fs'. mcsfs1_create (Some blank_mcsfs1) (Some [0x61, 0]) = Some (MCSFS1_OK, Some fs) \<and>
     mcsfs1_write fs [0x61, 0] [5, 6] 2 = Some (MCSFS1_OK, fs') \<and>
     mcsfs1_read fs' [0x61, 0] [0, 0] 2 = Some (2, [5, 6])"
proof -
  obtain fs where fs: "mcsfs1_create (Some blank_mcsfs1) (Some [0x61, 0]) = Some (MCSFS1_OK, Some fs)"
    "mcsfs1_ok fs" "unat (fs_inode_count fs) = 1" "fs_name fs 0 = [0x61]"
    using mcsfs1_create_ok [OF blank_mcsfs1_ok(1), of "[0x61, 0]"] by (auto simp: blank_mcsfs1_ok(2))
  have "fs_entry fs [0x61] = Some 0" using fs(3,4) by (simp add: fs_entry_def)
  then show ?thesis
    using mcsfs1_write_read [OF fs(2), of "[0x61, 0]" "[0x61, 0]" 2 "[5, 6]" "[0, 0]" 0] fs(1)
    by (auto simp: blit_def)
qed

text \<open>
  Creating files: any list of names of at most 31 characters can be created while inodes are
  left; afterwards exactly these names and the old ones are found, and every old name still leads to
  its old inode.
\<close>

lemma mcsfs1_create_many:
  assumes "mcsfs1_ok fs" "\<forall>p\<in>set ps. is_cstr p \<and> length (cstr p) < 32"
    "length ps \<le> 32 - unat (fs_inode_count fs)"
  shows "\<exists>fs'. mcsfs1.create_all fs ps = Some fs' \<and> mcsfs1_ok fs' \<and> fs_entry fs \<subseteq>\<^sub>m fs_entry fs' \<and>
    (\<forall>p. is_cstr p \<longrightarrow> (\<exists>hit. mcsfs1_find fs' p = Some hit \<and>
       (hit \<noteq> None \<longleftrightarrow> cstr p \<in> dom (fs_entry fs) \<union> cstr ` set ps)))"
proof -
  obtain fs' where fs': "mcsfs1.create_all fs ps = Some fs'" "mcsfs1_ok fs'" "fs_entry fs \<subseteq>\<^sub>m fs_entry fs'"
    "dom (fs_entry fs') = dom (fs_entry fs) \<union> cstr ` set ps"
    using mcsfs1.create_all_found [OF assms] by blast
  have "fs_entry fs' (cstr p) \<noteq> None \<longleftrightarrow> cstr p \<in> dom (fs_entry fs) \<union> cstr ` set ps" for p
    unfolding fs'(4) [symmetric] by (simp add: domIff)
  then have "\<exists>hit. mcsfs1_find fs' p = Some hit \<and> (hit \<noteq> None \<longleftrightarrow> cstr p \<in> dom (fs_entry fs) \<union> cstr ` set ps)"
    if "is_cstr p" for p
    using mcsfs1_find_entry [OF fs'(2) that] by blast
  then show ?thesis using fs' by blast
qed

lemma mcsfs1_create_many_example:
  "\<exists>fs' hit. mcsfs1.create_all blank_mcsfs1 [[0x61, 0], [0x62, 0], [0x61, 0]] = Some fs' \<and>
     mcsfs1_find fs' [0x62, 0] = Some hit \<and> hit \<noteq> None"
proof -
  let ?ps = "[[0x61, 0], [0x62, 0], [0x61, 0]] :: u8 list list"
  have "\<forall>p\<in>set ?ps. is_cstr p \<and> length (cstr p) < 32" "length ?ps \<le> 32 - unat (fs_inode_count blank_mcsfs1)"
    by (simp_all add: blank_mcsfs1_ok(2))
  then obtain fs' where fs': "mcsfs1.create_all blank_mcsfs1 ?ps = Some fs'"
    "\<forall>p. is_cstr p \<longrightarrow> (\<exists>hit. mcsfs1_find fs' p = Some hit \<and>
       (hit \<noteq> None \<longleftrightarrow> cstr p \<in> dom (fs_entry blank_mcsfs1) \<union> cstr ` set ?ps))"
    using mcsfs1_create_many [OF blank_mcsfs1_ok(1)] by blast
  have "is_cstr [0x62, 0]" "cstr [0x62, 0] \<in> dom (fs_entry blank_mcsfs1) \<union> cstr ` set ?ps" by auto
  then show ?thesis using fs' by blast
qed

end
