(* ===== verification/Mcsfs1_Spec.thy ===== *)
theory Mcsfs1_Spec
  imports Mcsfs1 Refinement
begin

text \<open>
  What the stand-alone file system promises: a finite map from names to byte strings. The only trace of the inode
  table is a count of used inodes, because creating a name that exists succeeds, changes no file and uses up an inode.
\<close>

section \<open>Abstract files\<close>

record name_map =
  contents :: "u8 list \<rightharpoonup> u8 list"
  inodes_used :: nat

datatype fs_call =
    Create "u8 list option"
  | Store "u8 list" "u8 list" u64
  | Load "u8 list" "u8 list" u64

text \<open>The result of a call is its return value and the buffer of a read.\<close>

fun spec_call :: "fs_call \<Rightarrow> name_map \<Rightarrow> (int \<times> u8 list) \<times> name_map" where
  "spec_call (Create None) s = ((MCSFS1_EINVAL, []), s)"
| "spec_call (Create (Some name)) s =
     (if 32 \<le> length (cstr name) then ((MCSFS1_EINVAL, []), s)
      else if inodes_used s = 32 then ((MCSFS1_ENOSPC, []), s)
      else ((MCSFS1_OK, []), \<lparr>contents = [cstr name \<mapsto> []] ++ contents s, inodes_used = Suc (inodes_used s)\<rparr>))"
| "spec_call (Store name dat sz) s =
     (if 256 < unat sz then ((MCSFS1_ENOSPC, []), s)
      else if contents s (cstr name) = None then ((MCSFS1_ENOENT, []), s)
      else ((MCSFS1_OK, []), s\<lparr>contents := (contents s)(cstr name \<mapsto> take (unat sz) dat)\<rparr>))"
| "spec_call (Load name buffer sz) s =
     (case contents s (cstr name) of
        None \<Rightarrow> ((MCSFS1_ENOENT, buffer), s)
      | Some bs \<Rightarrow> ((int (min (unat sz) (length bs)), blit buffer 0 (take (unat sz) bs)), s))"

fun fs_exec :: "fs_call \<Rightarrow> mcsfs1 \<Rightarrow> ((int \<times> u8 list) \<times> mcsfs1) option" where
  "fs_exec (Create name) fs = do { (r, fs') \<leftarrow> mcsfs1_create (Some fs) name; fs'' \<leftarrow> fs'; Some ((r, []), fs'') }"
| "fs_exec (Store name dat sz) fs = do { (r, fs') \<leftarrow> mcsfs1_write fs name dat sz; Some ((r, []), fs') }"
| "fs_exec (Load name buffer sz) fs = do { r \<leftarrow> mcsfs1_read fs name buffer sz; Some (r, fs) }"

text \<open>What a caller owes: terminated names, data and buffers as long as their size says.\<close>

fun fs_call_ok :: "fs_call \<Rightarrow> bool" where
  "fs_call_ok (Create None) \<longleftrightarrow> True"
| "fs_call_ok (Create (Some name)) \<longleftrightarrow> is_cstr name \<and> length name < 2 ^ 64"
| "fs_call_ok (Store name dat sz) \<longleftrightarrow> is_cstr name \<and> unat sz \<le> length dat"
| "fs_call_ok (Load name buffer sz) \<longleftrightarrow> is_cstr name \<and> unat sz \<le> length buffer"

abbreviation fs_run :: "fs_call list \<Rightarrow> mcsfs1 \<Rightarrow> ((int \<times> u8 list) list \<times> mcsfs1) option" where
  "fs_run \<equiv> run_calls fs_exec"

abbreviation spec_calls :: "fs_call list \<Rightarrow> name_map \<Rightarrow> (int \<times> u8 list) list \<times> name_map" where
  "spec_calls \<equiv> run_spec spec_call"

section \<open>Refinement\<close>

definition abs_fs :: "mcsfs1 \<Rightarrow> name_map" where
  "abs_fs fs = \<lparr>contents = (\<lambda>name. map_option (fs_content fs) (fs_entry fs name)),
     inodes_used = unat (fs_inode_count fs)\<rparr>"

lemma create_long:
  assumes "is_cstr name" "length name < 2 ^ 64" "32 \<le> length (cstr name)"
  shows "mcsfs1_create (Some fs) (Some name) = Some (MCSFS1_EINVAL, Some fs)"
proof -
  have "length (cstr name) < 2 ^ 64" 
    using assms(2) length_takeWhile_le [of "\<lambda>c. c \<noteq> 0" name] unfolding cstr_def by linarith
  then show ?thesis using mcsfs1_strlen_correct [OF assms(1), of 0] len_bound assms(3) by (simp add: mcsfs1_create_def)
qed

lemma create_abs:
  assumes "unat (fs_inode_count fs') = Suc (unat (fs_inode_count fs))"
    "fs_name fs' (unat (fs_inode_count fs)) = name" "fs_content fs' (unat (fs_inode_count fs)) = []"
    "\<forall>i<unat (fs_inode_count fs). fs_inodes fs' ! i = fs_inodes fs ! i"
  shows "abs_fs fs' = \<lparr>contents = [name \<mapsto> []] ++ contents (abs_fs fs), inodes_used = Suc (inodes_used (abs_fs fs))\<rparr>"
proof -
  have old: "\<forall>i<unat (fs_inode_count fs). fs_name fs' i = fs_name fs i"
    "fs_content fs' i = fs_content fs i" if "fs_entry fs x = Some i" for i x
    using assms(4) fs_entry_bound [OF that] by (auto simp: fs_name_def fs_content_def)
  have names: "\<forall>i<unat (fs_inode_count fs). fs_name fs' i = fs_name fs i" using assms(4) by (simp add: fs_name_def)
  have "map_option (fs_content fs') (fs_entry fs' x) =
      ([name \<mapsto> []] ++ (\<lambda>name. map_option (fs_content fs) (fs_entry fs name))) x" for x
    unfolding fs_entry_append [OF assms(1,2) names] using assms(3) old(2)
    by (cases "fs_entry fs x") (auto simp: map_add_def)
  then show ?thesis using assms(1) by (simp add: abs_fs_def fun_eq_iff)
qed

definition call_refines :: "fs_call \<Rightarrow> mcsfs1 \<Rightarrow> bool" where
  "call_refines c fs \<longleftrightarrow> (\<exists>fs'. fs_exec c fs = Some (fst (spec_call c (abs_fs fs)), fs') \<and> mcsfs1_ok fs' \<and>
     abs_fs fs' = snd (spec_call c (abs_fs fs)))"

lemma mcsfs1_create_refines:
  assumes "mcsfs1_ok fs" and ok: "is_cstr name" "length name < 2 ^ 64"
  shows "call_refines (Create (Some name)) fs"
proof -
  consider (long) "32 \<le> length (cstr name)" | (full) "length (cstr name) < 32" "unat (fs_inode_count fs) = 32"
    | (room) "length (cstr name) < 32" "unat (fs_inode_count fs) < 32"
    using mcsfs1_facts(2) [OF assms(1)] by linarith
  then show ?thesis
  proof cases
    case long
    then show ?thesis using create_long [OF ok long] assms(1) by (simp add: call_refines_def)
  next
    case full
    then show ?thesis using mcsfs1_create_full [OF assms(1) full(2) ok(1) full(1)] assms(1)
      by (simp add: call_refines_def abs_fs_def)
  next
    case room
    from mcsfs1_create_ok [OF assms(1) room(2) ok(1) room(1)] obtain fs' where
      "mcsfs1_create (Some fs) (Some name) = Some (MCSFS1_OK, Some fs')" "mcsfs1_ok fs'"
      "abs_fs fs' = \<lparr>contents = [cstr name \<mapsto> []] ++ contents (abs_fs fs), inodes_used = Suc (inodes_used (abs_fs fs))\<rparr>"
      using create_abs by blast
    then show ?thesis using room by (simp add: call_refines_def abs_fs_def)
  qed
qed

lemma mcsfs1_store_refines:
  assumes "mcsfs1_ok fs" and ok: "is_cstr name" "unat sz \<le> length dat"
  shows "call_refines (Store name dat sz) fs"
proof (cases "256 < unat sz \<or> fs_entry fs (cstr name) = None")
  case True
  then show ?thesis using mcsfs1_find_entry [OF assms(1) ok(1)] assms(1)
    by (auto simp: call_refines_def mcsfs1_write_def abs_fs_def word_less_nat_alt)
next
  case False
  then obtain i where i: "fs_entry fs (cstr name) = Some i" "unat sz \<le> 256" by auto
  obtain fs' where w: "mcsfs1_write fs name dat sz = Some (MCSFS1_OK, fs')" "mcsfs1_ok fs'"
    "fs_entry fs' = fs_entry fs" "fs_content fs' i = take (unat sz) dat"
    "\<forall>j. j \<noteq> i \<longrightarrow> fs_content fs' j = fs_content fs j" "fs_inode_count fs' = fs_inode_count fs"
    using mcsfs1_write_effect [OF assms(1) ok(1) i ok(2)] by blast
  have "fs_entry fs x \<noteq> Some i" if "x \<noteq> cstr name" for x using fs_entry_bound i(1) that by metis
  then have "abs_fs fs' = (abs_fs fs)\<lparr>contents := (contents (abs_fs fs))(cstr name \<mapsto> take (unat sz) dat)\<rparr>"
    using w(3-6) i(1) by (auto simp: abs_fs_def fun_eq_iff split: option.split) (metis map_option_cong)
  then show ?thesis using w(1,2) i by (simp add: call_refines_def abs_fs_def)
qed

lemma mcsfs1_exec_refines:
  assumes "mcsfs1_ok fs" "fs_call_ok c"
  shows "call_refines c fs"
proof (cases c)
  case (Create nameo)
  then show ?thesis using assms mcsfs1_create_refines [OF assms(1)]
    by (cases nameo) (auto simp: call_refines_def mcsfs1_create_def)
next
  case (Store name dat sz)
  then show ?thesis using assms mcsfs1_store_refines by simp
next
  case (Load name buffer sz)
  then show ?thesis using mcsfs1_read_exact [OF assms(1), of name sz buffer] assms
    by (auto simp: call_refines_def abs_fs_def split: option.split)
qed

interpretation name_files: simulation fs_exec spec_call "\<lambda>fs s. mcsfs1_ok fs \<and> s = abs_fs fs" "\<lambda>s. fs_call_ok"
  by unfold_locales (use mcsfs1_exec_refines in \<open>fastforce simp: call_refines_def\<close>)

text \<open>
  C33. The file system implements a finite map: after \<open>mcsfs1_init\<close>, on any memory that has the size of the object,
  every sequence of creates, writes and reads is defined and returns exactly what a map from names to byte
  strings returns, with at most 32 creates, names of at most 31 and contents of at most 256 bytes. Creating
  an existing name reports success, keeps the content and uses up one of the 32 creates.
\<close>

theorem mcsfs1_refines_map:
  assumes "length (fs_inodes fs) = 32"
    "\<forall>i<32. length (i_name (fs_inodes fs ! i)) = 32 \<and> length (i_data (fs_inodes fs ! i)) = 256"
    "\<forall>c\<in>set cs. fs_call_ok c"
  shows "\<exists>fs0 fs'. mcsfs1_init fs = Some fs0 \<and>
    fs_run cs fs0 = Some (fst (spec_calls cs \<lparr>contents = Map.empty, inodes_used = 0\<rparr>), fs') \<and>
    abs_fs fs' = snd (spec_calls cs \<lparr>contents = Map.empty, inodes_used = 0\<rparr>)"
proof -
  obtain fs0 where fs0: "mcsfs1_init fs = Some fs0" "mcsfs1_ok fs0" "fs_inode_count fs0 = 0"
    using mcsfs1_init_ok [OF assms(1,2)] by blast
  have "abs_fs fs0 = \<lparr>contents = Map.empty, inodes_used = 0\<rparr>"
    using fs0(3) by (simp add: abs_fs_def fs_entry_def fun_eq_iff)
  then show ?thesis using name_files.runs_simulated [of fs0 _ cs] fs0(1,2) assms(3) by fastforce
qed

theorem mcsfs1_refines_map_witness:
  "\<exists>fs0 fs'. mcsfs1_init blank_mcsfs1 = Some fs0 \<and>
     fs_run [Create (Some [0x61, 0]), Store [0x61, 0] [5, 6] 2, Create (Some [0x61, 0]), Load [0x61, 0] [0, 0, 0] 3,
       Load [0x62, 0] [0] 1] fs0 =
     Some ([(MCSFS1_OK, []), (MCSFS1_OK, []), (MCSFS1_OK, []), (2, [5, 6, 0]), (MCSFS1_ENOENT, [0])], fs')"
proof -
  let ?cs = "[Create (Some [0x61, 0]), Store [0x61, 0] [5, 6] 2, Create (Some [0x61, 0]), Load [0x61, 0] [0, 0, 0] 3,
       Load [0x62, 0] [0] 1]"
  have ok: "\<forall>c\<in>set ?cs. fs_call_ok c" by simp
  have blank: "length (fs_inodes blank_mcsfs1) = 32"
    "\<forall>i<32. length (i_name (fs_inodes blank_mcsfs1 ! i)) = 32 \<and> length (i_data (fs_inodes blank_mcsfs1 ! i)) = 256"
    by (simp_all add: blank_mcsfs1_def)
  have "fst (spec_calls ?cs \<lparr>contents = Map.empty, inodes_used = 0\<rparr>) =
      [(MCSFS1_OK, []), (MCSFS1_OK, []), (MCSFS1_OK, []), (2, [5, 6, 0]), (MCSFS1_ENOENT, [0])]"
    by (simp add: cstr_def blit_def map_add_def Let_def)
  then show ?thesis using mcsfs1_refines_map [OF blank ok] by auto
qed

end
