(* ===== verification/M15_Fs.thy ===== *)
theory M15_Fs
  imports Named_Store
begin

text \<open>
  The kernel version of MCSFS1, \<open>src/kernel/fs/m15_mcsfs1.c\<close>: 32 inodes over one data area of 4096
  bytes. A file starts at the value that \<open>data_used\<close> had when it was created. A null file
  system or name is \<open>None\<close>.
\<close>

section \<open>Model\<close>

abbreviation M15_MCSFS1_MAGIC :: u64 where "M15_MCSFS1_MAGIC \<equiv> 0x4D4353465331"
abbreviation M15_MCSFS1_OK :: int where "M15_MCSFS1_OK \<equiv> 0"
abbreviation M15_MCSFS1_EINVAL :: int where "M15_MCSFS1_EINVAL \<equiv> - 1"
abbreviation M15_MCSFS1_ENOENT :: int where "M15_MCSFS1_ENOENT \<equiv> - 2"
abbreviation M15_MCSFS1_ENOSPC :: int where "M15_MCSFS1_ENOSPC \<equiv> - 3"
abbreviation M15_MCSFS1_MAX_FILES :: u64 where "M15_MCSFS1_MAX_FILES \<equiv> 32"
abbreviation M15_MCSFS1_DATA_SIZE :: u64 where "M15_MCSFS1_DATA_SIZE \<equiv> 4096"

record m15_mcsfs1_inode =
  k_name :: "u8 list"
  k_offset :: u64
  k_size :: u64
  k_used :: u8

record m15_mcsfs1 =
  k_magic :: u64
  k_inode_count :: u64
  k_data_used :: u64
  k_inodes :: "m15_mcsfs1_inode list"
  k_data :: "u8 list"

definition m15_strcmp :: "u8 list \<Rightarrow> u8 list \<Rightarrow> int option" where
  "m15_strcmp a b = strcmp_loop a b"

definition m15_strcpy :: "u8 list \<Rightarrow> u8 list \<Rightarrow> u8 list option" where
  "m15_strcpy dst src = strcpy_loop dst 0 src"

definition m15_memcpy :: "u8 list \<Rightarrow> nat \<Rightarrow> u8 list \<Rightarrow> nat \<Rightarrow> u64 \<Rightarrow> u8 list option" where
  "m15_memcpy dst d src s sz = copy_bytes dst d src s (unat sz)"

definition m15_find_inode :: "m15_mcsfs1 \<Rightarrow> u8 list \<Rightarrow> nat option option" where
  "m15_find_inode fs name =
     scan (\<lambda>i. do { n \<leftarrow> rd (k_inodes fs) i;
                    if k_used n = 0 then Some False
                    else do { r \<leftarrow> m15_strcmp (k_name n) name; Some (r = 0) } })
       (unat (k_inode_count fs)) 0"

definition m15_mcsfs1_init :: "m15_mcsfs1 \<Rightarrow> m15_mcsfs1 option" where
  "m15_mcsfs1_init fs = do {
     ns \<leftarrow> for_up (\<lambda>i ns. do { n \<leftarrow> rd ns i; wr ns i (n\<lparr>k_used := 0\<rparr>) }) 32 0 (k_inodes fs);
     Some (fs\<lparr>k_magic := M15_MCSFS1_MAGIC, k_inode_count := 0, k_data_used := 0, k_inodes := ns\<rparr>)
   }"

definition m15_mcsfs1_create :: "m15_mcsfs1 option \<Rightarrow> u8 list option \<Rightarrow> (int \<times> m15_mcsfs1 option) option" where
  "m15_mcsfs1_create fso nameo =
     (case (fso, nameo) of
        (Some fs, Some name) \<Rightarrow>
          if M15_MCSFS1_MAX_FILES \<le> k_inode_count fs then Some (M15_MCSFS1_ENOSPC, fso)
          else do {
            let i = unat (k_inode_count fs);
            n \<leftarrow> rd (k_inodes fs) i;
            nm \<leftarrow> m15_strcpy (k_name n) name;
            ns \<leftarrow> wr (k_inodes fs) i \<lparr>k_name = nm, k_offset = k_data_used fs, k_size = 0, k_used = 1\<rparr>;
            Some (M15_MCSFS1_OK, Some (fs\<lparr>k_inodes := ns, k_inode_count := k_inode_count fs + 1\<rparr>))
          }
      | _ \<Rightarrow> Some (M15_MCSFS1_EINVAL, fso))"

definition m15_mcsfs1_write :: "m15_mcsfs1 \<Rightarrow> u8 list \<Rightarrow> u8 list \<Rightarrow> u64 \<Rightarrow> (int \<times> m15_mcsfs1) option" where
  "m15_mcsfs1_write fs name buffer sz = do {
     hit \<leftarrow> m15_find_inode fs name;
     (case hit of
        None \<Rightarrow> Some (M15_MCSFS1_ENOENT, fs)
      | Some i \<Rightarrow> do {
          n \<leftarrow> rd (k_inodes fs) i;
          if M15_MCSFS1_DATA_SIZE \<le> k_offset n + sz then Some (M15_MCSFS1_ENOSPC, fs)
          else do {
            d \<leftarrow> m15_memcpy (k_data fs) (unat (k_offset n)) buffer 0 sz;
            ns \<leftarrow> wr (k_inodes fs) i (n\<lparr>k_size := sz\<rparr>);
            Some (sint (ucast sz :: 32 word),
              fs\<lparr>k_data := d, k_inodes := ns, k_data_used := k_offset n + sz\<rparr>)
          } })
   }"

definition m15_mcsfs1_read :: "m15_mcsfs1 \<Rightarrow> u8 list \<Rightarrow> u8 list \<Rightarrow> u64 \<Rightarrow> (int \<times> u8 list) option" where
  "m15_mcsfs1_read fs name buffer sz = do {
     hit \<leftarrow> m15_find_inode fs name;
     (case hit of
        None \<Rightarrow> Some (M15_MCSFS1_ENOENT, buffer)
      | Some i \<Rightarrow> do {
          n \<leftarrow> rd (k_inodes fs) i;
          let k = (if k_size n < sz then k_size n else sz);
          b \<leftarrow> m15_memcpy buffer 0 (k_data fs) (unat (k_offset n)) k;
          Some (sint k, b) })
   }"

section \<open>Invariant and contents\<close>

definition extent_ok :: "m15_mcsfs1_inode \<Rightarrow> bool" where
  "extent_ok n \<longleftrightarrow> k_used n \<noteq> 0 \<and> is_cstr (k_name n) \<and> unat (k_offset n) + unat (k_size n) < 4096"

definition m15_ok :: "m15_mcsfs1 \<Rightarrow> bool" where
  "m15_ok fs \<longleftrightarrow> length (k_inodes fs) = 32 \<and> length (k_data fs) = 4096 \<and>
     unat (k_inode_count fs) \<le> 32 \<and> unat (k_data_used fs) < 4096 \<and>
     (\<forall>i<32. length (k_name (k_inodes fs ! i)) = 64) \<and>
     (\<forall>i<unat (k_inode_count fs). extent_ok (k_inodes fs ! i))"

definition k_start :: "m15_mcsfs1 \<Rightarrow> nat \<Rightarrow> nat" where
  "k_start fs i = unat (k_offset (k_inodes fs ! i))"

definition k_length :: "m15_mcsfs1 \<Rightarrow> nat \<Rightarrow> nat" where
  "k_length fs i = unat (k_size (k_inodes fs ! i))"

definition k_content :: "m15_mcsfs1 \<Rightarrow> nat \<Rightarrow> u8 list" where
  "k_content fs i = take (k_length fs i) (drop (k_start fs i) (k_data fs))"

definition k_label :: "m15_mcsfs1 \<Rightarrow> nat \<Rightarrow> u8 list" where
  "k_label fs i = cstr (k_name (k_inodes fs ! i))"

definition k_entry :: "m15_mcsfs1 \<Rightarrow> u8 list \<Rightarrow> nat option" where
  "k_entry fs name = find (\<lambda>i. k_label fs i = name) [0..<unat (k_inode_count fs)]"

lemma m15_facts:
  assumes "m15_ok fs"
  shows "length (k_inodes fs) = 32" "length (k_data fs) = 4096" "unat (k_inode_count fs) \<le> 32"
    "unat (k_data_used fs) < 4096" "i < 32 \<Longrightarrow> length (k_name (k_inodes fs ! i)) = 64"
    "i < unat (k_inode_count fs) \<Longrightarrow> k_start fs i + k_length fs i < 4096"
    "i < unat (k_inode_count fs) \<Longrightarrow> extent_ok (k_inodes fs ! i)"
  using assms by (auto simp: m15_ok_def extent_ok_def k_start_def k_length_def)

lemma k_entry_bound: "k_entry fs name = Some i \<Longrightarrow> i < unat (k_inode_count fs) \<and> k_label fs i = name"
  by (simp add: k_entry_def find_upt_Some)

lemma m15_find_entry:
  assumes "m15_ok fs" "is_cstr name"
  shows "m15_find_inode fs name = Some (k_entry fs (cstr name))"
proof -
  note F = m15_facts [OF assms(1)]
  have "do { n \<leftarrow> rd (k_inodes fs) i; if k_used n = 0 then Some False
      else do { r \<leftarrow> m15_strcmp (k_name n) name; Some (r = 0) } } = Some (k_label fs i = cstr name)"
    if "i < unat (k_inode_count fs)" for i
  proof -
    have "k_used (k_inodes fs ! i) \<noteq> 0" "is_cstr (k_name (k_inodes fs ! i))"
      using F(7) [OF that] by (auto simp: extent_ok_def)
    moreover from this obtain r where "strcmp_loop (k_name (k_inodes fs ! i)) name = Some r"
      "r = 0 \<longleftrightarrow> cstr (k_name (k_inodes fs ! i)) = cstr name"
      using strcmp_loop_correct assms(2) by blast
    ultimately show ?thesis using that F(1,3) by (simp add: m15_strcmp_def k_label_def)
  qed
  then show ?thesis
    unfolding m15_find_inode_def k_entry_def
    by (subst scan_find [where P = "\<lambda>i. k_label fs i = cstr name"]) auto
qed

section \<open>Operations\<close>

lemma m15_create_full:
  assumes "unat (k_inode_count fs) = 32"
  shows "m15_mcsfs1_create (Some fs) (Some name) = Some (M15_MCSFS1_ENOSPC, Some fs)"
  using assms by (simp add: m15_mcsfs1_create_def word_le_nat_alt)

lemma m15_create_ok:
  assumes "m15_ok fs" "unat (k_inode_count fs) < 32" "is_cstr name" "length (cstr name) < 64"
  shows "\<exists>fs'. m15_mcsfs1_create (Some fs) (Some name) = Some (M15_MCSFS1_OK, Some fs') \<and> m15_ok fs' \<and>
    unat (k_inode_count fs') = Suc (unat (k_inode_count fs)) \<and> k_data fs' = k_data fs \<and>
    k_data_used fs' = k_data_used fs \<and> k_label fs' (unat (k_inode_count fs)) = cstr name \<and>
    k_start fs' (unat (k_inode_count fs)) = unat (k_data_used fs) \<and>
    k_length fs' (unat (k_inode_count fs)) = 0 \<and>
    (\<forall>i<unat (k_inode_count fs). k_inodes fs' ! i = k_inodes fs ! i)"
proof -
  note F = m15_facts [OF assms(1)]
  let ?c = "unat (k_inode_count fs)"
  let ?nm = "blit (k_name (k_inodes fs ! ?c)) 0 (cstr name @ [0])"
  let ?n = "\<lparr>k_name = ?nm, k_offset = k_data_used fs, k_size = 0, k_used = 1\<rparr>"
  let ?fs = "fs\<lparr>k_inodes := (k_inodes fs)[?c := ?n], k_inode_count := k_inode_count fs + 1\<rparr>"
  have "strcpy_loop (k_name (k_inodes fs ! ?c)) 0 name = Some ?nm"
    using strcpy_loop_Some [OF assms(3), of 0] F(5) [of ?c] assms(2,4) by simp
  moreover have "\<not> M15_MCSFS1_MAX_FILES \<le> k_inode_count fs" using assms(2) by (simp add: word_le_nat_alt)
  ultimately have run: "m15_mcsfs1_create (Some fs) (Some name) = Some (M15_MCSFS1_OK, Some ?fs)"
    using F(1) assms(2) by (simp add: m15_mcsfs1_create_def m15_strcpy_def Let_def)
  have cnt: "unat (k_inode_count fs + 1) = Suc ?c"
    using assms(2) by (intro unat_plus_one [of _ 32]) (simp add: word_less_nat_alt)
  have nm: "?nm = cstr name @ 0 # drop (Suc (length (cstr name))) (k_name (k_inodes fs ! ?c))"
    by (simp add: blit_def)
  have "length ?nm = 64" using F(5) [of ?c] assms(2,4) by simp
  then have "m15_ok ?fs"
    using F assms(2) cnt nm by (auto simp: m15_ok_def nth_list_update less_Suc_eq extent_ok_def)
  moreover have "k_label ?fs ?c = cstr name" "k_start ?fs ?c = unat (k_data_used fs)" "k_length ?fs ?c = 0"
    using F(1) assms(2) nm by (simp_all add: k_label_def k_start_def k_length_def)
  ultimately show ?thesis using run cnt by (intro exI [of _ ?fs]) simp
qed

lemma k_entry_append:
  assumes "unat (k_inode_count fs') = Suc (unat (k_inode_count fs))"
    "k_label fs' (unat (k_inode_count fs)) = name"
    "\<forall>i<unat (k_inode_count fs). k_inodes fs' ! i = k_inodes fs ! i"
  shows "k_entry fs' = (if k_entry fs name = None then (k_entry fs)(name \<mapsto> unat (k_inode_count fs))
    else k_entry fs)"
proof -
  have eq: "k_entry gs = (\<lambda>x. find (\<lambda>i. k_label gs i = x) [0..<unat (k_inode_count gs)])" for gs
    by (simp add: k_entry_def fun_eq_iff)
  show ?thesis
    unfolding eq assms(1) by (rule find_append_map) (use assms(2,3) in \<open>auto simp: k_label_def\<close>)
qed

lemma m15_create_new:
  assumes "m15_ok fs" "unat (k_inode_count fs) < 32" "is_cstr name" "length (cstr name) < 64"
    "k_entry fs (cstr name) = None"
  shows "\<exists>fs'. m15_mcsfs1_create (Some fs) (Some name) = Some (M15_MCSFS1_OK, Some fs') \<and> m15_ok fs' \<and>
    unat (k_inode_count fs') = Suc (unat (k_inode_count fs)) \<and> k_data fs' = k_data fs \<and>
    k_data_used fs' = k_data_used fs \<and> k_start fs' (unat (k_inode_count fs)) = unat (k_data_used fs) \<and>
    k_entry fs' = (k_entry fs)(cstr name \<mapsto> unat (k_inode_count fs)) \<and>
    (\<forall>i<unat (k_inode_count fs). k_start fs' i = k_start fs i \<and> k_length fs' i = k_length fs i)"
proof -
  obtain fs' where fs': "m15_mcsfs1_create (Some fs) (Some name) = Some (M15_MCSFS1_OK, Some fs')" "m15_ok fs'"
    "unat (k_inode_count fs') = Suc (unat (k_inode_count fs))" "k_data fs' = k_data fs"
    "k_data_used fs' = k_data_used fs" "k_label fs' (unat (k_inode_count fs)) = cstr name"
    "k_start fs' (unat (k_inode_count fs)) = unat (k_data_used fs)"
    "\<forall>i<unat (k_inode_count fs). k_inodes fs' ! i = k_inodes fs ! i"
    using m15_create_ok [OF assms(1-4)] by blast
  moreover have "k_entry fs' = (k_entry fs)(cstr name \<mapsto> unat (k_inode_count fs))"
    using k_entry_append [OF fs'(3,6,8)] assms(5) by simp
  moreover have "\<forall>i<unat (k_inode_count fs). k_start fs' i = k_start fs i \<and> k_length fs' i = k_length fs i"
    using fs'(8) by (simp add: k_start_def k_length_def)
  ultimately show ?thesis by blast
qed

interpretation m15: named_store m15_ok "\<lambda>fs. 32 - unat (k_inode_count fs)" "\<lambda>s. length s < 64"
  k_entry m15_find_inode
  "\<lambda>fs p. map_option (map_prod (\<lambda>r. r = M15_MCSFS1_OK) the) (m15_mcsfs1_create (Some fs) (Some p))"
proof (unfold_locales, goal_cases)
  case (1 s p)
  then show ?case by (rule m15_find_entry)
next
  case (2 s p)
  then obtain fs' where fs': "m15_mcsfs1_create (Some s) (Some p) = Some (M15_MCSFS1_OK, Some fs')" "m15_ok fs'"
    "unat (k_inode_count fs') = Suc (unat (k_inode_count s))" "k_label fs' (unat (k_inode_count s)) = cstr p"
    "\<forall>i<unat (k_inode_count s). k_inodes fs' ! i = k_inodes s ! i"
    using m15_create_ok [of s p] by auto
  moreover have "unat (k_inode_count s) \<notin> ran (k_entry s)" using k_entry_bound [of s] by (auto simp: ran_def)
  ultimately show ?case using 2 k_entry_append [OF fs'(3-5)] by auto
next
  case (3 s p)
  then have "unat (k_inode_count s) = 32" using m15_facts(3) [of s] by simp
  then show ?case using m15_create_full by simp
qed

lemma m15_write_effect:
  assumes "m15_ok fs" "is_cstr name" "k_entry fs (cstr name) = Some i" "unat sz \<le> length buffer"
    "k_start fs i + unat sz < 4096"
  shows "\<exists>fs'. m15_mcsfs1_write fs name buffer sz = Some (int (unat sz), fs') \<and> m15_ok fs' \<and>
    k_inode_count fs' = k_inode_count fs \<and> k_label fs' = k_label fs \<and> k_start fs' = k_start fs \<and>
    k_length fs' = (k_length fs)(i := unat sz) \<and> unat (k_data_used fs') = k_start fs i + unat sz \<and>
    k_data fs' = blit (k_data fs) (k_start fs i) (take (unat sz) buffer)"
proof -
  note F = m15_facts [OF assms(1)]
  have i: "i < unat (k_inode_count fs)" "i < 32" using k_entry_bound [OF assms(3)] F(3) by auto
  let ?n = "k_inodes fs ! i"
  let ?d = "blit (k_data fs) (k_start fs i) (take (unat sz) buffer)"
  let ?fs = "fs\<lparr>k_data := ?d, k_inodes := (k_inodes fs)[i := ?n\<lparr>k_size := sz\<rparr>], k_data_used := k_offset ?n + sz\<rparr>"
  have sum: "unat (k_offset ?n + sz) = k_start fs i + unat sz"
    using assms(5) unfolding k_start_def by (intro unat_add_lem [THEN iffD1]) simp
  have "m15_memcpy (k_data fs) (unat (k_offset ?n)) buffer 0 sz = Some ?d"
    using F(2) assms(4,5) by (simp add: m15_memcpy_def copy_bytes_Some k_start_def)
  moreover have "sint (ucast sz :: 32 word) = int (unat sz)" using assms(5) by (intro sint_ucast_small) simp
  ultimately have "m15_mcsfs1_write fs name buffer sz = Some (int (unat sz), ?fs)"
    using m15_find_entry [OF assms(1,2)] assms(3,5) F(1) i(2) sum
    by (simp add: m15_mcsfs1_write_def word_le_nat_alt)
  moreover have "m15_ok ?fs"
    using assms(1,4,5) sum F(1,2) i by (auto simp: m15_ok_def nth_list_update extent_ok_def k_start_def)
  moreover have "k_label ?fs = k_label fs" "k_start ?fs = k_start fs" "k_length ?fs = (k_length fs)(i := unat sz)"
    using F(1) i(2) by (auto simp: k_label_def k_start_def k_length_def nth_list_update fun_eq_iff)
  ultimately show ?thesis using sum by (intro exI [of _ ?fs]) simp
qed

lemma m15_read_exact:
  assumes "m15_ok fs" "is_cstr name" "unat sz \<le> length buffer"
  shows "m15_mcsfs1_read fs name buffer sz = (case k_entry fs (cstr name) of
      None \<Rightarrow> Some (M15_MCSFS1_ENOENT, buffer)
    | Some i \<Rightarrow> Some (int (min (unat sz) (length (k_content fs i))),
        blit buffer 0 (take (unat sz) (k_content fs i))))"
proof (cases "k_entry fs (cstr name)")
  case None
  then show ?thesis using m15_find_entry [OF assms(1,2)] by (simp add: m15_mcsfs1_read_def)
next
  case (Some i)
  note F = m15_facts [OF assms(1)]
  have i: "i < unat (k_inode_count fs)" "i < 32" using k_entry_bound [OF Some] F(3) by auto
  let ?n = "k_inodes fs ! i"
  let ?k = "if k_size ?n < sz then k_size ?n else sz"
  have ext: "unat (k_offset ?n) + unat (k_size ?n) < 4096" using F(7) [OF i(1)] by (simp add: extent_ok_def)
  have len: "length (k_content fs i) = unat (k_size ?n)"
    using ext F(2) by (simp add: k_content_def k_length_def k_start_def)
  have k: "unat ?k = min (unat sz) (unat (k_size ?n))" by (simp add: word_less_nat_alt min_def)
  have "m15_memcpy buffer 0 (k_data fs) (unat (k_offset ?n)) ?k =
      Some (blit buffer 0 (take (unat ?k) (drop (unat (k_offset ?n)) (k_data fs))))"
    using F(2) ext k assms(3) by (simp add: m15_memcpy_def copy_bytes_Some)
  moreover have "take (unat ?k) (drop (unat (k_offset ?n)) (k_data fs)) = take (unat sz) (k_content fs i)"
    unfolding k by (simp add: k_content_def k_length_def k_start_def min.commute)
  moreover have "sint ?k = int (unat ?k)" using k ext by (intro sint_small) simp
  ultimately show ?thesis
    using m15_find_entry [OF assms(1,2)] Some F(1) i(2) k len by (simp add: m15_mcsfs1_read_def Let_def)
qed

section \<open>Files stored one after the other\<close>

text \<open>
  \<open>laid_out\<close>: the extents follow each other in the order of the inodes, up to \<open>data_used\<close>. It is kept
  by storing a new file completely before the next one is created.
\<close>

definition laid_out :: "m15_mcsfs1 \<Rightarrow> bool" where
  "laid_out fs \<longleftrightarrow> (\<forall>i<unat (k_inode_count fs). k_start fs i + k_length fs i \<le> unat (k_data_used fs))"

definition store_file :: "m15_mcsfs1 \<Rightarrow> u8 list \<times> u8 list \<Rightarrow> m15_mcsfs1 option" where
  "store_file fs f = do {
     (r, fo) \<leftarrow> m15_mcsfs1_create (Some fs) (Some (fst f));
     fs1 \<leftarrow> fo;
     (r', fs2) \<leftarrow> m15_mcsfs1_write fs1 (fst f) (snd f) (of_nat (length (snd f)));
     Some fs2
   }"

fun store_files :: "m15_mcsfs1 \<Rightarrow> (u8 list \<times> u8 list) list \<Rightarrow> m15_mcsfs1 option" where
  "store_files fs [] = Some fs"
| "store_files fs (f # fl) = do { fs' \<leftarrow> store_file fs f; store_files fs' fl }"

lemma store_file_correct:
  assumes "m15_ok fs" "laid_out fs" "unat (k_inode_count fs) < 32" "is_cstr p" "length (cstr p) < 64"
    "k_entry fs (cstr p) = None" "unat (k_data_used fs) + length dat < 4096"
  shows "\<exists>fs'. store_file fs (p, dat) = Some fs' \<and> m15_ok fs' \<and> laid_out fs' \<and>
    unat (k_inode_count fs') = Suc (unat (k_inode_count fs)) \<and>
    unat (k_data_used fs') = unat (k_data_used fs) + length dat \<and>
    k_entry fs' = (k_entry fs)(cstr p \<mapsto> unat (k_inode_count fs)) \<and>
    k_content fs' (unat (k_inode_count fs)) = dat \<and>
    (\<forall>i<unat (k_inode_count fs). k_content fs' i = k_content fs i)"
proof -
  let ?c = "unat (k_inode_count fs)"
  obtain f1 where f1: "m15_mcsfs1_create (Some fs) (Some p) = Some (M15_MCSFS1_OK, Some f1)" "m15_ok f1"
    "unat (k_inode_count f1) = Suc ?c" "k_data f1 = k_data fs" "k_data_used f1 = k_data_used fs"
    "k_start f1 ?c = unat (k_data_used fs)" and e1: "k_entry f1 = (k_entry fs)(cstr p \<mapsto> ?c)"
    and kept: "\<forall>i<?c. k_start f1 i = k_start fs i \<and> k_length f1 i = k_length fs i"
    using m15_create_new [OF assms(1,3-6)] by blast
  have len: "unat (of_nat (length dat) :: u64) = length dat" using assms(7) by simp
  obtain f2 where f2: "m15_mcsfs1_write f1 p dat (of_nat (length dat)) = Some (int (length dat), f2)" "m15_ok f2"
    "k_inode_count f2 = k_inode_count f1" "k_label f2 = k_label f1" "k_start f2 = k_start f1"
    "k_length f2 = (k_length f1)(?c := length dat)" "unat (k_data_used f2) = unat (k_data_used fs) + length dat"
    "k_data f2 = blit (k_data fs) (unat (k_data_used fs)) dat"
    using m15_write_effect [OF f1(2) assms(4), of ?c "of_nat (length dat)" dat] e1 f1(4,6) assms(7) len by auto
  have old: "k_start f2 i = k_start fs i" "k_length f2 i = k_length fs i" if "i < ?c" for i
    using kept f2(5,6) that by simp_all
  have before: "k_start fs i + k_length fs i \<le> unat (k_data_used fs)" if "i < ?c" for i
    using assms(2) that by (simp add: laid_out_def)
  have "k_entry f2 = k_entry f1" using f2(3,4) by (simp add: k_entry_def fun_eq_iff)
  moreover have "laid_out f2"
    unfolding laid_out_def f2(3,7) f1(3)
  proof (intro allI impI)
    fix i assume "i < Suc ?c"
    then show "k_start f2 i + k_length f2 i \<le> unat (k_data_used fs) + length dat"
      using old [of i] before [of i] f1(6) f2(5,6) by (cases "i = ?c") auto
  qed
  moreover have "k_content f2 ?c = dat"
    using f1(6) f2(5,6,8) assms(7) m15_facts(2) [OF assms(1)] slice_blit_same [of "unat (k_data_used fs)" dat "k_data fs"]
    by (simp add: k_content_def)
  moreover have "k_content f2 i = k_content fs i" if "i < ?c" for i
    unfolding k_content_def old [OF that] f2(8)
    using before [OF that] assms(7) m15_facts(2) [OF assms(1)] by (intro slice_blit_other) auto
  ultimately show ?thesis using f1 f2 e1 by (intro exI [of _ f2]) (simp add: store_file_def)
qed

lemma store_files_correct:
  assumes "m15_ok fs" "laid_out fs" "length fl \<le> 32 - unat (k_inode_count fs)"
    "\<forall>f\<in>set fl. is_cstr (fst f) \<and> length (cstr (fst f)) < 64 \<and> k_entry fs (cstr (fst f)) = None"
    "distinct (map (cstr \<circ> fst) fl)"
    "unat (k_data_used fs) + sum_list (map (length \<circ> snd) fl) < 4096"
  shows "\<exists>fs'. store_files fs fl = Some fs' \<and> m15_ok fs' \<and> laid_out fs' \<and>
    (\<forall>name i. k_entry fs name = Some i \<longrightarrow> k_entry fs' name = Some i \<and> k_content fs' i = k_content fs i) \<and>
    (\<forall>f\<in>set fl. \<exists>i. k_entry fs' (cstr (fst f)) = Some i \<and> k_content fs' i = snd f)"
  using assms
proof (induction fl arbitrary: fs)
  case (Cons f fl)
  obtain p dat where f: "f = (p, dat)" by (cases f)
  let ?c = "unat (k_inode_count fs)"
  have "?c < 32" using Cons.prems(3) by simp
  then obtain f1 where f1: "store_file fs f = Some f1" "m15_ok f1" "laid_out f1"
    "unat (k_inode_count f1) = Suc ?c" "unat (k_data_used f1) = unat (k_data_used fs) + length dat"
    "k_entry f1 = (k_entry fs)(cstr p \<mapsto> ?c)" "k_content f1 ?c = dat"
    "\<forall>i<?c. k_content f1 i = k_content fs i"
    using store_file_correct [of fs p dat] Cons.prems f by auto
  have "length fl \<le> 32 - unat (k_inode_count f1)" using Cons.prems(3) f1(4) by simp
  moreover have "\<forall>g\<in>set fl. is_cstr (fst g) \<and> length (cstr (fst g)) < 64 \<and> k_entry f1 (cstr (fst g)) = None"
  proof
    fix g assume g: "g \<in> set fl"
    then have "(cstr \<circ> fst) g \<in> set (map (cstr \<circ> fst) fl)" unfolding set_map by (rule imageI)
    moreover have "cstr p \<notin> set (map (cstr \<circ> fst) fl)" using Cons.prems(5) f by (simp del: set_map add: o_def)
    ultimately have "cstr (fst g) \<noteq> cstr p" by (metis comp_apply)
    then show "is_cstr (fst g) \<and> length (cstr (fst g)) < 64 \<and> k_entry f1 (cstr (fst g)) = None"
      using g Cons.prems(4) f1(6) by simp
  qed
  moreover have "distinct (map (cstr \<circ> fst) fl)" "unat (k_data_used f1) + sum_list (map (length \<circ> snd) fl) < 4096"
    using Cons.prems(5,6) f f1(5) by (simp_all add: o_def)
  ultimately obtain fs' where fs': "store_files f1 fl = Some fs'" "m15_ok fs'" "laid_out fs'"
    "\<forall>name i. k_entry f1 name = Some i \<longrightarrow> k_entry fs' name = Some i \<and> k_content fs' i = k_content f1 i"
    "\<forall>g\<in>set fl. \<exists>i. k_entry fs' (cstr (fst g)) = Some i \<and> k_content fs' i = snd g"
    using Cons.IH [OF f1(2,3)] by blast
  have "k_entry fs' name = Some i \<and> k_content fs' i = k_content fs i" if "k_entry fs name = Some i" for name i
  proof -
    have "name \<noteq> cstr p" using that Cons.prems(4) f by auto
    then have "k_entry f1 name = Some i" using that f1(6) by simp
    then show ?thesis using fs'(4) f1(8) k_entry_bound [OF that] by simp
  qed
  moreover have "k_entry fs' (cstr p) = Some ?c \<and> k_content fs' ?c = dat"
    using spec [OF spec [OF fs'(4), of "cstr p"], of ?c] f1(6,7) by simp
  ultimately show ?case using f1(1) fs' f by auto
qed simp

section \<open>Properties\<close>

text \<open>
  C35. Files that are stored completely one after the other, by a create and one write each, are
  all kept: with distinct new names of at most 63 characters, at most 32 files and less than 4096
  bytes in total, reading any of them delivers exactly its bytes.
\<close>

theorem m15_store_files_kept:
  assumes "m15_ok fs" "laid_out fs" "length fl \<le> 32 - unat (k_inode_count fs)"
    "\<forall>f\<in>set fl. is_cstr (fst f) \<and> length (cstr (fst f)) < 64 \<and> k_entry fs (cstr (fst f)) = None"
    "distinct (map (cstr \<circ> fst) fl)"
    "unat (k_data_used fs) + sum_list (map (length \<circ> snd) fl) < 4096"
  shows "\<exists>fs'. store_files fs fl = Some fs' \<and> m15_ok fs' \<and>
    (\<forall>f\<in>set fl. m15_mcsfs1_read fs' (fst f) (replicate (length (snd f)) 0) (of_nat (length (snd f))) =
       Some (int (length (snd f)), snd f))"
proof -
  obtain fs' where fs': "store_files fs fl = Some fs'" "m15_ok fs'"
    "\<forall>f\<in>set fl. \<exists>i. k_entry fs' (cstr (fst f)) = Some i \<and> k_content fs' i = snd f"
    using store_files_correct [OF assms] by blast
  have "m15_mcsfs1_read fs' (fst f) (replicate (length (snd f)) 0) (of_nat (length (snd f))) =
      Some (int (length (snd f)), snd f)" if "f \<in> set fl" for f
  proof -
    obtain i where i: "k_entry fs' (cstr (fst f)) = Some i" "k_content fs' i = snd f" using fs'(3) \<open>f \<in> set fl\<close> by blast
    have "length (snd f) \<le> sum_list (map (length \<circ> snd) fl)"
      using that by (intro member_le_sum_list) auto
    then have len: "unat (of_nat (length (snd f)) :: u64) = length (snd f)" using assms(6) by simp
    have "is_cstr (fst f)" using assms(4) that by blast
    then show ?thesis
      using m15_read_exact [OF fs'(2), of "fst f" "of_nat (length (snd f))" "replicate (length (snd f)) 0"] i len
      by (simp add: blit_def)
  qed
  then show ?thesis using fs' by blast
qed

definition blank_m15 :: m15_mcsfs1 where
  "blank_m15 = \<lparr>k_magic = M15_MCSFS1_MAGIC, k_inode_count = 0, k_data_used = 0,
     k_inodes = replicate 32 \<lparr>k_name = replicate 64 0, k_offset = 0, k_size = 0, k_used = 0\<rparr>,
     k_data = replicate 4096 0\<rparr>"

lemma blank_m15_ok: "m15_ok blank_m15" "laid_out blank_m15" "k_inode_count blank_m15 = 0"
  "k_data_used blank_m15 = 0" "k_entry blank_m15 name = None"
  by (simp_all add: m15_ok_def laid_out_def blank_m15_def k_entry_def)

lemma m15_init_ok:
  assumes "length (k_inodes fs) = 32" "length (k_data fs) = 4096"
    "\<forall>i<32. length (k_name (k_inodes fs ! i)) = 64"
  shows "\<exists>fs'. m15_mcsfs1_init fs = Some fs' \<and> m15_ok fs' \<and> laid_out fs' \<and> k_inode_count fs' = 0"
proof -
  let ?I = "\<lambda>i ns. length ns = 32 \<and> (\<forall>k<32. length (k_name (ns ! k)) = 64)"
  have "\<exists>ns. for_up (\<lambda>i ns. do { n \<leftarrow> rd ns i; wr ns i (n\<lparr>k_used := 0\<rparr>) }) 32 0 (k_inodes fs) = Some ns \<and>
      ?I (0 + 32 :: nat) ns"
    by (rule for_up_rule [where I = ?I]) (use assms in \<open>auto simp: nth_list_update\<close>)
  then show ?thesis using assms(2) by (auto simp: m15_mcsfs1_init_def m15_ok_def laid_out_def)
qed

theorem m15_store_files_kept_witness:
  "\<exists>fs'. store_files blank_m15 [([0x61, 0], [1, 2]), ([0x62, 0], [3])] = Some fs' \<and>
     m15_mcsfs1_read fs' [0x61, 0] [0, 0] 2 = Some (2, [1, 2])"
proof -
  let ?fl = "[([0x61, 0], [1, 2]), ([0x62, 0], [3])] :: (u8 list \<times> u8 list) list"
  have "\<exists>fs'. store_files blank_m15 ?fl = Some fs' \<and> m15_ok fs' \<and>
      (\<forall>f\<in>set ?fl. m15_mcsfs1_read fs' (fst f) (replicate (length (snd f)) 0) (of_nat (length (snd f))) =
         Some (int (length (snd f)), snd f))"
    by (rule m15_store_files_kept [OF blank_m15_ok(1,2)]) (simp_all add: blank_m15_ok)
  moreover have "replicate 2 (0 :: u8) = [0, 0]" by (simp add: numeral_2_eq_2)
  ultimately show ?thesis by (auto simp del: store_files.simps)
qed

text \<open>
  C36. Two files that are created before either is written share their start: the second write
  overwrites the first file. After creating two new names and writing the same number of bytes to
  each in turn, reading the first delivers the bytes of the second.
\<close>

theorem m15_files_alias:
  assumes "m15_ok fs" "unat (k_inode_count fs) < 31" "is_cstr p" "is_cstr q" "length (cstr p) < 64"
    "length (cstr q) < 64" "cstr p \<noteq> cstr q" "k_entry fs (cstr p) = None" "k_entry fs (cstr q) = None"
    "unat (k_data_used fs) + unat sz < 4096" "length a = unat sz" "length b = unat sz"
  shows "\<exists>f1 f2 f3 f4. m15_mcsfs1_create (Some fs) (Some p) = Some (M15_MCSFS1_OK, Some f1) \<and>
    m15_mcsfs1_create (Some f1) (Some q) = Some (M15_MCSFS1_OK, Some f2) \<and>
    m15_mcsfs1_write f2 p a sz = Some (int (unat sz), f3) \<and>
    m15_mcsfs1_write f3 q b sz = Some (int (unat sz), f4) \<and>
    m15_mcsfs1_read f4 p (replicate (unat sz) 0) sz = Some (int (unat sz), b)"
proof -
  let ?c = "unat (k_inode_count fs)" and ?u = "unat (k_data_used fs)"
  obtain f1 where f1: "m15_mcsfs1_create (Some fs) (Some p) = Some (M15_MCSFS1_OK, Some f1)" "m15_ok f1"
    "unat (k_inode_count f1) = Suc ?c" "k_data_used f1 = k_data_used fs"
    "k_entry f1 = (k_entry fs)(cstr p \<mapsto> ?c)" "k_start f1 ?c = ?u"
    using m15_create_new [OF assms(1) _ assms(3,5,8)] assms(2) by auto
  have "unat (k_inode_count f1) < 32" "k_entry f1 (cstr q) = None" using f1(3,5) assms(2,7,9) by auto
  then obtain f2 where f2: "m15_mcsfs1_create (Some f1) (Some q) = Some (M15_MCSFS1_OK, Some f2)" "m15_ok f2"
    "k_entry f2 = (k_entry f1)(cstr q \<mapsto> Suc ?c)" "k_start f2 (Suc ?c) = ?u" "k_start f2 ?c = ?u"
    using m15_create_new [OF f1(2) _ assms(4,6)] f1(3,4,6) by auto
  have e: "k_entry f2 (cstr p) = Some ?c" "k_entry f2 (cstr q) = Some (Suc ?c)"
    using f1(5) f2(3) assms(7) by auto
  obtain f3 where f3: "m15_mcsfs1_write f2 p a sz = Some (int (unat sz), f3)" "m15_ok f3"
    "k_inode_count f3 = k_inode_count f2" "k_label f3 = k_label f2" "k_start f3 = k_start f2"
    "k_length f3 = (k_length f2)(?c := unat sz)"
    using m15_write_effect [OF f2(2) assms(3) e(1), of sz a] f2(5) assms(10,11) by auto
  have e3: "k_entry f3 = k_entry f2" using f3(3,4) by (simp add: k_entry_def fun_eq_iff)
  obtain f4 where f4: "m15_mcsfs1_write f3 q b sz = Some (int (unat sz), f4)" "m15_ok f4"
    "k_inode_count f4 = k_inode_count f3" "k_label f4 = k_label f3" "k_start f4 = k_start f3"
    "k_length f4 = (k_length f3)(Suc ?c := unat sz)" "k_data f4 = blit (k_data f3) ?u b"
    using m15_write_effect [OF f3(2) assms(4), of "Suc ?c" sz b] e3 e(2) f3(5) f2(4) assms(10,12) by auto
  have "k_content f4 ?c = b"
    using f4(5-7) f3(5,6) f2(5) assms(10,12) m15_facts(2) [OF f3(2)] slice_blit_same [of ?u b "k_data f3"]
    by (simp add: k_content_def)
  moreover have "k_entry f4 (cstr p) = Some ?c" using f4(3,4) f3(3,4) e(1) by (simp add: k_entry_def)
  ultimately have "m15_mcsfs1_read f4 p (replicate (unat sz) 0) sz = Some (int (unat sz), b)"
    using m15_read_exact [OF f4(2) assms(3), of sz "replicate (unat sz) 0"] assms(12) by (simp add: blit_def)
  then show ?thesis using f1(1) f2(1) f3(1) f4(1) by blast
qed

theorem m15_files_alias_witness:
  "\<exists>f1 f2 f3 f4. m15_mcsfs1_create (Some blank_m15) (Some [0x61, 0]) = Some (M15_MCSFS1_OK, Some f1) \<and>
     m15_mcsfs1_create (Some f1) (Some [0x62, 0]) = Some (M15_MCSFS1_OK, Some f2) \<and>
     m15_mcsfs1_write f2 [0x61, 0] [1] 1 = Some (1, f3) \<and> m15_mcsfs1_write f3 [0x62, 0] [2] 1 = Some (1, f4) \<and>
     m15_mcsfs1_read f4 [0x61, 0] [0] 1 = Some (1, [2])"
  using m15_files_alias [OF blank_m15_ok(1), of "[0x61, 0]" "[0x62, 0]" 1 "[1]" "[2]"]
  by (simp add: blank_m15_ok)

end
