(* ===== verification/M15_Spec.thy ===== *)
theory M15_Spec
  imports M15_Fs Refinement
begin

text \<open>
  What the kernel file system does, for every sequence of calls: files are windows into one shared area of 4096 bytes. A window starts at the
  mark when the file is created, gets the size of the last write, and every write moves the mark to the end of
  its window. Windows may overlap, so a write to one file can change another one.
\<close>

section \<open>Abstract windows\<close>

record window_fs =
  windows :: "(u8 list \<times> nat \<times> nat) list"
  area :: "u8 list"
  mark :: nat

datatype m15_call =
    Kcreate "u8 list option"
  | Kwrite "u8 list" "u8 list" u64
  | Kread "u8 list" "u8 list" u64

definition window_no :: "window_fs \<Rightarrow> u8 list \<Rightarrow> nat option" where
  "window_no s name = find (\<lambda>i. fst (windows s ! i) = name) [0..<length (windows s)]"

definition window_bytes :: "window_fs \<Rightarrow> nat \<Rightarrow> u8 list" where
  "window_bytes s i = (case windows s ! i of (name, start, n) \<Rightarrow> take n (drop start (area s)))"

definition window_write :: "window_fs \<Rightarrow> nat \<Rightarrow> u8 list \<Rightarrow> int \<times> window_fs" where
  "window_write s i bs = (case windows s ! i of (name, start, n) \<Rightarrow>
     if 4096 \<le> start + length bs then (M15_MCSFS1_ENOSPC, s)
     else (int (length bs), \<lparr>windows = (windows s)[i := (name, start, length bs)],
       area = blit (area s) start bs, mark = start + length bs\<rparr>))"

fun window_spec :: "m15_call \<Rightarrow> window_fs \<Rightarrow> (int \<times> u8 list) \<times> window_fs" where
  "window_spec (Kcreate None) s = ((M15_MCSFS1_EINVAL, []), s)"
| "window_spec (Kcreate (Some name)) s =
     (if length (windows s) = 32 then ((M15_MCSFS1_ENOSPC, []), s)
      else ((M15_MCSFS1_OK, []), s\<lparr>windows := windows s @ [(cstr name, mark s, 0)]\<rparr>))"
| "window_spec (Kwrite name buffer sz) s = (case window_no s (cstr name) of
       None \<Rightarrow> ((M15_MCSFS1_ENOENT, []), s)
     | Some i \<Rightarrow> let (r, s') = window_write s i (take (unat sz) buffer) in ((r, []), s'))"
| "window_spec (Kread name buffer sz) s = (case window_no s (cstr name) of
       None \<Rightarrow> ((M15_MCSFS1_ENOENT, buffer), s)
     | Some i \<Rightarrow> let bs = take (unat sz) (window_bytes s i) in ((int (length bs), blit buffer 0 bs), s))"

fun m15_exec :: "m15_call \<Rightarrow> m15_mcsfs1 \<Rightarrow> ((int \<times> u8 list) \<times> m15_mcsfs1) option" where
  "m15_exec (Kcreate name) fs = do { (r, fo) \<leftarrow> m15_mcsfs1_create (Some fs) name; fs' \<leftarrow> fo; Some ((r, []), fs') }"
| "m15_exec (Kwrite name buffer sz) fs = do { (r, fs') \<leftarrow> m15_mcsfs1_write fs name buffer sz; Some ((r, []), fs') }"
| "m15_exec (Kread name buffer sz) fs = do { r \<leftarrow> m15_mcsfs1_read fs name buffer sz; Some (r, fs) }"

text \<open>What a caller owes: terminated names of at most 63 characters, buffers as long as their size says.\<close>

fun m15_call_ok :: "m15_call \<Rightarrow> bool" where
  "m15_call_ok (Kcreate None) \<longleftrightarrow> True"
| "m15_call_ok (Kcreate (Some name)) \<longleftrightarrow> is_cstr name \<and> length (cstr name) < 64"
| "m15_call_ok (Kwrite name buffer sz) \<longleftrightarrow> is_cstr name \<and> unat sz \<le> length buffer \<and> unat sz < 2 ^ 63"
| "m15_call_ok (Kread name buffer sz) \<longleftrightarrow> is_cstr name \<and> unat sz \<le> length buffer"

section \<open>Simulation\<close>

definition abs_window :: "m15_mcsfs1 \<Rightarrow> nat \<Rightarrow> u8 list \<times> nat \<times> nat" where
  "abs_window fs i = (k_label fs i, k_start fs i, k_length fs i)"

definition abs_m15 :: "m15_mcsfs1 \<Rightarrow> window_fs" where
  "abs_m15 fs = \<lparr>windows = map (abs_window fs) [0..<unat (k_inode_count fs)], area = k_data fs,
     mark = unat (k_data_used fs)\<rparr>"

lemma abs_m15_simps [simp]:
  "length (windows (abs_m15 fs)) = unat (k_inode_count fs)" "area (abs_m15 fs) = k_data fs"
  "mark (abs_m15 fs) = unat (k_data_used fs)"
  "i < unat (k_inode_count fs) \<Longrightarrow> windows (abs_m15 fs) ! i = abs_window fs i"
  by (simp_all add: abs_m15_def)

lemma window_no_abs: "window_no (abs_m15 fs) name = k_entry fs name"
  unfolding window_no_def k_entry_def abs_m15_simps
  by (rule find_cong) (simp_all add: abs_window_def)

lemma window_bytes_abs: "i < unat (k_inode_count fs) \<Longrightarrow> window_bytes (abs_m15 fs) i = k_content fs i"
  by (simp add: window_bytes_def abs_window_def k_content_def)

definition simulates :: "m15_call \<Rightarrow> m15_mcsfs1 \<Rightarrow> bool" where
  "simulates c fs \<longleftrightarrow> (\<exists>fs'. m15_exec c fs = Some (fst (window_spec c (abs_m15 fs)), fs') \<and> m15_ok fs' \<and>
     abs_m15 fs' = snd (window_spec c (abs_m15 fs)))"

lemma simulates_create:
  assumes "m15_ok fs" "is_cstr name" "length (cstr name) < 64"
  shows "simulates (Kcreate (Some name)) fs"
proof (cases "unat (k_inode_count fs) = 32")
  case True
  then show ?thesis using m15_create_full [OF True] assms(1) by (simp add: simulates_def)
next
  case False
  then have "unat (k_inode_count fs) < 32" using m15_facts(3) [OF assms(1)] by simp
  then obtain fs' where fs': "m15_mcsfs1_create (Some fs) (Some name) = Some (M15_MCSFS1_OK, Some fs')" "m15_ok fs'"
    "unat (k_inode_count fs') = Suc (unat (k_inode_count fs))" "k_data fs' = k_data fs"
    "k_data_used fs' = k_data_used fs" "abs_window fs' (unat (k_inode_count fs)) = (cstr name, unat (k_data_used fs), 0)"
    "\<forall>i<unat (k_inode_count fs). k_inodes fs' ! i = k_inodes fs ! i"
    using m15_create_ok [OF assms(1) _ assms(2,3)] by (auto simp: abs_window_def)
  then show ?thesis using False
    by (simp add: simulates_def) (simp add: abs_m15_def abs_window_def k_label_def k_start_def k_length_def)
qed

lemma simulates_write:
  assumes "m15_ok fs" "is_cstr name" "unat sz \<le> length buffer" "unat sz < 2 ^ 63"
  shows "simulates (Kwrite name buffer sz) fs"
proof (cases "k_entry fs (cstr name)")
  case None
  then show ?thesis using m15_find_entry [OF assms(1,2)] assms(1)
    by (simp add: simulates_def m15_mcsfs1_write_def window_no_abs)
next
  case (Some i)
  have i: "i < unat (k_inode_count fs)" "i < 32" using k_entry_bound [OF Some] m15_facts(3) [OF assms(1)] by auto
  show ?thesis
  proof (cases "k_start fs i + unat sz < 4096")
    case True
    obtain fs' where fs': "m15_mcsfs1_write fs name buffer sz = Some (int (unat sz), fs')" "m15_ok fs'"
      "k_inode_count fs' = k_inode_count fs" "k_label fs' = k_label fs" "k_start fs' = k_start fs"
      "k_length fs' = (k_length fs)(i := unat sz)" "unat (k_data_used fs') = k_start fs i + unat sz"
      "k_data fs' = blit (k_data fs) (k_start fs i) (take (unat sz) buffer)"
      using m15_write_effect [OF assms(1,2) Some assms(3) True] by blast
    have "windows (abs_m15 fs') = (windows (abs_m15 fs))[i := (k_label fs i, k_start fs i, unat sz)]"
      using fs'(3-6) i(1) by (intro nth_equalityI) (auto simp: nth_list_update abs_window_def)
    then have "abs_m15 fs' = snd (window_write (abs_m15 fs) i (take (unat sz) buffer))"
      using True i(1) assms(3) fs'(7,8) by (simp add: window_write_def abs_window_def)
    then show ?thesis using True fs'(1,2) Some i(1) assms(3)
      by (auto simp: simulates_def window_no_abs window_write_def abs_window_def)
  next
    case False
    have "unat (k_offset (k_inodes fs ! i) + sz) = k_start fs i + unat sz"
      using m15_facts(6) [OF assms(1) i(1)] assms(4) unfolding k_start_def
      by (intro unat_add_lem [THEN iffD1]) simp
    then have "m15_mcsfs1_write fs name buffer sz = Some (M15_MCSFS1_ENOSPC, fs)"
      using m15_find_entry [OF assms(1,2)] Some False m15_facts(1) [OF assms(1)] i(2)
      by (simp add: m15_mcsfs1_write_def word_le_nat_alt)
    then show ?thesis using False Some i(1) assms(1,3)
      by (simp add: simulates_def window_no_abs window_write_def abs_window_def)
  qed
qed

lemma simulates_read:
  assumes "m15_ok fs" "is_cstr name" "unat sz \<le> length buffer"
  shows "simulates (Kread name buffer sz) fs"
  using m15_read_exact [OF assms] assms(1) k_entry_bound [of fs "cstr name"]
  by (auto simp: simulates_def window_no_abs window_bytes_abs min.commute split: option.split)

lemma m15_calls_simulated: "m15_ok fs \<Longrightarrow> m15_call_ok c \<Longrightarrow> simulates c fs"
  by (cases c rule: m15_call_ok.cases)
    (auto intro: simulates_create simulates_write simulates_read simp: simulates_def [of "Kcreate None"] m15_mcsfs1_create_def)

interpretation file_windows: simulation m15_exec window_spec "\<lambda>fs s. m15_ok fs \<and> s = abs_m15 fs" "\<lambda>s. m15_call_ok"
  by unfold_locales (use m15_calls_simulated in \<open>fastforce simp: simulates_def\<close>)

lemma m15_init_windows:
  assumes "m15_mcsfs1_init fs = Some fs'"
  shows "abs_m15 fs' = \<lparr>windows = [], area = k_data fs, mark = 0\<rparr>"
  using assms by (auto simp: m15_mcsfs1_init_def abs_m15_def split: bind_split_asm)

text \<open>
  C34. The kernel file system, for every use of it: after \<open>m15_mcsfs1_init\<close>, on any memory that has the size of the object, every
  sequence of creates, writes and reads, in any order and with names of at most 63 characters, stays inside its arrays and returns
  exactly what windows into one shared area of 4096 bytes return. A file starts at the mark at its creation, a write that would
  reach the last byte of the area is refused, and each write moves the mark to its end, also backwards.
\<close>

theorem m15_refines_windows:
  assumes "length (k_inodes fs) = 32" "length (k_data fs) = 4096"
    "\<forall>i<32. length (k_name (k_inodes fs ! i)) = 64" "\<forall>c\<in>set cs. m15_call_ok c"
  shows "\<exists>fs0 fs'. m15_mcsfs1_init fs = Some fs0 \<and>
    run_calls m15_exec cs fs0 = Some (fst (run_spec window_spec cs \<lparr>windows = [], area = k_data fs, mark = 0\<rparr>), fs') \<and>
    m15_ok fs' \<and> abs_m15 fs' = snd (run_spec window_spec cs \<lparr>windows = [], area = k_data fs, mark = 0\<rparr>)"
proof -
  obtain fs0 where fs0: "m15_mcsfs1_init fs = Some fs0" "m15_ok fs0" using m15_init_ok [OF assms(1-3)] by blast
  then show ?thesis
    using file_windows.runs_simulated [of fs0 _ cs] m15_init_windows [OF fs0(1)] assms(4) by fastforce
qed

lemma window_run_example:
  "fst (run_spec window_spec [Kcreate (Some [0x61, 0]), Kwrite [0x61, 0] [1, 2, 3] 3, Kcreate (Some [0x62, 0]), Kwrite [0x62, 0] [4] 1,
      Kwrite [0x61, 0] [5] 1, Kcreate (Some [0x63, 0]), Kwrite [0x63, 0] [6, 7, 8] 3, Kread [0x62, 0] [0] 1,
      Kread [0x64, 0] [0] 1, Kcreate None] \<lparr>windows = [], area = 0 # 0 # 0 # 0 # replicate 4092 0, mark = 0\<rparr>) =
    [(0, []), (3, []), (0, []), (1, []), (1, []), (0, []), (3, []), (1, [8]),
      (M15_MCSFS1_ENOENT, [0]), (M15_MCSFS1_EINVAL, [])]"
  by (simp add: window_no_def window_write_def window_bytes_def cstr_def blit_def Let_def)

theorem m15_refines_windows_witness:
  "\<exists>fs0 fs'. m15_mcsfs1_init blank_m15 = Some fs0 \<and>
     run_calls m15_exec [Kcreate (Some [0x61, 0]), Kwrite [0x61, 0] [1, 2, 3] 3, Kcreate (Some [0x62, 0]), Kwrite [0x62, 0] [4] 1,
       Kwrite [0x61, 0] [5] 1, Kcreate (Some [0x63, 0]), Kwrite [0x63, 0] [6, 7, 8] 3, Kread [0x62, 0] [0] 1,
       Kread [0x64, 0] [0] 1, Kcreate None] fs0 =
     Some ([(0, []), (3, []), (0, []), (1, []), (1, []), (0, []), (3, []), (1, [8]),
       (M15_MCSFS1_ENOENT, [0]), (M15_MCSFS1_EINVAL, [])], fs')"
proof -
  let ?cs = "[Kcreate (Some [0x61, 0]), Kwrite [0x61, 0] [1, 2, 3] 3, Kcreate (Some [0x62, 0]), Kwrite [0x62, 0] [4] 1,
    Kwrite [0x61, 0] [5] 1, Kcreate (Some [0x63, 0]), Kwrite [0x63, 0] [6, 7, 8] 3, Kread [0x62, 0] [0] 1,
    Kread [0x64, 0] [0] 1, Kcreate None]"
  have "length (k_inodes blank_m15) = 32" "length (k_data blank_m15) = 4096"
    "\<forall>i<32. length (k_name (k_inodes blank_m15 ! i)) = 64" by (simp_all add: blank_m15_def)
  moreover have "\<forall>c\<in>set ?cs. m15_call_ok c" by (simp add: cstr_def)
  moreover have "k_data blank_m15 = 0 # 0 # 0 # 0 # replicate 4092 0"
    by (simp add: blank_m15_def replicate_Suc [symmetric] del: replicate_Suc)
  ultimately show ?thesis
    using m15_refines_windows [of blank_m15 ?cs] window_run_example by (metis (no_types, lifting))
qed

end
