(* ===== verification/Memory.thy ===== *)
theory Memory
  imports C_Prelude
begin

text \<open>
  The freestanding memory routines of \<open>src/kernel/lib/memory.c\<close>. Since \<open>memmove\<close> allows its two
  ranges to overlap, both pointers are indices into one memory. A loop
  \<open>while (count-- != 0)\<close> makes \<open>count\<close> steps.
\<close>

section \<open>Model\<close>

definition memset_model :: "u8 list \<Rightarrow> nat \<Rightarrow> int \<Rightarrow> nat \<Rightarrow> u8 list option" where
  "memset_model m dest value n = for_up (\<lambda>i m. wr m (dest + i) (of_int value)) n 0 m"

definition copy_up :: "nat \<Rightarrow> nat \<Rightarrow> nat \<Rightarrow> u8 list \<Rightarrow> u8 list option" where
  "copy_up d s n m = for_up (\<lambda>i m. do { b \<leftarrow> rd m (s + i); wr m (d + i) b }) n 0 m"

definition memcpy_model :: "u8 list \<Rightarrow> nat \<Rightarrow> nat \<Rightarrow> nat \<Rightarrow> u8 list option" where
  "memcpy_model m dest src n = copy_up dest src n m"

text \<open>The downward loop: \<open>d\<close> and \<open>s\<close> start at the ends of their ranges and step before each access.\<close>

primrec copy_down :: "nat \<Rightarrow> nat \<Rightarrow> nat \<Rightarrow> u8 list \<Rightarrow> u8 list option" where
  "copy_down d s 0 m = Some m"
| "copy_down d s (Suc n) m = do { b \<leftarrow> rd m (s + n); m' \<leftarrow> wr m (d + n) b; copy_down d s n m' }"

definition memmove_model :: "u8 list \<Rightarrow> nat \<Rightarrow> nat \<Rightarrow> nat \<Rightarrow> u8 list option" where
  "memmove_model m d s n =
     (if d = s \<or> n = 0 then Some m
      else if d < s then copy_up d s n m
      else copy_down d s n m)"

section \<open>What the loops compute\<close>

lemma nth_slice: "s + n \<le> length m \<Longrightarrow> k < n \<Longrightarrow> take n (drop s m) ! k = m ! (s + k)"
  by simp

lemma copy_up_blit:
  assumes "d \<le> s \<or> s + n \<le> d" "s + n \<le> length m" "d + n \<le> length m"
  shows "copy_up d s n m = Some (blit m d (take n (drop s m)))"
proof -
  let ?I = "\<lambda>k m'. m' = blit m d (take k (drop s m))"
  have "\<exists>m'. copy_up d s n m = Some m' \<and> ?I (0 + n) m'"
    unfolding copy_up_def
  proof (rule for_up_rule [where I = ?I])
    fix k m' assume k: "k < 0 + n" and m': "?I k m'"
    let ?bs = "take k (drop s m)"
    have len: "length ?bs = k" "length m' = length m" using k m' assms(2,3) by auto
    have "m' ! (s + k) = m ! (s + k)"
      using m' len k assms by (auto simp: nth_blit)
    moreover have "m'[d + k := m ! (s + k)] = blit m d (take (Suc k) (drop s m))"
      using blit_snoc [of d ?bs m "m ! (s + k)"] m' len k assms(2,3) by (simp add: take_Suc_conv_app_nth)
    ultimately show "\<exists>m''. (do { b \<leftarrow> rd m' (s + k); wr m' (d + k) b }) = Some m'' \<and> ?I (Suc k) m''"
      using k len assms(2,3) by simp
  qed simp
  then show ?thesis by simp
qed

lemma copy_down_blit:
  assumes "s < d" "s + n \<le> length m" "d + n \<le> length m"
  shows "copy_down d s n m = Some (blit m d (take n (drop s m)))"
  using assms
proof (induction n arbitrary: m)
  case (Suc n)
  let ?m = "m[d + n := m ! (s + n)]"
  have "copy_down d s n ?m = Some (blit ?m d (take n (drop s ?m)))"
    using Suc.prems by (intro Suc.IH) auto
  moreover have "take n (drop s ?m) = take n (drop s m)"
    using Suc.prems by (intro nth_equalityI) (auto simp: nth_list_update)
  moreover have "blit ?m d (take n (drop s m)) = blit m d (take (Suc n) (drop s m))"
  proof -
    let ?xs = "take n (drop s m)"
    have len: "length ?xs = n" using Suc.prems by simp
    have "blit ?m d ?xs = (blit m d ?xs) [d + n := m ! (s + n)]"
      using Suc.prems len by (intro nth_equalityI) (auto simp: nth_blit nth_list_update)
    also have "\<dots> = blit m d (?xs @ [m ! (s + n)])"
      using Suc.prems len blit_snoc [of d ?xs m "m ! (s + n)"] by simp
    finally show ?thesis using Suc.prems by (simp add: take_Suc_conv_app_nth)
  qed
  ultimately show ?case using Suc.prems by simp
qed simp

lemma memset_blit:
  assumes "d + n \<le> length m"
  shows "memset_model m d v n = Some (blit m d (replicate n (of_int v)))"
proof -
  let ?I = "\<lambda>k m'. m' = blit m d (replicate k (of_int v))"
  have "\<exists>m'. memset_model m d v n = Some m' \<and> ?I (0 + n) m'"
    unfolding memset_model_def
  proof (rule for_up_rule [where I = ?I])
    fix k m' assume k: "k < 0 + n" and m': "?I k m'"
    then show "\<exists>m''. wr m' (d + k) (of_int v) = Some m'' \<and> ?I (Suc k) m''"
      using blit_snoc [of d "replicate k (of_int v)" m "of_int v"] assms
      by (simp add: replicate_append_same)
  qed simp
  then show ?thesis by simp
qed

section \<open>Properties\<close>

text \<open>
  C37. \<open>memmove\<close> is correct for any overlap: if both ranges lie in memory, the destination holds
  the bytes that the source held before the call, and nothing else changes. \<open>memcpy\<close> agrees with it
  when the ranges are disjoint or the destination is below the source.
\<close>

theorem memmove_overlap:
  assumes "s + n \<le> length m" "d + n \<le> length m"
  shows "memmove_model m d s n = Some (blit m d (take n (drop s m))) \<and>
    (d \<le> s \<or> s + n \<le> d \<longrightarrow> memcpy_model m d s n = memmove_model m d s n)"
proof -
  have "blit m s (take n (drop s m)) = m"
    using assms by (intro nth_equalityI) (auto simp: nth_blit)
  then have "memmove_model m d s n = Some (blit m d (take n (drop s m)))"
    using assms copy_up_blit [of d s n m] copy_down_blit [of s d n m] by (auto simp: memmove_model_def)
  moreover have "d \<le> s \<or> s + n \<le> d \<Longrightarrow> memcpy_model m d s n = Some (blit m d (take n (drop s m)))"
    using assms copy_up_blit [of d s n m] by (simp add: memcpy_model_def)
  ultimately show ?thesis by simp
qed

theorem memmove_overlap_witness:
  "memmove_model [1, 2, 3, 4, 5] 1 0 4 = Some [1, 1, 2, 3, 4] \<and> memmove_model [1, 2, 3, 4, 5] 0 1 4 = Some [2, 3, 4, 5, 5]"
  using memmove_overlap [of 0 4 "[1, 2, 3, 4, 5]" 1] memmove_overlap [of 1 4 "[1, 2, 3, 4, 5]" 0]
  by (simp add: blit_def numeral_eq_Suc)

end
