(* ===== verification/Boot_Data.thy ===== *)
theory Boot_Data
  imports C_Prelude
begin

text \<open>
  The data that the kernel image hands to the boot loader (\<open>kernel/core/boot.c\<close> with the macros of \<open>limine.h\<close>, in the
  section order of \<open>linker.ld\<close>), and the tool chain test \<open>smoke/freestanding.c\<close>. The loader is not part of the
  repository; what is shown is that the area has one start marker, one end marker, and between them exactly the
  revision tag and the framebuffer request.
\<close>

section \<open>Request area\<close>

record limine_framebuffer_request =
  req_id :: "u64 list"
  req_revision :: u64
  req_response :: u64

definition LIMINE_REQUESTS_START_MARKER :: "u64 list" where
  "LIMINE_REQUESTS_START_MARKER =
     [0xf6b8f4b39de7d1ae, 0xfab91a6940fcb9cf, 0x785c6ed015d3e316, 0x181e920a7852b9d9]"

definition LIMINE_REQUESTS_END_MARKER :: "u64 list" where
  "LIMINE_REQUESTS_END_MARKER = [0xadc0e0531bb10d03, 0x9572709f31764c62]"

definition LIMINE_BASE_REVISION :: "u64 \<Rightarrow> u64 list" where
  "LIMINE_BASE_REVISION n = [0xf9562b2d5c95a6c8, 0x6a7b384944536bdc, n]"

definition LIMINE_COMMON_MAGIC :: "u64 list" where
  "LIMINE_COMMON_MAGIC = [0xc7b1dd30df4c8b88, 0x0a82e883a194f07b]"

definition LIMINE_FRAMEBUFFER_REQUEST :: "u64 list" where
  "LIMINE_FRAMEBUFFER_REQUEST = LIMINE_COMMON_MAGIC @ [0x9d5827dcd881dd75, 0xa3148604f6fab11b]"

definition limine_base_revision :: "u64 list" where
  "limine_base_revision = LIMINE_BASE_REVISION 3"

text \<open>The member that the initialiser does not name is zero.\<close>

definition fb_request :: limine_framebuffer_request where
  "fb_request = \<lparr>req_id = LIMINE_FRAMEBUFFER_REQUEST, req_revision = 0, req_response = 0\<rparr>"

definition request_words :: "limine_framebuffer_request \<Rightarrow> u64 list" where
  "request_words r = req_id r @ [req_revision r, req_response r]"

text \<open>The order of the two objects inside \<open>.limine_requests\<close> is the compiler's choice; both orders are covered.\<close>

definition request_areas :: "u64 list list" where
  "request_areas =
     [LIMINE_REQUESTS_START_MARKER @ limine_base_revision @ request_words fb_request @ LIMINE_REQUESTS_END_MARKER,
      LIMINE_REQUESTS_START_MARKER @ request_words fb_request @ limine_base_revision @ LIMINE_REQUESTS_END_MARKER]"

text \<open>Word offsets at which a pattern occurs.\<close>

fun occurrences :: "nat \<Rightarrow> 'a list \<Rightarrow> 'a list \<Rightarrow> nat list" where
  "occurrences n p [] = []"
| "occurrences n p (x # xs) =
     (if take (length p) (x # xs) = p then [n] else []) @ occurrences (Suc n) p xs"

lemma occurrences_iff:
  assumes "p \<noteq> []"
  shows "i \<in> set (occurrences n p xs) \<longleftrightarrow> n \<le> i \<and> i - n < length xs \<and> take (length p) (drop (i - n) xs) = p"
proof (induction xs arbitrary: n)
  case (Cons x xs)
  show ?case
  proof (cases "i \<le> n")
    case True
    then show ?thesis using Cons.IH [of "Suc n"] by (cases "i = n") auto
  next
    case False
    then have "i - n = Suc (i - Suc n)" by simp
    then show ?thesis using Cons.IH [of "Suc n"] False by auto
  qed
qed simp

text \<open>
  The markers enclose the area and occur nowhere else; exactly one request carries the common magic, and the revision tag
  occurs once. In particular the image asks for no memory map.
\<close>

lemma request_area_scan:
  "\<forall>area \<in> set request_areas. length area = 15 \<and> occurrences 0 LIMINE_REQUESTS_START_MARKER area = [0] \<and>
    occurrences 0 LIMINE_REQUESTS_END_MARKER area = [13] \<and>
    occurrences 0 LIMINE_COMMON_MAGIC area = occurrences 0 LIMINE_FRAMEBUFFER_REQUEST area \<and>
    length (occurrences 0 LIMINE_COMMON_MAGIC area) = 1 \<and>
    length (occurrences 0 (take 2 limine_base_revision) area) = 1"
  by code_simp

section \<open>Tool chain test\<close>

definition MCSOS_M0_MAGIC :: u32 where "MCSOS_M0_MAGIC = 0x4D435330"

record smoke_record =
  smoke_magic :: u32
  smoke_version :: u32
  pointer_width :: u64
  size_width :: u64

text \<open>Sizes of the x86-64 ABI that the kernel is built for.\<close>

definition m0_smoke_record :: smoke_record where
  "m0_smoke_record = \<lparr>smoke_magic = MCSOS_M0_MAGIC, smoke_version = 260502, pointer_width = 8, size_width = 8\<rparr>"

text \<open>An \<open>int\<close> is a 32-bit word read with \<open>sint\<close>; a sum of two \<open>int\<close>s that does not fit is undefined.\<close>

definition m0_smoke_add :: "u32 \<Rightarrow> u32 \<Rightarrow> u32 option" where
  "m0_smoke_add a b =
     (if - (2 ^ 31) \<le> sint a + sint b \<and> sint a + sint b < 2 ^ 31 then Some (a + b) else None)"

lemma m0_smoke_add_exact:
  "m0_smoke_add a b = Some c \<longleftrightarrow> sint c = sint a + sint b"
proof
  assume "m0_smoke_add a b = Some c"
  then show "sint c = sint a + sint b"
    by (auto simp: m0_smoke_add_def signed_take_bit_int_eq_self sint_word_ariths split: if_splits)
next
  assume eq: "sint c = sint a + sint b"
  have "- (2 ^ 31) \<le> sint c" "sint c < 2 ^ 31" using sint_range_size [of c] by (simp_all add: word_size)
  moreover have "c = a + b"
  proof -
    have "c = of_int (sint c)" by simp
    also have "\<dots> = a + b" unfolding eq of_int_add by simp
    finally show ?thesis .
  qed
  ultimately show "m0_smoke_add a b = Some c" using eq by (simp add: m0_smoke_add_def)
qed

text \<open>The magic number is the string of its comment, most significant byte first.\<close>

lemma m0_magic_bytes: "map (\<lambda>i. of_char (''MCS0'' ! i)) [0, 1, 2, 3] =
    map (\<lambda>i. unat ((drop_bit (8 * (3 - i)) MCSOS_M0_MAGIC) AND 0xFF)) [0, 1, 2, 3]"
  by (simp add: MCSOS_M0_MAGIC_def)

end
