(* ===== verification/Console.thy ===== *)
theory Console
  imports C_Prelude "HOL-Library.State_Monad" "HOL-Library.Sublist"
begin

text \<open>
  Console output: the port accesses of \<open>io.h\<close>, the serial driver \<open>src/kernel/core/serial.c\<close>, the
  log functions \<open>src/kernel/core/log.c\<close> and \<open>src/kernel/lib/serial_hex.c\<close>.

  The code runs in the state monad over the machine state. The devices are not part of the
  kernel: what a read of a port yields is a parameter \<open>dev\<close>, a function of the port accesses made so
  far. A C string is the list of its characters up to the terminator, \<open>None\<close> is the null pointer.
\<close>

section \<open>Model\<close>

subsection \<open>Port accesses\<close>

datatype io_event = In u16 u8 | Out u16 u8

type_synonym device = "io_event list \<Rightarrow> u16 \<Rightarrow> u8"

primrec event_port :: "io_event \<Rightarrow> u16" where
  "event_port (In p v) = p"
| "event_port (Out p v) = p"

record machine =
  io_trace :: "io_event list"
  g_log_ready :: bool

definition outb :: "u16 \<Rightarrow> u8 \<Rightarrow> ('r machine_scheme, unit) state" where
  "outb port v = State (\<lambda>m. ((), m\<lparr>io_trace := io_trace m @ [Out port v]\<rparr>))"

definition inb :: "device \<Rightarrow> u16 \<Rightarrow> ('r machine_scheme, u8) state" where
  "inb dev port = State (\<lambda>m. let v = dev (io_trace m) port
     in (v, m\<lparr>io_trace := io_trace m @ [In port v]\<rparr>))"

definition io_wait :: "('r machine_scheme, unit) state" where
  "io_wait = outb 0x80 0"

subsection \<open>Serial port\<close>

abbreviation COM1_PORT :: u16 where "COM1_PORT \<equiv> 0x3F8"
abbreviation SERIAL_TIMEOUT_LIMIT :: nat where "SERIAL_TIMEOUT_LIMIT \<equiv> 100000"

definition serial_transmit_empty :: "device \<Rightarrow> ('r machine_scheme, bool) state" where
  "serial_transmit_empty dev = do { v \<leftarrow> inb dev (COM1_PORT + 5); State_Monad.return (v AND 0x20 \<noteq> 0) }"

definition serial_init :: "('r machine_scheme, unit) state" where
  "serial_init = do {
     outb (COM1_PORT + 1) 0x00;
     outb (COM1_PORT + 3) 0x80;
     outb (COM1_PORT + 0) 0x03;
     outb (COM1_PORT + 1) 0x00;
     outb (COM1_PORT + 3) 0x03;
     outb (COM1_PORT + 2) 0xC7;
     outb (COM1_PORT + 4) 0x0B
   }"

text \<open>The wait loop of \<open>serial_putc\<close> with \<open>k\<close> tests left; the result says whether the port got empty.\<close>

primrec serial_wait :: "device \<Rightarrow> nat \<Rightarrow> ('r machine_scheme, bool) state" where
  "serial_wait dev 0 = State_Monad.return False"
| "serial_wait dev (Suc k) = do {
     e \<leftarrow> serial_transmit_empty dev;
     if e then State_Monad.return True else serial_wait dev k
   }"

function serial_putc :: "device \<Rightarrow> char \<Rightarrow> ('r machine_scheme, unit) state" where
  "serial_putc dev c = do {
     (if c = CHR 0x0A then serial_putc dev (CHR 0x0D) else State_Monad.return ());
     ready \<leftarrow> serial_wait dev SERIAL_TIMEOUT_LIMIT;
     if ready then outb COM1_PORT (of_char c) else State_Monad.return ()
   }"
  by pat_completeness auto
termination
  by (relation "measure (\<lambda>(dev, c). if c = CHR 0x0A then 1 else 0)") auto

declare serial_putc.simps [simp del]

primrec serial_write_loop :: "device \<Rightarrow> string \<Rightarrow> ('r machine_scheme, unit) state" where
  "serial_write_loop dev [] = State_Monad.return ()"
| "serial_write_loop dev (c # cs) =
     (if c \<noteq> CHR 0x00 then do { serial_putc dev c; serial_write_loop dev cs } else State_Monad.return ())"

definition serial_write :: "device \<Rightarrow> string option \<Rightarrow> ('r machine_scheme, unit) state" where
  "serial_write dev s = (case s of None \<Rightarrow> State_Monad.return () | Some t \<Rightarrow> serial_write_loop dev t)"

definition serial_write_hex64 :: "device \<Rightarrow> u64 \<Rightarrow> ('r machine_scheme, unit) state" where
  "serial_write_hex64 dev v =
     serial_write dev (Some (CHR ''0'' # CHR ''x'' #
       map (\<lambda>i. ''0123456789ABCDEF'' ! unat (drop_bit (60 - i * 4) v AND 0xF)) [0..<16]))"

subsection \<open>Log\<close>

definition log_init :: "('r machine_scheme, unit) state" where
  "log_init = do { serial_init; State_Monad.update (g_log_ready_update (\<lambda>_. True)) }"

text \<open>The guard that \<open>log_putc\<close> and \<open>log_write\<close> begin with.\<close>

definition log_ensure :: "('r machine_scheme, unit) state" where
  "log_ensure = do {
     m \<leftarrow> State_Monad.get;
     if \<not> g_log_ready m then do { serial_init; State_Monad.update (g_log_ready_update (\<lambda>_. True)) }
     else State_Monad.return ()
   }"

definition log_putc :: "device \<Rightarrow> char \<Rightarrow> ('r machine_scheme, unit) state" where
  "log_putc dev c = do { log_ensure; serial_putc dev c }"

definition log_write :: "device \<Rightarrow> string option \<Rightarrow> ('r machine_scheme, unit) state" where
  "log_write dev s = do { log_ensure; serial_write dev s }"

definition log_writeln :: "device \<Rightarrow> string option \<Rightarrow> ('r machine_scheme, unit) state" where
  "log_writeln dev s = do { log_write dev s; log_putc dev (CHR 0x0A) }"

text \<open>The loop over \<open>shift = 60, 56, \<dots>, 0\<close>, with \<open>k\<close> digits left: \<open>shift = 4 (k - 1)\<close>.\<close>

primrec log_hex_loop :: "device \<Rightarrow> u64 \<Rightarrow> nat \<Rightarrow> ('r machine_scheme, unit) state" where
  "log_hex_loop dev v 0 = State_Monad.return ()"
| "log_hex_loop dev v (Suc k) = do {
     log_putc dev (''0123456789abcdef'' ! unat (ucast (drop_bit (4 * k) v AND 0x0F) :: u8));
     log_hex_loop dev v k
   }"

definition log_hex64 :: "device \<Rightarrow> u64 \<Rightarrow> ('r machine_scheme, unit) state" where
  "log_hex64 dev v = do { log_write dev (Some ''0x''); log_hex_loop dev v 16 }"

definition log_key_value_hex64 :: "device \<Rightarrow> string option \<Rightarrow> u64 \<Rightarrow> ('r machine_scheme, unit) state" where
  "log_key_value_hex64 dev key v = do {
     log_write dev key;
     log_write dev (Some ''='');
     log_hex64 dev v;
     log_putc dev (CHR 0x0A)
   }"

text \<open>
  The digit loop of \<open>log_dec64\<close> and \<open>log_dec_u32\<close>: the characters put into \<open>buf\<close>, of which \<open>k\<close> are
  free. They are printed from the last to the first.
\<close>

primrec dec_loop :: "nat \<Rightarrow> 'a :: len word \<Rightarrow> string" where
  "dec_loop 0 v = []"
| "dec_loop (Suc k) v =
     (if v = 0 then [] else char_of (48 + unat (v mod 10)) # dec_loop k (v div 10))"

primrec log_chars :: "device \<Rightarrow> string \<Rightarrow> ('r machine_scheme, unit) state" where
  "log_chars dev [] = State_Monad.return ()"
| "log_chars dev (c # cs) = do { log_putc dev c; log_chars dev cs }"

definition log_dec64 :: "device \<Rightarrow> u64 \<Rightarrow> ('r machine_scheme, unit) state" where
  "log_dec64 dev v =
     (if v = 0 then log_putc dev (CHR ''0'') else log_chars dev (rev (dec_loop 20 v)))"

lemma run_state_update [simp]: "run_state (State_Monad.update f) s = ((), f s)"
  by (simp add: State_Monad.update_def)

section \<open>What reaches the line\<close>

text \<open>
  The transmitter side of a 16550 UART: a write to the line control register sets or clears the
  divisor latch access bit (bit 7), and a write to the base port is a character of the line
  when that bit is clear. \<open>console\<close> is the state of that bit and the text sent after a trace.
\<close>

fun uart_step :: "bool \<times> string \<Rightarrow> io_event \<Rightarrow> bool \<times> string" where
  "uart_step (dlab, txt) (Out p v) =
     (if p = COM1_PORT + 3 then (bit v 7, txt)
      else if p = COM1_PORT \<and> \<not> dlab then (dlab, txt @ [char_of (unat v)]) else (dlab, txt))"
| "uart_step (dlab, txt) (In p v) = (dlab, txt)"

definition console :: "io_event list \<Rightarrow> bool \<times> string" where
  "console tr = foldl uart_step (False, []) tr"

abbreviation console_text :: "'r machine_scheme \<Rightarrow> string" where
  "console_text m \<equiv> snd (console (io_trace m))"

definition console_up :: "'r machine_scheme \<Rightarrow> bool" where
  "console_up m \<longleftrightarrow> g_log_ready m \<and> \<not> fst (console (io_trace m))"

text \<open>A newline is sent as carriage return and newline.\<close>

primrec crlf :: "string \<Rightarrow> string" where
  "crlf [] = []"
| "crlf (c # cs) = (if c = CHR 0x0A then [CHR 0x0D, CHR 0x0A] else [c]) @ crlf cs"

definition tx_ready :: "device \<Rightarrow> bool" where
  "tx_ready dev \<longleftrightarrow> (\<forall>tr. dev tr (COM1_PORT + 5) AND 0x20 \<noteq> 0)"

text \<open>
  \<open>prints dev c t\<close>: run on a machine with the console up, \<open>c\<close> changes only the port trace, makes at
  most \<open>SERIAL_TIMEOUT_LIMIT + 1\<close> accesses per character, all to the serial port, and sends
  characters of \<open>t\<close> in order; it sends all of \<open>t\<close> if the transmitter is ready.
\<close>

named_theorems prints \<open>what the output functions print\<close>

abbreviation serial_only :: "io_event list \<Rightarrow> bool" where
  "serial_only es \<equiv> \<forall>e\<in>set es. event_port e = COM1_PORT \<or> event_port e = COM1_PORT + 5"

definition prints :: "device \<Rightarrow> ('r machine_scheme, unit) state \<Rightarrow> string \<Rightarrow> bool" where
  "prints dev c t \<longleftrightarrow> (\<forall>m. console_up m \<longrightarrow> (\<exists>es u.
     snd (run_state c m) = m\<lparr>io_trace := io_trace m @ es\<rparr> \<and>
     (\<forall>txt. foldl uart_step (False, txt) es = (False, txt @ u)) \<and>
     subseq u t \<and> (tx_ready dev \<longrightarrow> u = t) \<and>
     length es \<le> Suc SERIAL_TIMEOUT_LIMIT * length t \<and> serial_only es))"

text \<open>Accesses to the data and the status register leave the console up.\<close>

lemma console_up_serial:
  assumes "console_up m" "serial_only es"
  shows "console_up (m\<lparr>io_trace := io_trace m @ es\<rparr>)"
proof -
  have "fst (foldl uart_step s es) = fst s" for s
    using assms(2)
  proof (induction es arbitrary: s)
    case (Cons e es)
    then have "fst (uart_step s e) = fst s" by (cases s; cases e) auto
    with Cons show ?case by simp
  qed simp
  then show ?thesis using assms(1) by (simp add: console_up_def console_def)
qed

lemma crlf_append [simp]: "crlf (s @ t) = crlf s @ crlf t"
  by (induction s) auto

lemma prints_return [simp]: "prints dev (State_Monad.return ()) []"
  by (auto simp: prints_def intro!: exI [of _ "[]"])

lemma console_up_sent:
  assumes "console_up m" "\<And>txt. foldl uart_step (False, txt) es = (False, txt @ u)"
  shows "console_up (m\<lparr>io_trace := io_trace m @ es\<rparr>)"
    "console_text (m\<lparr>io_trace := io_trace m @ es\<rparr>) = console_text m @ u"
proof -
  have "console (io_trace m) = (False, console_text m)"
    using assms(1) by (cases "console (io_trace m)") (simp add: console_up_def)
  then have "console (io_trace m @ es) = (False, console_text m @ u)"
    using assms(2) [of "console_text m"] unfolding console_def foldl_append by simp
  then show "console_up (m\<lparr>io_trace := io_trace m @ es\<rparr>)"
    "console_text (m\<lparr>io_trace := io_trace m @ es\<rparr>) = console_text m @ u"
    using assms(1) by (simp_all add: console_up_def)
qed

lemma prints_seq:
  assumes "prints dev c t" "prints dev d u"
  shows "prints dev (do { c; d }) (t @ u)"
  unfolding prints_def
proof (intro allI impI)
  fix m :: "'a machine_scheme" assume up: "console_up m"
  obtain es v where c: "snd (run_state c m) = m\<lparr>io_trace := io_trace m @ es\<rparr>"
    "\<And>txt. foldl uart_step (False, txt) es = (False, txt @ v)"
    "subseq v t" "tx_ready dev \<longrightarrow> v = t" "length es \<le> Suc SERIAL_TIMEOUT_LIMIT * length t" "serial_only es"
    using assms(1) up by (auto simp: prints_def)
  let ?m = "m\<lparr>io_trace := io_trace m @ es\<rparr>"
  obtain fs w where d: "snd (run_state d ?m) = ?m\<lparr>io_trace := io_trace ?m @ fs\<rparr>"
    "\<And>txt. foldl uart_step (False, txt) fs = (False, txt @ w)"
    "subseq w u" "tx_ready dev \<longrightarrow> w = u" "length fs \<le> Suc SERIAL_TIMEOUT_LIMIT * length u"
    "serial_only fs"
    using assms(2) console_up_sent(1) [OF up c(2)] by (auto simp: prints_def)
  show "\<exists>es x. snd (run_state (do { c; d }) m) = m\<lparr>io_trace := io_trace m @ es\<rparr> \<and>
      (\<forall>txt. foldl uart_step (False, txt) es = (False, txt @ x)) \<and> subseq x (t @ u) \<and>
      (tx_ready dev \<longrightarrow> x = t @ u) \<and> length es \<le> Suc SERIAL_TIMEOUT_LIMIT * length (t @ u) \<and>
      serial_only es"
    using c d by (intro exI [of _ "es @ fs"] exI [of _ "v @ w"])
      (auto simp: case_prod_unfold list_emb_append_mono)
qed


subsection \<open>The serial driver prints\<close>

lemma char_of_unat_of_char [simp]: "char_of (unat (of_char c :: u8)) = c"
proof -
  have "unat (of_char c :: u8) = unat (of_nat (of_char c) :: u8)" by (simp only: of_nat_of_char)
  also have "\<dots> = of_char c" by (simp add: unat_of_nat)
  finally show ?thesis by simp
qed

lemma foldl_ins: "\<forall>e\<in>set es. \<exists>v. e = In p v \<Longrightarrow> foldl uart_step s es = s"
proof (induction es)
  case (Cons e es)
  then obtain v where "e = In p v" by auto
  then have "uart_step s e = s" by (cases s) simp
  with Cons show ?case by simp
qed simp

lemma serial_wait_reads:
  "\<exists>b es. run_state (serial_wait dev k) m = (b, m\<lparr>io_trace := io_trace m @ es\<rparr>) \<and>
     (\<forall>e\<in>set es. \<exists>v. e = In (COM1_PORT + 5) v) \<and> length es \<le> k \<and> (tx_ready dev \<and> 0 < k \<longrightarrow> b)"
proof (induction k arbitrary: m)
  case (Suc k)
  let ?v = "dev (io_trace m) (COM1_PORT + 5)"
  let ?m = "m\<lparr>io_trace := io_trace m @ [In (COM1_PORT + 5) ?v]\<rparr>"
  have test: "run_state (serial_transmit_empty dev) m = (?v AND 0x20 \<noteq> 0, ?m)"
    by (simp add: serial_transmit_empty_def inb_def Let_def)
  show ?case
  proof (cases "?v AND 0x20 = 0")
    case True
    obtain b es where "run_state (serial_wait dev k) ?m = (b, ?m\<lparr>io_trace := io_trace ?m @ es\<rparr>)"
      "\<forall>e\<in>set es. \<exists>v. e = In (COM1_PORT + 5) v" "length es \<le> k"
      using Suc.IH by blast
    moreover have "\<not> tx_ready dev" using True by (auto simp: tx_ready_def)
    ultimately show ?thesis using test True
      by (intro exI [of _ b] exI [of _ "In (COM1_PORT + 5) ?v # es"]) simp
  next
    case False
    then show ?thesis using test
      by (intro exI [of _ True] exI [of _ "[In (COM1_PORT + 5) ?v]"]) simp
  qed
qed (auto intro!: exI [of _ "[]"])

text \<open>One character, without the treatment of newlines.\<close>

lemma prints_send:
  "prints dev (do { ready \<leftarrow> serial_wait dev SERIAL_TIMEOUT_LIMIT;
     if ready then outb COM1_PORT (of_char c) else State_Monad.return () }) [c]"
  unfolding prints_def
proof (intro allI impI)
  fix m :: "'a machine_scheme" assume up: "console_up m"
  let ?c = "do { ready \<leftarrow> serial_wait dev SERIAL_TIMEOUT_LIMIT;
     if ready then outb COM1_PORT (of_char c) else State_Monad.return () }"
  obtain b es where w: "run_state (serial_wait dev SERIAL_TIMEOUT_LIMIT) m = (b, m\<lparr>io_trace := io_trace m @ es\<rparr>)"
    "\<forall>e\<in>set es. \<exists>v. e = In (COM1_PORT + 5) v" "length es \<le> SERIAL_TIMEOUT_LIMIT" "tx_ready dev \<longrightarrow> b"
    using serial_wait_reads [of dev SERIAL_TIMEOUT_LIMIT m] by auto
  let ?es = "es @ (if b then [Out COM1_PORT (of_char c)] else [])" and ?u = "if b then [c] else []"
  have "snd (run_state ?c m) = m\<lparr>io_trace := io_trace m @ ?es\<rparr>"
    using w(1) by (simp add: outb_def)
  moreover have "foldl uart_step (False, x) ?es = (False, x @ ?u)" for x
    using foldl_ins [OF w(2)] by simp
  ultimately show "\<exists>es u. snd (run_state ?c m) = m\<lparr>io_trace := io_trace m @ es\<rparr> \<and>
      (\<forall>txt. foldl uart_step (False, txt) es = (False, txt @ u)) \<and> subseq u [c] \<and>
      (tx_ready dev \<longrightarrow> u = [c]) \<and> length es \<le> Suc SERIAL_TIMEOUT_LIMIT * length [c] \<and> serial_only es"
    using w(2-4) by (intro exI [of _ ?es] exI [of _ ?u]) auto
qed

lemma prints_serial_putc: "prints dev (serial_putc dev c) (crlf [c])"
proof (cases "c = CHR 0x0A")
  case True
  have "prints dev (serial_putc dev (CHR 0x0D)) [CHR 0x0D]"
    by (subst serial_putc.simps) (simp add: prints_send)
  from prints_seq [OF this prints_send [of dev "CHR 0x0A"]] show ?thesis
    unfolding True by (subst serial_putc.simps) simp
qed (subst serial_putc.simps, simp add: prints_send)

lemma prints_serial_loop: "CHR 0x00 \<notin> set s \<Longrightarrow> prints dev (serial_write_loop dev s) (crlf s)"
proof (induction s)
  case (Cons c s)
  then show ?case using prints_seq [OF prints_serial_putc Cons.IH, of c] by (auto split: if_splits)
qed simp

lemma prints_ensure: "prints dev c t \<Longrightarrow> prints dev (do { log_ensure; c }) t"
  by (simp add: prints_def log_ensure_def console_up_def)

text \<open>The collection that describes what every output function prints.\<close>

lemma prints_log_putc [prints]: "prints dev (log_putc dev c) (crlf [c])"
  unfolding log_putc_def by (rule prints_ensure [OF prints_serial_putc])

lemma prints_log_write [prints]: "CHR 0x00 \<notin> set s \<Longrightarrow> prints dev (log_write dev (Some s)) (crlf s)"
  unfolding log_write_def by (rule prints_ensure) (simp add: serial_write_def prints_serial_loop)

lemma prints_log_writeln [prints]:
  "CHR 0x00 \<notin> set s \<Longrightarrow> prints dev (log_writeln dev (Some s)) (crlf (s @ [CHR 0x0A]))"
  unfolding log_writeln_def crlf_append by (intro prints_seq prints)


subsection \<open>Numbers\<close>

text \<open>The value that a reader gives to a printed numeral.\<close>

definition digit_value :: "char \<Rightarrow> nat" where
  "digit_value c =
     (let n = of_char c in if 97 \<le> n then n - 87 else if 65 \<le> n then n - 55 else n - 48)"

definition numeral_value :: "nat \<Rightarrow> string \<Rightarrow> nat" where
  "numeral_value b s = foldl (\<lambda>a c. b * a + digit_value c) 0 s"

abbreviation printable :: "char \<Rightarrow> bool" where
  "printable c \<equiv> 32 \<le> (of_char c :: nat)"

lemma printable_plain: "\<forall>c\<in>set s. printable c \<Longrightarrow> crlf s = s \<and> CHR 0x00 \<notin> set s"
  by (induction s) auto

definition nibble :: "string \<Rightarrow> u64 \<Rightarrow> nat \<Rightarrow> char" where
  "nibble digits v k = digits ! ((unat v div 16 ^ k) mod 16)"

lemma unat_nibble: "unat (drop_bit (4 * k) v AND 0xF :: u64) = (unat v div 16 ^ k) mod 16"
proof -
  have "(0xF :: u64) = mask 4" by (simp add: mask_eq_exp_minus_1)
  then have "unat (drop_bit (4 * k) v AND 0xF) = take_bit 4 (unat (drop_bit (4 * k) v))"
    by (simp only: take_bit_eq_mask [symmetric] unsigned_take_bit_eq)
  also have "unat (drop_bit (4 * k) v) = unat v div 2 ^ (4 * k)"
    unfolding unsigned_drop_bit_eq
    using unat_less_64 [of v] by (simp add: drop_bit_eq_div take_bit_nat_eq_self)
  also have "take_bit 4 (unat v div 2 ^ (4 * k)) = unat v div 2 ^ (4 * k) mod 16"
    by (simp add: take_bit_eq_mod)
  finally show ?thesis by (simp add: power_mult)
qed

definition hex_text :: "string \<Rightarrow> u64 \<Rightarrow> nat \<Rightarrow> string" where
  "hex_text digits v k = map (nibble digits v) (rev [0..<k])"

lemma upto_16: "[0..<16] = [0, 1, 2, 3, 4, 5, 6, 7, 8, 9, 10, 11, 12, 13, 14, 15 :: nat]"
  by (simp add: upt_rec)

lemma digit_tables:
  "\<forall>n\<in>set [0..<16]. digit_value (''0123456789abcdef'' ! n) = n \<and> printable (''0123456789abcdef'' ! n)"
  "\<forall>n\<in>set [0..<16]. digit_value (''0123456789ABCDEF'' ! n) = n \<and> printable (''0123456789ABCDEF'' ! n)"
  unfolding upto_16 by (simp_all add: digit_value_def)

lemma hex_text_value:
  assumes "\<forall>n\<in>set [0..<16]. digit_value (digits ! n) = n \<and> printable (digits ! n)"
  shows "numeral_value 16 (hex_text digits v 16) = unat v" "\<forall>c\<in>set (hex_text digits v k). printable c"
proof -
  have d: "digit_value (nibble digits v j) = unat v div 16 ^ j mod 16" "printable (nibble digits v j)" for j
    using assms by (simp_all add: nibble_def)
  then show "\<forall>c\<in>set (hex_text digits v k). printable c" by (auto simp: hex_text_def)
  have "foldl (\<lambda>a c. 16 * a + digit_value c) a (hex_text digits v j) = 16 ^ j * a + unat v mod 16 ^ j" for j a
  proof (induction j arbitrary: a)
    case (Suc j)
    have "unat v mod 16 ^ Suc j = 16 ^ j * (unat v div 16 ^ j mod 16) + unat v mod 16 ^ j"
      using mod_mult2_eq [of "unat v" "16 ^ j" 16] by (simp add: mult.commute)
    with Suc.IH [of "16 * a + unat v div 16 ^ j mod 16"] d(1) [of j] show ?case
      by (simp add: hex_text_def algebra_simps)
  qed (simp add: hex_text_def)
  from this [of 0 16] show "numeral_value 16 (hex_text digits v 16) = unat v"
    using unat_less_64 [of v] by (simp add: numeral_value_def)
qed

lemma prints_hex_loop: "prints dev (log_hex_loop dev v k) (hex_text ''0123456789abcdef'' v k)"
proof (induction k)
  case (Suc k)
  have u: "unat (ucast (drop_bit (4 * k) v AND 0x0F) :: u8) = unat v div 16 ^ k mod 16"
    using unat_nibble [of k v] by (simp add: unsigned_ucast_eq take_bit_eq_mod)
  have "printable (nibble ''0123456789abcdef'' v k)"
    using digit_tables(1) by (simp add: nibble_def)
  then have "crlf [nibble ''0123456789abcdef'' v k] = [nibble ''0123456789abcdef'' v k]" by auto
  with prints_seq [OF prints_log_putc Suc.IH, of "nibble ''0123456789abcdef'' v k"] u
  show ?case by (simp add: hex_text_def nibble_def)
qed (simp add: hex_text_def)

lemma prints_hex64 [prints]: "prints dev (log_hex64 dev v) (''0x'' @ hex_text ''0123456789abcdef'' v 16)"
  unfolding log_hex64_def
  using prints_seq [OF prints_log_write [of "''0x''"] prints_hex_loop] by simp

text \<open>A full line, and a line with a name and a value in hexadecimal.\<close>

definition text_line :: "string \<Rightarrow> string" where
  "text_line s = s @ [CHR 0x0D, CHR 0x0A]"

definition hex_line :: "string \<Rightarrow> u64 \<Rightarrow> string" where
  "hex_line key v = text_line (key @ ''=0x'' @ hex_text ''0123456789abcdef'' v 16)"

lemma prints_key_value [prints]:
  assumes "CHR 0x00 \<notin> set key"
  shows "prints dev (log_key_value_hex64 dev (Some key) v)
    (crlf key @ ''=0x'' @ hex_text ''0123456789abcdef'' v 16 @ [CHR 0x0D, CHR 0x0A])"
proof -
  note k = prints_log_write [OF assms] and e = prints_log_write [of "''=''"]
    and n = prints_log_putc [of _ "CHR 0x0A"]
  from prints_seq [OF k prints_seq [OF e prints_seq [OF prints_hex64 n]]] show ?thesis
    by (simp add: log_key_value_hex64_def)
qed

lemma digit_value_dec: "k < 10 \<Longrightarrow> digit_value (char_of (48 + k :: nat)) = k"
  by (simp add: digit_value_def)

lemma dec_loop_value:
  fixes v :: "'a :: len word"
  assumes "unat v < 10 ^ k" "4 \<le> LENGTH('a)"
  shows "numeral_value 10 (rev (dec_loop k v)) = unat v \<and> (\<forall>c\<in>set (dec_loop k v). printable c)"
  using assms(1)
proof (induction k arbitrary: v)
  case (Suc k)
  have "2 ^ 4 \<le> (2 :: nat) ^ LENGTH('a)" using assms(2) by (rule power_increasing) simp
  then have ten: "unat (10 :: 'a word) = 10" by (simp add: unsigned_numeral take_bit_nat_eq_self)
  have r: "unat (v mod 10) = unat v mod 10" "unat (v div 10) = unat v div 10"
    by (simp_all only: unat_mod unat_div ten)
  show ?case
  proof (cases "v = 0")
    case False
    have "unat (v div 10) < 10 ^ k" using Suc.prems r by (simp add: less_mult_imp_div_less mult.commute)
    note IH = Suc.IH [OF this]
    have c: "of_char (char_of (48 + unat (v mod 10)) :: char) = 48 + unat v mod 10" using r by simp
    have "digit_value (char_of (48 + unat (v mod 10))) = unat v mod 10"
      using digit_value_dec [of "unat v mod 10"] r by simp
    with False IH r c show ?thesis by (simp add: numeral_value_def)
  qed (simp add: numeral_value_def)
qed (simp add: numeral_value_def)


lemma prints_chars: "\<forall>c\<in>set s. printable c \<Longrightarrow> prints dev (log_chars dev s) s"
proof (induction s)
  case (Cons c s)
  then have "crlf [c] = [c]" using printable_plain [of "[c]"] by simp
  then show ?case using prints_seq [OF prints_log_putc Cons.IH, of c] Cons.prems by simp
qed simp

definition dec_text :: "u64 \<Rightarrow> string" where
  "dec_text v = (if v = 0 then ''0'' else rev (dec_loop 20 v))"

lemma dec_text_value: "numeral_value 10 (dec_text v) = unat v" "\<forall>c\<in>set (dec_text v). printable c"
proof -
  have "unat v < 10 ^ 20" using unat_less_64 [of v] by simp
  from dec_loop_value [OF this] show "numeral_value 10 (dec_text v) = unat v" "\<forall>c\<in>set (dec_text v). printable c"
    by (auto simp: dec_text_def numeral_value_def digit_value_def)
qed

lemma prints_dec64 [prints]: "prints dev (log_dec64 dev v) (dec_text v)"
  using prints_chars [OF dec_text_value(2), of dev v] prints_log_putc [of dev "CHR ''0''"]
  by (auto simp: log_dec64_def dec_text_def)

lemma prints_serial_hex64:
  "prints dev (serial_write_hex64 dev v) (''0x'' @ hex_text ''0123456789ABCDEF'' v 16)"
proof -
  let ?d = "''0123456789ABCDEF''"
  have "map (\<lambda>i. ?d ! unat (drop_bit (60 - i * 4) v AND 0xF)) [0..<16] = hex_text ?d v 16"
  proof -
    have "rev [0..<16] = map (\<lambda>i. 15 - i) [0..<(16::nat)]" unfolding upto_16 by simp
    moreover have "unat (drop_bit (60 - i * 4) v AND 0xF) = unat v div 16 ^ (15 - i) mod 16" if "i < 16" for i
      using unat_nibble [of "15 - i" v] that by (simp add: right_diff_distrib' mult.commute)
    ultimately show ?thesis by (simp add: hex_text_def nibble_def comp_def)
  qed
  moreover have "\<forall>c\<in>set (''0x'' @ hex_text ?d v 16). printable c"
    using hex_text_value(2) [OF digit_tables(2)] by simp
  ultimately show ?thesis
    using prints_serial_loop [of "''0x'' @ hex_text ?d v 16" dev] printable_plain [of "''0x'' @ hex_text ?d v 16"]
    by (simp add: serial_write_hex64_def serial_write_def)
qed

subsection \<open>Start of the console\<close>

text \<open>Whatever was sent to the port before, initialisation leaves the console up and sends nothing.\<close>

lemma serial_init_step: "foldl uart_step s [Out (COM1_PORT + 1) 0x00, Out (COM1_PORT + 3) 0x80,
    Out (COM1_PORT + 0) 0x03, Out (COM1_PORT + 1) 0x00, Out (COM1_PORT + 3) 0x03,
    Out (COM1_PORT + 2) 0xC7, Out (COM1_PORT + 4) 0x0B] = (False, snd s)"
  by (cases s) (simp add: bit_simps)

lemma log_init_up:
  "console_up (snd (run_state log_init m)) \<and> console_text (snd (run_state log_init m)) = console_text m"
proof -
  let ?es = "[Out (COM1_PORT + 1) 0x00, Out (COM1_PORT + 3) 0x80,
    Out (COM1_PORT + 0) 0x03, Out (COM1_PORT + 1) 0x00, Out (COM1_PORT + 3) 0x03,
    Out (COM1_PORT + 2) 0xC7, Out (COM1_PORT + 4) 0x0B]"
  have "snd (run_state log_init m) = m\<lparr>io_trace := io_trace m @ ?es, g_log_ready := True\<rparr>"
    by (simp add: log_init_def serial_init_def outb_def)
  moreover have "console (io_trace m @ ?es) = (False, snd (console (io_trace m)))"
    unfolding console_def foldl_append serial_init_step ..
  ultimately show ?thesis by (simp add: console_up_def)
qed


subsection \<open>Runs of output functions\<close>

lemma printed_text:
  assumes "prints dev c t" "console_up m"
  shows "console_up (snd (run_state c m))" "tx_ready dev \<Longrightarrow> console_text (snd (run_state c m)) = console_text m @ t"
    "\<exists>u. subseq u t \<and> console_text (snd (run_state c m)) = console_text m @ u"
    "length (io_trace (snd (run_state c m))) \<le> length (io_trace m) + Suc SERIAL_TIMEOUT_LIMIT * length t"
proof -
  obtain es u where c: "snd (run_state c m) = m\<lparr>io_trace := io_trace m @ es\<rparr>"
    "\<And>x. foldl uart_step (False, x) es = (False, x @ u)" "subseq u t" "tx_ready dev \<longrightarrow> u = t"
    "length es \<le> Suc SERIAL_TIMEOUT_LIMIT * length t"
    using assms by (auto simp: prints_def)
  note s = console_up_sent [OF assms(2) c(2)]
  show "console_up (snd (run_state c m))" "tx_ready dev \<Longrightarrow> console_text (snd (run_state c m)) = console_text m @ t"
    "\<exists>u. subseq u t \<and> console_text (snd (run_state c m)) = console_text m @ u"
    "length (io_trace (snd (run_state c m))) \<le> length (io_trace m) + Suc SERIAL_TIMEOUT_LIMIT * length t"
    using s c by auto
qed

section \<open>Properties\<close>

text \<open>
  C38. Numbers on the console: with a transmitter that reports ready, \<open>log_hex64\<close> sends \<open>0x\<close> and
  16 digits, \<open>serial_write_hex64\<close> the same in capitals and \<open>log_dec64\<close> a decimal numeral, and a reader of
  these numerals gets the value back, for every 64-bit value. The digit buffer never is too short.
\<close>

theorem console_numbers_roundtrip:
  assumes "tx_ready dev" "console_up m"
  shows "\<exists>h H d.
    console_text (snd (run_state (log_hex64 dev v) m)) = console_text m @ ''0x'' @ h \<and>
    length h = 16 \<and> numeral_value 16 h = unat v \<and>
    console_text (snd (run_state (serial_write_hex64 dev v) m)) = console_text m @ ''0x'' @ H \<and>
    length H = 16 \<and> numeral_value 16 H = unat v \<and>
    console_text (snd (run_state (log_dec64 dev v) m)) = console_text m @ d \<and> numeral_value 10 d = unat v"
  using printed_text(2) [OF prints_hex64 assms(2,1)] printed_text(2) [OF prints_serial_hex64 assms(2,1)]
    printed_text(2) [OF prints_dec64 assms(2,1)] hex_text_value(1) [OF digit_tables(1)]
    hex_text_value(1) [OF digit_tables(2)] dec_text_value(1)
  by (intro exI [of _ "hex_text ''0123456789abcdef'' v 16"] exI [of _ "hex_text ''0123456789ABCDEF'' v 16"]
      exI [of _ "dec_text v"]) (simp add: hex_text_def)

theorem console_numbers_roundtrip_witness:
  "\<exists>d. console_text (snd (run_state (log_dec64 (\<lambda>tr p. 0x60) 18446744073709551615) \<lparr>io_trace = [], g_log_ready = True\<rparr>)) = d \<and>
     numeral_value 10 d = 18446744073709551615"
proof -
  have "tx_ready (\<lambda>tr p. 0x60)" by (simp add: tx_ready_def)
  moreover have "console_up \<lparr>io_trace = [], g_log_ready = True\<rparr>" by (simp add: console_up_def console_def)
  moreover have "unat (18446744073709551615 :: u64) = 18446744073709551615" by simp
  ultimately show ?thesis
    using console_numbers_roundtrip [of "\<lambda>tr p. 0x60" "\<lparr>io_trace = [], g_log_ready = True\<rparr>" 18446744073709551615]
    by (auto simp: console_def)
qed

text \<open>
  C39. Output never blocks the kernel: for any device, even one whose transmitter never gets ready,
  \<open>log_write\<close> of a string returns after at most 100001 port accesses per character sent, the
  text on the line is the string with some characters left out (none if the transmitter is
  ready) and newlines sent as carriage return and newline, and nothing but the port trace changes.
  The first call initialises the port.
\<close>

theorem console_write_bounded:
  assumes "CHR 0x00 \<notin> set s" "m0 = (if g_log_ready m then m else snd (run_state log_init m))"
    "g_log_ready m \<longrightarrow> console_up m"
  shows "\<exists>u. subseq u (crlf s) \<and> console_text (snd (run_state (log_write dev (Some s)) m)) = console_text m @ u \<and>
    (tx_ready dev \<longrightarrow> u = crlf s) \<and> console_up (snd (run_state (log_write dev (Some s)) m)) \<and>
    length (io_trace (snd (run_state (log_write dev (Some s)) m))) \<le> length (io_trace m0) + 100001 * length (crlf s)"
proof -
  have up: "console_up m0" "console_text m0 = console_text m"
    using assms(2,3) log_init_up [of m] by (auto split: if_splits)
  have eq: "run_state (log_write dev (Some s)) m = run_state (log_write dev (Some s)) m0"
    using assms(2) log_init_up [of m]
    by (auto simp: log_write_def log_ensure_def log_init_def console_up_def case_prod_unfold split: if_splits)
  note p = printed_text [OF prints_log_write [OF assms(1), of dev] up(1)]
  show ?thesis
    unfolding eq using p up(2) by (cases "tx_ready dev") auto
qed

theorem console_write_bounded_witness:
  "console_text (snd (run_state (log_write (\<lambda>tr p. 0x60) (Some [CHR ''o'', CHR ''k'', CHR 0x0A]))
     \<lparr>io_trace = [], g_log_ready = False\<rparr>)) = [CHR ''o'', CHR ''k'', CHR 0x0D, CHR 0x0A]"
proof -
  let ?m = "\<lparr>io_trace = [], g_log_ready = False\<rparr>" and ?s = "[CHR ''o'', CHR ''k'', CHR 0x0A]"
  have "tx_ready (\<lambda>tr p. 0x60)" by (simp add: tx_ready_def)
  moreover have "CHR 0x00 \<notin> set ?s" "\<not> g_log_ready ?m" by simp_all
  ultimately show ?thesis
    using console_write_bounded [of ?s _ ?m "\<lambda>tr p. 0x60", OF _ refl] by (auto simp: console_def)
qed

end
