(* ===== verification/Interrupts.thy ===== *)
theory Interrupts
  imports Console
begin

text \<open>
  Interrupts and panics: \<open>panic.c\<close> and \<open>trap.c\<close> of \<open>src/kernel/core\<close>, and \<open>idt.c\<close>, \<open>pic.c\<close> and
  \<open>pit.c\<close> of \<open>src/kernel/arch/x86_64\<close>. The machine state of \<open>Console\<close> is extended by the flags
  register, the interrupt descriptor table and the counters. A function that may end in a
  panic says whether it \<open>Returns\<close> or \<open>Halts\<close>. Link-time addresses (of the table and of the assembly
  stubs) are parameters.
\<close>

section \<open>Model\<close>

record idt_entry =
  offset_low :: u16
  selector :: u16
  ist :: u8
  type_attributes :: u8
  offset_mid :: u16
  offset_high :: u32
  reserved :: u32

record cpu = machine +
  rflags :: u64
  idt :: "idt_entry list"
  idtr_limit :: u16
  idtr_base :: u64
  loaded_idtr :: "(u16 \<times> u64) option"
  g_ticks :: u64
  trap_count :: u64

datatype control = Returns | Halts

subsection \<open>Processor\<close>

definition cpu_cli :: "('r cpu_scheme, unit) state" where
  "cpu_cli = State_Monad.update (\<lambda>m. m\<lparr>rflags := rflags m AND NOT 0x200\<rparr>)"

definition cpu_sti :: "('r cpu_scheme, unit) state" where
  "cpu_sti = State_Monad.update (\<lambda>m. m\<lparr>rflags := rflags m OR 0x200\<rparr>)"

definition cpu_read_rflags :: "('r cpu_scheme, u64) state" where
  "cpu_read_rflags = do { m \<leftarrow> State_Monad.get; State_Monad.return (rflags m) }"

definition cpu_halt_forever :: "('r cpu_scheme, control) state" where
  "cpu_halt_forever = do { cpu_cli; State_Monad.return Halts }"

subsection \<open>Panic\<close>

abbreviation MCSOS_NAME :: string where "MCSOS_NAME \<equiv> ''MCSOS''"
abbreviation MCSOS_VERSION :: string where "MCSOS_VERSION \<equiv> ''260502''"
abbreviation MCSOS_MILESTONE :: string where "MCSOS_MILESTONE \<equiv> ''M4''"

definition log_dec_u32 :: "device \<Rightarrow> u32 \<Rightarrow> ('r machine_scheme, unit) state" where
  "log_dec_u32 dev v =
     (if v = 0 then log_putc dev (CHR ''0'') else log_chars dev (rev (dec_loop 11 v)))"

definition panic_report ::
  "device \<Rightarrow> string option \<Rightarrow> int \<Rightarrow> string option \<Rightarrow> u64 \<Rightarrow> u64 \<Rightarrow> ('r machine_scheme, unit) state" where
  "panic_report dev file line reason code flags = do {
     log_writeln dev (Some '''');
     log_writeln dev (Some ''================ MCSOS KERNEL PANIC ================'');
     log_write dev (Some ''system='');
     log_write dev (Some MCSOS_NAME);
     log_write dev (Some '' version='');
     log_write dev (Some MCSOS_VERSION);
     log_write dev (Some '' milestone='');
     log_writeln dev (Some MCSOS_MILESTONE);
     log_write dev (Some ''reason='');
     log_writeln dev (case reason of None \<Rightarrow> Some ''<null>'' | Some r \<Rightarrow> Some r);
     log_write dev (Some ''location='');
     log_write dev (case file of None \<Rightarrow> Some ''<unknown>'' | Some f \<Rightarrow> Some f);
     log_write dev (Some '':'');
     log_dec_u32 dev (of_int line);
     log_putc dev (CHR 0x0A);
     log_key_value_hex64 dev (Some ''panic_code'') code;
     log_key_value_hex64 dev (Some ''rflags_before_cli'') flags;
     log_writeln dev (Some ''state=halted'');
     log_writeln dev (Some ''===================================================='')
   }"

definition kernel_panic_at ::
  "device \<Rightarrow> string option \<Rightarrow> int \<Rightarrow> string option \<Rightarrow> u64 \<Rightarrow> ('r cpu_scheme, control) state" where
  "kernel_panic_at dev file line reason code = do {
     flags \<leftarrow> cpu_read_rflags;
     cpu_cli;
     panic_report dev file line reason code flags;
     cpu_halt_forever
   }"

text \<open>\<open>KERNEL_ASSERT\<close> with the rest of the function body as its last argument.\<close>

definition kernel_assert ::
  "device \<Rightarrow> string \<Rightarrow> int \<Rightarrow> string \<Rightarrow> bool \<Rightarrow> ('r cpu_scheme, control) state \<Rightarrow> ('r cpu_scheme, control) state" where
  "kernel_assert dev file line expr ok rest =
     (if \<not> ok then kernel_panic_at dev (Some file) line (Some (''assertion failed: '' @ expr)) 0xA55E4710
      else rest)"

subsection \<open>Interrupt controller\<close>

abbreviation PIC1_COMMAND :: u16 where "PIC1_COMMAND \<equiv> 0x20"
abbreviation PIC1_DATA :: u16 where "PIC1_DATA \<equiv> 0x21"
abbreviation PIC2_COMMAND :: u16 where "PIC2_COMMAND \<equiv> 0xA0"
abbreviation PIC2_DATA :: u16 where "PIC2_DATA \<equiv> 0xA1"
abbreviation PIC_EOI :: u8 where "PIC_EOI \<equiv> 0x20"
abbreviation PIC_MASTER_OFFSET :: u8 where "PIC_MASTER_OFFSET \<equiv> 0x20"
abbreviation PIC_SLAVE_OFFSET :: u8 where "PIC_SLAVE_OFFSET \<equiv> 0x28"

definition pic_remap :: "device \<Rightarrow> u8 \<Rightarrow> u8 \<Rightarrow> ('r machine_scheme, unit) state" where
  "pic_remap dev master_offset slave_offset = do {
     master_mask \<leftarrow> inb dev PIC1_DATA;
     slave_mask \<leftarrow> inb dev PIC2_DATA;
     outb PIC1_COMMAND 0x11; io_wait;
     outb PIC2_COMMAND 0x11; io_wait;
     outb PIC1_DATA master_offset; io_wait;
     outb PIC2_DATA slave_offset; io_wait;
     outb PIC1_DATA 0x04; io_wait;
     outb PIC2_DATA 0x02; io_wait;
     outb PIC1_DATA 0x01; io_wait;
     outb PIC2_DATA 0x01; io_wait;
     outb PIC1_DATA master_mask;
     outb PIC2_DATA slave_mask
   }"

definition pic_mask_all :: "('r machine_scheme, unit) state" where
  "pic_mask_all = do { outb PIC1_DATA 0xFF; outb PIC2_DATA 0xFF }"

text \<open>For lines below 32; a longer shift has no defined value in C.\<close>

definition pic_unmask_irq :: "device \<Rightarrow> u8 \<Rightarrow> ('r machine_scheme, unit) state" where
  "pic_unmask_irq dev irq = do {
     let (port, line) = (if irq < 8 then (PIC1_DATA, irq) else (PIC2_DATA, irq - 8));
     mask \<leftarrow> inb dev port;
     outb port (mask AND ucast (NOT (push_bit (unat line) (1 :: u32))))
   }"

definition pic_send_eoi :: "u8 \<Rightarrow> ('r machine_scheme, unit) state" where
  "pic_send_eoi irq = do {
     (if 8 \<le> irq then outb PIC2_COMMAND PIC_EOI else State_Monad.return ());
     outb PIC1_COMMAND PIC_EOI
   }"

definition pic_read_master_mask :: "device \<Rightarrow> ('r machine_scheme, u8) state" where
  "pic_read_master_mask dev = inb dev PIC1_DATA"

definition pic_read_slave_mask :: "device \<Rightarrow> ('r machine_scheme, u8) state" where
  "pic_read_slave_mask dev = inb dev PIC2_DATA"

subsection \<open>Timer\<close>

abbreviation PIT_BASE_FREQUENCY_HZ :: u32 where "PIT_BASE_FREQUENCY_HZ \<equiv> 1193182"
abbreviation PIT_CHANNEL0 :: u16 where "PIT_CHANNEL0 \<equiv> 0x40"
abbreviation PIT_COMMAND :: u16 where "PIT_COMMAND \<equiv> 0x43"

definition pit_divisor :: "u32 \<Rightarrow> u32" where
  "pit_divisor hz =
     (let hz' = (if hz = 0 then 100 else hz);
          divisor = PIT_BASE_FREQUENCY_HZ div hz';
          divisor' = (if divisor = 0 then 1 else divisor)
      in if 0xFFFF < divisor' then 0xFFFF else divisor')"

definition pit_configure_hz :: "u32 \<Rightarrow> ('r machine_scheme, unit) state" where
  "pit_configure_hz hz = do {
     let divisor = pit_divisor hz;
     outb PIT_COMMAND 0x36;
     outb PIT_CHANNEL0 (ucast (divisor AND 0xFF));
     outb PIT_CHANNEL0 (ucast (drop_bit 8 divisor AND 0xFF))
   }"

definition timer_ticks :: "('r cpu_scheme, u64) state" where
  "timer_ticks = do { m \<leftarrow> State_Monad.get; State_Monad.return (g_ticks m) }"

definition timer_on_irq0 :: "device \<Rightarrow> ('r cpu_scheme, unit) state" where
  "timer_on_irq0 dev = do {
     State_Monad.update (\<lambda>m. m\<lparr>g_ticks := g_ticks m + 1\<rparr>);
     t \<leftarrow> timer_ticks;
     if t mod 100 = 0 then do {
       log_write dev (Some ''[MCSOS:TIMER] ticks='');
       log_dec64 dev t;
       log_writeln dev (Some '''')
     } else State_Monad.return ()
   }"

subsection \<open>Descriptor table\<close>

abbreviation X86_64_IDT_VECTOR_COUNT :: nat where "X86_64_IDT_VECTOR_COUNT \<equiv> 256"
abbreviation X86_64_KERNEL_CODE_SELECTOR :: u16 where "X86_64_KERNEL_CODE_SELECTOR \<equiv> 0x28"
abbreviation X86_64_IDT_GATE_INTERRUPT :: u8 where "X86_64_IDT_GATE_INTERRUPT \<equiv> 0x8E"
abbreviation X86_64_IDT_GATE_TRAP :: u8 where "X86_64_IDT_GATE_TRAP \<equiv> 0x8F"

text \<open>The size of the packed gate is the sum of its fields.\<close>

abbreviation sizeof_x86_64_idt_entry_t :: nat where "sizeof_x86_64_idt_entry_t \<equiv> 2 + 2 + 1 + 1 + 2 + 4 + 4"

definition x86_64_idt_set_gate :: "idt_entry list \<Rightarrow> u8 \<Rightarrow> u64 \<Rightarrow> u8 \<Rightarrow> idt_entry list option" where
  "x86_64_idt_set_gate tab vector handler attributes = wr tab (unat vector)
     \<lparr>offset_low = ucast (handler AND 0xFFFF), selector = X86_64_KERNEL_CODE_SELECTOR, ist = 0,
      type_attributes = attributes, offset_mid = ucast (drop_bit 16 handler AND 0xFFFF),
      offset_high = ucast (drop_bit 32 handler AND 0xFFFFFFFF), reserved = 0\<rparr>"

text \<open>
  The two loops of \<open>x86_64_idt_init\<close>: clear all gates, then install the 48 stubs.
\<close>

definition idt_fill :: "u64 list \<Rightarrow> idt_entry list \<Rightarrow> idt_entry list option" where
  "idt_fill x86_64_exception_stubs tab = do {
     t \<leftarrow> for_up (\<lambda>i t. x86_64_idt_set_gate t (of_nat i) 0 0) X86_64_IDT_VECTOR_COUNT 0 tab;
     for_up (\<lambda>v t. do {
       stub \<leftarrow> rd x86_64_exception_stubs v;
       x86_64_idt_set_gate t (of_nat v) stub
         (if v = 3 then X86_64_IDT_GATE_TRAP else X86_64_IDT_GATE_INTERRUPT)
     }) 48 0 t
   }"

definition lidt :: "('r cpu_scheme, unit) state" where
  "lidt = State_Monad.update (\<lambda>m. m\<lparr>loaded_idtr := Some (idtr_limit m, idtr_base m)\<rparr>)"

definition x86_64_idt_init :: "device \<Rightarrow> u64 \<Rightarrow> u64 list \<Rightarrow> 'r cpu_scheme \<Rightarrow> (control \<times> 'r cpu_scheme) option" where
  "x86_64_idt_init dev idt_address stubs m = do {
     t \<leftarrow> idt_fill stubs (idt m);
     let m1 = m\<lparr>idt := t, idtr_limit := of_nat (X86_64_IDT_VECTOR_COUNT * sizeof_x86_64_idt_entry_t) - 1, idtr_base := idt_address\<rparr>;
     Some (run_state
       (kernel_assert dev ''kernel/arch/x86_64/idt.c'' 49 ''sizeof(x86_64_idt_entry_t) == 16u'' (sizeof_x86_64_idt_entry_t = 16)
       (kernel_assert dev ''kernel/arch/x86_64/idt.c'' 50
          ''idtr.limit == (uint16_t)((X86_64_IDT_VECTOR_COUNT * sizeof(x86_64_idt_entry_t)) - 1u)''
          (idtr_limit m1 = of_nat (X86_64_IDT_VECTOR_COUNT * sizeof_x86_64_idt_entry_t) - 1)
          (do {
             lidt;
             log_key_value_hex64 dev (Some ''idt_base'') (idtr_base m1);
             log_key_value_hex64 dev (Some ''idt_limit'') (ucast (idtr_limit m1));
             log_writeln dev (Some ''[M4] IDT loaded'');
             State_Monad.return Returns
           }))) m1)
   }"

definition x86_64_idt_base_for_test :: "'r cpu_scheme \<Rightarrow> u64" where
  "x86_64_idt_base_for_test m = idtr_base m"

definition x86_64_idt_limit_for_test :: "'r cpu_scheme \<Rightarrow> u16" where
  "x86_64_idt_limit_for_test m = idtr_limit m"

subsection \<open>Dispatch\<close>

record x86_64_trap_frame =
  r15 :: u64  r14 :: u64  r13 :: u64  r12 :: u64  r11 :: u64  r10 :: u64  r9 :: u64  r8 :: u64
  rsi :: u64  rdi :: u64  rbp :: u64  rdx :: u64  rcx :: u64  rbx :: u64  rax :: u64
  tf_vector :: u64
  error_code :: u64
  rip :: u64
  cs :: u64
  tf_rflags :: u64

definition exception_names :: "string list" where
  "exception_names =
     [''#DE Divide Error'', ''#DB Debug'', ''NMI Interrupt'', ''#BP Breakpoint'',
      ''#OF Overflow'', ''#BR Bound Range Exceeded'', ''#UD Invalid Opcode'',
      ''#NM Device Not Available'', ''#DF Double Fault'',
      ''Coprocessor Segment Overrun'', ''#TS Invalid TSS'',
      ''#NP Segment Not Present'', ''#SS Stack Segment Fault'',
      ''#GP General Protection Fault'', ''#PF Page Fault'', ''Reserved'',
      ''#MF x87 Floating-Point Exception'', ''#AC Alignment Check'',
      ''#MC Machine Check'', ''#XM SIMD Floating-Point Exception'',
      ''#VE Virtualization Exception'', ''#CP Control Protection Exception'',
      ''Reserved'', ''Reserved'', ''Reserved'', ''Reserved'', ''Reserved'', ''Reserved'',
      ''#HV Hypervisor Injection Exception'', ''#VC VMM Communication Exception'',
      ''#SX Security Exception'', ''Reserved'']"

definition trap_name :: "u64 \<Rightarrow> string" where
  "trap_name vector = (if vector < 32 then exception_names ! unat vector else ''external-irq'')"

definition log_trap_frame :: "device \<Rightarrow> x86_64_trap_frame \<Rightarrow> ('r machine_scheme, unit) state" where
  "log_trap_frame dev frame = do {
     log_key_value_hex64 dev (Some ''trap_vector'') (tf_vector frame);
     log_key_value_hex64 dev (Some ''trap_error'') (error_code frame);
     log_key_value_hex64 dev (Some ''trap_rip'') (rip frame);
     log_key_value_hex64 dev (Some ''trap_cs'') (cs frame);
     log_key_value_hex64 dev (Some ''trap_rflags'') (tf_rflags frame)
   }"

definition report_trap :: "device \<Rightarrow> x86_64_trap_frame \<Rightarrow> ('r machine_scheme, unit) state" where
  "report_trap dev frame = do {
     log_write dev (Some ''[M5] trap: '');
     log_writeln dev (Some (trap_name (tf_vector frame)));
     log_trap_frame dev frame
   }"

definition handle_irq :: "device \<Rightarrow> u8 \<Rightarrow> ('r cpu_scheme, unit) state" where
  "handle_irq dev irq =
     (if irq = 0 then timer_on_irq0 dev
      else do {
        log_write dev (Some ''[M5] unexpected irq='');
        log_dec64 dev (ucast irq);
        log_writeln dev (Some '''')
      })"

definition m4_trap_count_for_test :: "'r cpu_scheme \<Rightarrow> u64" where
  "m4_trap_count_for_test m = trap_count m"

definition x86_64_trap_dispatch ::
  "device \<Rightarrow> x86_64_trap_frame option \<Rightarrow> ('r cpu_scheme, control) state" where
  "x86_64_trap_dispatch dev frame_ptr = (case frame_ptr of
     None \<Rightarrow> kernel_panic_at dev (Some ''kernel/core/trap.c'') 41
               (Some ''assertion failed: frame != (x86_64_trap_frame_t *)0'') 0xA55E4710
   | Some frame \<Rightarrow> do {
       State_Monad.update (\<lambda>m. m\<lparr>trap_count := trap_count m + 1\<rparr>);
       if ucast PIC_MASTER_OFFSET \<le> tf_vector frame \<and> tf_vector frame < ucast PIC_SLAVE_OFFSET + 8
       then do {
         let irq = (ucast (tf_vector frame - ucast PIC_MASTER_OFFSET) :: u8);
         handle_irq dev irq;
         pic_send_eoi irq;
         State_Monad.return Returns
       }
       else do {
         report_trap dev frame;
         if tf_vector frame = 3 then do {
           log_writeln dev (Some ''[M5] breakpoint handled; returning'');
           State_Monad.return Returns
         }
         else kernel_panic_at dev (Some ''kernel/core/trap.c'') 69
                (Some ''unrecoverable CPU exception'') (tf_vector frame)
       }
     })"

section \<open>Output functions\<close>

lemma prints_text: "prints dev c t \<Longrightarrow> t = u \<Longrightarrow> prints dev c u"
  by simp

text \<open>On a machine with the console up, printing appends accesses to the serial port and does nothing else.\<close>

lemma prints_run:
  assumes "prints dev c t" "console_up m"
  shows "\<exists>es. run_state c m = ((), m\<lparr>io_trace := io_trace m @ es\<rparr>) \<and> serial_only es \<and>
    console_up (m\<lparr>io_trace := io_trace m @ es\<rparr>) \<and>
    (tx_ready dev \<longrightarrow> console_text (m\<lparr>io_trace := io_trace m @ es\<rparr>) = console_text m @ t)"
proof -
  obtain es where es: "snd (run_state c m) = m\<lparr>io_trace := io_trace m @ es\<rparr>" "serial_only es"
    using assms unfolding prints_def by blast
  then have "run_state c m = ((), m\<lparr>io_trace := io_trace m @ es\<rparr>)" by (cases "run_state c m") simp
  with es show ?thesis using printed_text(1,2) [OF assms] by (intro exI [of _ es]) auto
qed

definition line_text :: "u32 \<Rightarrow> string" where
  "line_text v = (if v = 0 then ''0'' else rev (dec_loop 11 v))"

lemma line_text_value: "numeral_value 10 (line_text v) = unat v" "\<forall>c\<in>set (line_text v). printable c"
proof -
  have "unat v < 2 ^ LENGTH(32)" by (rule unsigned_less)
  then have "unat v < 10 ^ 11" by simp
  from dec_loop_value [OF this] show "numeral_value 10 (line_text v) = unat v" "\<forall>c\<in>set (line_text v). printable c"
    by (auto simp: line_text_def numeral_value_def digit_value_def)
qed

lemma prints_dec_u32 [prints]: "prints dev (log_dec_u32 dev v) (line_text v)"
  using prints_chars [OF line_text_value(2), of dev v] prints_log_putc [of dev "CHR ''0''"]
  by (auto simp: log_dec_u32_def line_text_def)

definition panic_text :: "string \<Rightarrow> int \<Rightarrow> string \<Rightarrow> u64 \<Rightarrow> u64 \<Rightarrow> string" where
  "panic_text file line reason code flags =
     text_line '''' @ text_line ''================ MCSOS KERNEL PANIC ================'' @
     text_line ''system=MCSOS version=260502 milestone=M4'' @ text_line (''reason='' @ crlf reason) @
     text_line (''location='' @ crlf file @ '':'' @ line_text (of_int line)) @
     hex_line ''panic_code'' code @ hex_line ''rflags_before_cli'' flags @ text_line ''state=halted'' @
     text_line ''====================================================''"

lemma prints_panic [prints]:
  assumes "CHR 0x00 \<notin> set file" "CHR 0x00 \<notin> set reason"
  shows "prints dev (panic_report dev (Some file) line (Some reason) code flags) (panic_text file line reason code flags)"
  unfolding panic_report_def option.case
  by (rule prints_text, (rule prints_seq prints; (simp add: assms; fail)?)+)
    (simp add: panic_text_def text_line_def hex_line_def)

lemma trap_names_plain: "CHR 0x00 \<notin> set (trap_name v)" "crlf (trap_name v) = trap_name v"
proof -
  have "\<forall>n\<in>set exception_names. CHR 0x00 \<notin> set n \<and> crlf n = n" by (simp add: exception_names_def)
  moreover have "length exception_names = 32" by (simp add: exception_names_def)
  ultimately show "CHR 0x00 \<notin> set (trap_name v)" "crlf (trap_name v) = trap_name v"
    by (auto simp: trap_name_def word_less_nat_alt)
qed

section \<open>Panic and dispatch\<close>

lemma kernel_panic_run:
  assumes "console_up m" "CHR 0x00 \<notin> set file" "CHR 0x00 \<notin> set reason"
  shows "\<exists>es. run_state (kernel_panic_at dev (Some file) line (Some reason) code) m =
      (Halts, m\<lparr>io_trace := io_trace m @ es, rflags := rflags m AND NOT 0x200\<rparr>) \<and> serial_only es \<and>
    (tx_ready dev \<longrightarrow> snd (console (io_trace m @ es)) = console_text m @ panic_text file line reason code (rflags m))"
proof -
  let ?m = "m\<lparr>rflags := rflags m AND NOT 0x200\<rparr>"
  have "console_up ?m" using assms(1) by (simp add: console_up_def)
  from prints_run [OF prints_panic [OF assms(2,3), of dev line code "rflags m"] this]
  obtain es where "run_state (panic_report dev (Some file) line (Some reason) code (rflags m)) ?m =
      ((), ?m\<lparr>io_trace := io_trace ?m @ es\<rparr>)" "serial_only es"
    "tx_ready dev \<longrightarrow> snd (console (io_trace m @ es)) = console_text m @ panic_text file line reason code (rflags m)"
    by auto
  then show ?thesis
    by (intro exI [of _ es]) (simp add: kernel_panic_at_def cpu_read_rflags_def cpu_cli_def cpu_halt_forever_def)
qed

text \<open>The report of an exception.\<close>

definition trap_text :: "x86_64_trap_frame \<Rightarrow> string" where
  "trap_text frame =
     text_line (''[M5] trap: '' @ trap_name (tf_vector frame)) @
     hex_line ''trap_vector'' (tf_vector frame) @ hex_line ''trap_error'' (error_code frame) @
     hex_line ''trap_rip'' (rip frame) @ hex_line ''trap_cs'' (cs frame) @ hex_line ''trap_rflags'' (tf_rflags frame)"

lemma prints_report_trap: "prints dev (report_trap dev frame) (trap_text frame)"
  unfolding report_trap_def log_trap_frame_def
  by (rule prints_text, (rule prints_seq prints trap_names_plain; (simp add: trap_names_plain; fail)?)+)
    (simp add: trap_text_def text_line_def hex_line_def trap_names_plain)

text \<open>The line that the timer handler prints at tick \<open>t\<close>, if it prints one.\<close>

definition tick_line :: "u64 \<Rightarrow> string" where
  "tick_line t = (if t mod 100 = 0 then ''[MCSOS:TIMER] ticks='' @ dec_text t @ [CHR 0x0D, CHR 0x0A] else [])"

lemma timer_run:
  assumes "console_up m"
  shows "\<exists>es. run_state (timer_on_irq0 dev) m =
      ((), m\<lparr>io_trace := io_trace m @ es, g_ticks := g_ticks m + 1\<rparr>) \<and> serial_only es \<and>
    console_up (m\<lparr>io_trace := io_trace m @ es\<rparr>) \<and>
    (tx_ready dev \<longrightarrow> snd (console (io_trace m @ es)) = console_text m @ tick_line (g_ticks m + 1))"
proof (cases "(g_ticks m + 1) mod 100 = 0")
  case True
  let ?m = "m\<lparr>g_ticks := g_ticks m + 1\<rparr>"
  let ?c = "do {
       log_write dev (Some ''[MCSOS:TIMER] ticks='');
       log_dec64 dev (g_ticks m + 1);
       log_writeln dev (Some '''') }"
  have p: "prints dev ?c (tick_line (g_ticks m + 1))"
    by (rule prints_text, (rule prints_seq prints; (simp; fail)?)+) (simp add: tick_line_def True)
  have up: "console_up ?m" using assms by (simp add: console_up_def)
  obtain es where "run_state ?c ?m = ((), ?m\<lparr>io_trace := io_trace ?m @ es\<rparr>)" "serial_only es"
    "console_up (?m\<lparr>io_trace := io_trace ?m @ es\<rparr>)"
    "tx_ready dev \<longrightarrow> snd (console (io_trace m @ es)) = console_text m @ tick_line (g_ticks m + 1)"
    using prints_run [OF p up] by auto
  then show ?thesis using True
    by (intro exI [of _ es]) (simp add: timer_on_irq0_def timer_ticks_def console_up_def)
next
  case False
  with assms show ?thesis
    by (intro exI [of _ "[]"]) (simp add: timer_on_irq0_def timer_ticks_def console_up_def tick_line_def)
qed

text \<open>What the handler of interrupt line \<open>irq\<close> prints when the counter stands at \<open>g\<close>.\<close>

definition irq_line :: "u8 \<Rightarrow> u64 \<Rightarrow> string" where
  "irq_line irq g = (if irq = 0 then tick_line (g + 1)
     else ''[M5] unexpected irq='' @ dec_text (ucast irq) @ [CHR 0x0D, CHR 0x0A])"

lemma handle_irq_run:
  assumes "console_up m"
  shows "\<exists>es. run_state (handle_irq dev irq) m =
      ((), m\<lparr>io_trace := io_trace m @ es, g_ticks := g_ticks m + (if irq = 0 then 1 else 0)\<rparr>) \<and> serial_only es \<and>
    console_up (m\<lparr>io_trace := io_trace m @ es\<rparr>) \<and>
    (tx_ready dev \<longrightarrow> snd (console (io_trace m @ es)) = console_text m @ irq_line irq (g_ticks m))"
proof (cases "irq = 0")
  case True
  then show ?thesis using timer_run [OF assms, of dev] by (simp add: handle_irq_def irq_line_def)
next
  case False
  let ?c = "do {
       log_write dev (Some ''[M5] unexpected irq='');
       log_dec64 dev (ucast irq);
       log_writeln dev (Some '''') }"
  have "prints dev (?c :: ('a cpu_scheme, unit) state) (irq_line irq (g_ticks m))"
    by (rule prints_text, (rule prints_seq prints; (simp; fail)?)+) (simp add: irq_line_def False)
  from prints_run [OF this assms] obtain es where "run_state ?c m = ((), m\<lparr>io_trace := io_trace m @ es\<rparr>)" "serial_only es"
    "console_up (m\<lparr>io_trace := io_trace m @ es\<rparr>)"
    "tx_ready dev \<longrightarrow> snd (console (io_trace m @ es)) = console_text m @ irq_line irq (g_ticks m)"
    by auto
  with False show ?thesis by (intro exI [of _ es]) (simp add: handle_irq_def)
qed

definition is_irq :: "x86_64_trap_frame \<Rightarrow> bool" where
  "is_irq frame \<longleftrightarrow> 32 \<le> tf_vector frame \<and> tf_vector frame < 48"

definition eoi_events :: "u64 \<Rightarrow> io_event list" where
  "eoi_events v = (if 40 \<le> v then [Out PIC2_COMMAND PIC_EOI] else []) @ [Out PIC1_COMMAND PIC_EOI]"

lemma irq_of_vector:
  assumes "is_irq frame"
  shows "unat (ucast (tf_vector frame - 32) :: u8) = unat (tf_vector frame) - 32"
proof -
  have v: "32 \<le> unat (tf_vector frame)" "unat (tf_vector frame) < 48"
    using assms by (auto simp: is_irq_def word_le_nat_alt word_less_nat_alt)
  then have "unat (tf_vector frame - 32) = unat (tf_vector frame) - 32"
    using assms by (simp add: is_irq_def unat_sub)
  with v show ?thesis by (simp add: unsigned_ucast_eq take_bit_nat_eq_self)
qed

lemma irq_facts:
  assumes "is_irq frame"
  shows "(ucast (tf_vector frame - 32) :: u8) = 0 \<longleftrightarrow> tf_vector frame = 32"
    "8 \<le> (ucast (tf_vector frame - 32) :: u8) \<longleftrightarrow> 40 \<le> tf_vector frame"
proof -
  have v: "32 \<le> unat (tf_vector frame)" using assms by (auto simp: is_irq_def word_le_nat_alt)
  note u = irq_of_vector [OF assms]
  show "(ucast (tf_vector frame - 32) :: u8) = 0 \<longleftrightarrow> tf_vector frame = 32"
    using v u unsigned_eq_0_iff [of "ucast (tf_vector frame - 32) :: u8", where ?'a = nat]
    by (auto simp: word_unat_eq_iff)
  show "8 \<le> (ucast (tf_vector frame - 32) :: u8) \<longleftrightarrow> 40 \<le> tf_vector frame"
    using u v by (simp add: word_le_nat_alt) arith
qed

text \<open>An interrupt request is reported or counted, and acknowledged last.\<close>

lemma dispatch_irq:
  assumes "console_up m" "is_irq frame"
  shows "\<exists>es. run_state (x86_64_trap_dispatch dev (Some frame)) m = (Returns,
      m\<lparr>io_trace := io_trace m @ es @ eoi_events (tf_vector frame), trap_count := trap_count m + 1,
        g_ticks := g_ticks m + (if tf_vector frame = 32 then 1 else 0)\<rparr>) \<and> serial_only es \<and>
    console_up (m\<lparr>io_trace := io_trace m @ es @ eoi_events (tf_vector frame)\<rparr>) \<and>
    (tx_ready dev \<longrightarrow> snd (console (io_trace m @ es @ eoi_events (tf_vector frame))) =
       console_text m @ irq_line (ucast (tf_vector frame - 32)) (g_ticks m))"
proof -
  let ?irq = "ucast (tf_vector frame - 32) :: u8"
  let ?m = "m\<lparr>trap_count := trap_count m + 1\<rparr>"
  have up: "console_up ?m" using assms(1) by (simp add: console_up_def)
  obtain es where es: "run_state (handle_irq dev ?irq) ?m = ((), ?m\<lparr>io_trace := io_trace ?m @ es,
      g_ticks := g_ticks ?m + (if tf_vector frame = 32 then 1 else 0)\<rparr>)" "serial_only es"
    "console_up (m\<lparr>io_trace := io_trace m @ es\<rparr>)"
    "tx_ready dev \<longrightarrow> snd (console (io_trace m @ es)) = console_text m @ irq_line ?irq (g_ticks m)"
    using handle_irq_run [OF up, of dev ?irq] irq_facts(1) [OF assms(2)] by (auto simp: console_up_def)
  have con: "console (io_trace m @ es @ eoi_events v) = console (io_trace m @ es)" for v
    unfolding append_assoc [symmetric] console_def foldl_append [of _ _ "io_trace m @ es"] eoi_events_def
    by (cases "foldl uart_step (False, []) (io_trace m @ es)") simp
  have "run_state (pic_send_eoi ?irq) n = ((), n\<lparr>io_trace := io_trace n @ eoi_events (tf_vector frame)\<rparr>)"
    for n :: "'a cpu_scheme"
    using irq_facts(2) [OF assms(2)] by (simp add: pic_send_eoi_def outb_def eoi_events_def)
  with es assms(2) con show ?thesis
    by (intro exI [of _ es])
      (simp add: x86_64_trap_dispatch_def is_irq_def Let_def console_up_def split del: if_split)
qed

text \<open>An exception is reported; only the breakpoint returns.\<close>

text \<open>What an exception leaves on the console, \<open>flags\<close> being the flags register in the handler.\<close>

definition exception_text :: "x86_64_trap_frame \<Rightarrow> u64 \<Rightarrow> string" where
  "exception_text frame flags = trap_text frame @
     (if tf_vector frame = 3 then text_line ''[M5] breakpoint handled; returning''
      else panic_text ''kernel/core/trap.c'' 69 ''unrecoverable CPU exception'' (tf_vector frame) flags)"

lemma dispatch_exception:
  assumes "console_up m" "\<not> is_irq frame"
  shows "\<exists>es. run_state (x86_64_trap_dispatch dev (Some frame)) m =
     (if tf_vector frame = 3 then Returns else Halts,
      m\<lparr>io_trace := io_trace m @ es, trap_count := trap_count m + 1,
        rflags := (if tf_vector frame = 3 then rflags m else rflags m AND NOT 0x200)\<rparr>) \<and> serial_only es \<and>
    (tx_ready dev \<longrightarrow> snd (console (io_trace m @ es)) = console_text m @ exception_text frame (rflags m))"
proof -
  let ?m = "m\<lparr>trap_count := trap_count m + 1\<rparr>"
  have "console_up ?m" using assms(1) by (simp add: console_up_def)
  then obtain es where es: "run_state (report_trap dev frame) ?m = ((), ?m\<lparr>io_trace := io_trace ?m @ es\<rparr>)"
    "serial_only es" "console_up (?m\<lparr>io_trace := io_trace ?m @ es\<rparr>)"
    "tx_ready dev \<longrightarrow> snd (console (io_trace m @ es)) = console_text m @ trap_text frame"
    using prints_run [OF prints_report_trap [of dev frame], of ?m] by auto
  let ?m1 = "?m\<lparr>io_trace := io_trace ?m @ es\<rparr>"
  show ?thesis
  proof (cases "tf_vector frame = 3")
    case True
    obtain fs where "run_state (log_writeln dev (Some ''[M5] breakpoint handled; returning'')) ?m1 =
        ((), ?m1\<lparr>io_trace := io_trace ?m1 @ fs\<rparr>)" "serial_only fs"
      "tx_ready dev \<longrightarrow> snd (console (io_trace ?m1 @ fs)) = console_text ?m1 @ text_line ''[M5] breakpoint handled; returning''"
      using prints_run [OF prints_log_writeln es(3), of "''[M5] breakpoint handled; returning''"] by (auto simp: text_line_def)
    then show ?thesis using True es
      by (intro exI [of _ "es @ fs"]) (auto simp: x86_64_trap_dispatch_def exception_text_def)
  next
    case False
    obtain gs where "run_state (kernel_panic_at dev (Some ''kernel/core/trap.c'') 69
        (Some ''unrecoverable CPU exception'') (tf_vector frame)) ?m1 =
        (Halts, ?m1\<lparr>io_trace := io_trace ?m1 @ gs, rflags := rflags ?m1 AND NOT 0x200\<rparr>)" "serial_only gs"
      "tx_ready dev \<longrightarrow> snd (console (io_trace ?m1 @ gs)) = console_text ?m1 @
         panic_text ''kernel/core/trap.c'' 69 ''unrecoverable CPU exception'' (tf_vector frame) (rflags m)"
      using kernel_panic_run [OF es(3), of "''kernel/core/trap.c''" "''unrecoverable CPU exception''"
          dev 69 "tf_vector frame"] by auto
    then show ?thesis using False assms(2) es
      by (intro exI [of _ "es @ gs"]) (auto simp: x86_64_trap_dispatch_def is_irq_def exception_text_def)
  qed
qed

section \<open>Descriptor table and controllers\<close>

text \<open>The address the processor jumps to for a gate.\<close>

definition gate_handler :: "idt_entry \<Rightarrow> u64" where
  "gate_handler e =
     ucast (offset_low e) OR push_bit 16 (ucast (offset_mid e)) OR push_bit 32 (ucast (offset_high e))"

definition gate_for :: "u64 \<Rightarrow> u8 \<Rightarrow> idt_entry \<Rightarrow> bool" where
  "gate_for handler attributes e \<longleftrightarrow> gate_handler e = handler \<and> type_attributes e = attributes \<and>
     selector e = X86_64_KERNEL_CODE_SELECTOR \<and> ist e = 0 \<and> reserved e = 0"

lemma split_join_64:
  fixes h :: u64
  shows "ucast (ucast (h AND 0xFFFF) :: u16) OR push_bit 16 (ucast (ucast (drop_bit 16 h AND 0xFFFF) :: u16)) OR
    push_bit 32 (ucast (ucast (drop_bit 32 h AND 0xFFFFFFFF) :: u32)) = h"
proof -
  have m: "(0xFFFF :: u64) = mask 16" "(0xFFFFFFFF :: u64) = mask 32" by (simp_all add: mask_eq_exp_minus_1)
  show ?thesis unfolding m
  proof (rule bit_word_eqI, goal_cases)
    case (1 n)
    then show ?case by (cases "n < 16"; cases "n < 32") (auto simp: bit_simps)
  qed
qed

lemma set_gate_for:
  assumes "unat v < length tab"
  shows "\<exists>e. x86_64_idt_set_gate tab v handler attributes = Some (tab[unat v := e]) \<and> gate_for handler attributes e"
  unfolding x86_64_idt_set_gate_def wr_Some [OF assms] gate_for_def gate_handler_def
  by (intro exI conjI, rule refl) (simp_all add: split_join_64)

lemma unat_of_nat_8: "k < 256 \<Longrightarrow> unat (of_nat k :: u8) = k"
  by (simp add: unat_of_nat)

lemma idt_fill_exact:
  assumes "length tab = 256" "length stubs = 48"
  shows "\<exists>t. idt_fill stubs tab = Some t \<and> length t = 256 \<and>
    (\<forall>v<48. gate_for (stubs ! v) (if v = 3 then X86_64_IDT_GATE_TRAP else X86_64_IDT_GATE_INTERRUPT) (t ! v)) \<and>
    (\<forall>v. 48 \<le> v \<and> v < 256 \<longrightarrow> gate_for 0 0 (t ! v))"
proof -
  let ?I = "\<lambda>k t. length t = 256 \<and> (\<forall>v<k. gate_for 0 0 (t ! v))"
  have "\<exists>t. for_up (\<lambda>i t. x86_64_idt_set_gate t (of_nat i) 0 0) 256 0 tab = Some t \<and> ?I (0 + 256) t"
  proof (rule for_up_rule [where I = ?I])
    fix k t assume k: "k < 0 + 256" and t: "?I k t"
    then obtain e where "x86_64_idt_set_gate t (of_nat k) 0 0 = Some (t[k := e])" "gate_for 0 0 e"
      using set_gate_for [of "of_nat k" t 0 0] unat_of_nat_8 [of k] by auto
    with k t show "\<exists>t'. x86_64_idt_set_gate t (of_nat k) 0 0 = Some t' \<and> ?I (Suc k) t'"
      by (auto simp: nth_list_update less_Suc_eq)
  qed (use assms in auto)
  then obtain t0 where t0: "for_up (\<lambda>i t. x86_64_idt_set_gate t (of_nat i) 0 0) 256 0 tab = Some t0"
    "length t0 = 256" "\<forall>v<256. gate_for 0 0 (t0 ! v)" by auto
  let ?ty = "\<lambda>v :: nat. if v = 3 then X86_64_IDT_GATE_TRAP else X86_64_IDT_GATE_INTERRUPT"
  let ?J = "\<lambda>k t. length t = 256 \<and> (\<forall>v<k. gate_for (stubs ! v) (?ty v) (t ! v)) \<and>
      (\<forall>v. k \<le> v \<and> v < 256 \<longrightarrow> gate_for 0 0 (t ! v))"
  let ?body = "\<lambda>v t. do { stub \<leftarrow> rd stubs v; x86_64_idt_set_gate t (of_nat v) stub (?ty v) }"
  have "\<exists>t. for_up ?body 48 0 t0 = Some t \<and> ?J (0 + 48) t"
  proof (rule for_up_rule [where I = ?J])
    fix k t assume k: "k < 0 + 48" and t: "?J k t"
    then obtain e where "x86_64_idt_set_gate t (of_nat k) (stubs ! k) (?ty k) = Some (t[k := e])"
      "gate_for (stubs ! k) (?ty k) e"
      using set_gate_for [of "of_nat k" t "stubs ! k" "?ty k"] unat_of_nat_8 [of k] by auto
    with k t assms(2) show "\<exists>t'. ?body k t = Some t' \<and> ?J (Suc k) t'"
      by (auto simp: nth_list_update less_Suc_eq)
  qed (use t0 in auto)
  with t0(1) show ?thesis by (simp add: idt_fill_def)
qed

text \<open>
  A port-programmed 8259 in cascade mode: a command with bit 4 set starts the initialisation, the
  next three data writes are its parameters (the first one is the vector of line 0), and later
  data writes set the mask. The state is the number of parameters left, the vector and the mask.
\<close>

fun pic_step :: "u16 \<Rightarrow> nat \<times> u8 \<times> u8 \<Rightarrow> io_event \<Rightarrow> nat \<times> u8 \<times> u8" where
  "pic_step cmd (k, base, imr) (Out p v) =
     (if p = cmd then (if bit v 4 then (3, base, 0) else (k, base, imr))
      else if p = cmd + 1 then
        (if k = 0 then (0, base, v) else if k = 3 then (2, v, imr) else (k - 1, base, imr))
      else (k, base, imr))"
| "pic_step cmd (k, base, imr) (In p v) = (k, base, imr)"

definition pic_state :: "u16 \<Rightarrow> nat \<times> u8 \<times> u8 \<Rightarrow> io_event list \<Rightarrow> nat \<times> u8 \<times> u8" where
  "pic_state cmd s tr = foldl (pic_step cmd) s tr"

definition imr_reads :: "device \<Rightarrow> nat \<times> u8 \<times> u8 \<Rightarrow> bool" where
  "imr_reads dev s \<longleftrightarrow> (\<forall>tr. dev tr PIC1_DATA = snd (snd (pic_state PIC1_COMMAND s tr)))"

lemma pic_state_append: "pic_state cmd s (tr @ es) = pic_state cmd (pic_state cmd s tr) es"
  by (simp add: pic_state_def)

definition pic_setup :: "device \<Rightarrow> ('r machine_scheme, unit) state" where
  "pic_setup dev = do {
     pic_remap dev PIC_MASTER_OFFSET PIC_SLAVE_OFFSET;
     pic_mask_all;
     pic_unmask_irq dev 0
   }"

lemma pic_setup_exact:
  assumes "imr_reads dev s1" "m' = snd (run_state (pic_setup dev) m)"
  shows "pic_state PIC1_COMMAND s1 (io_trace m') = (0, 0x20, 0xFE) \<and>
    pic_state PIC2_COMMAND s2 (io_trace m') = (0, 0x28, 0xFF) \<and> (\<exists>es. m' = m\<lparr>io_trace := io_trace m @ es\<rparr> \<and>
      (\<forall>e\<in>set es. event_port e \<in> {PIC1_COMMAND, PIC1_DATA, PIC2_COMMAND, PIC2_DATA, 0x80}))"
proof -
  have r: "dev tr PIC1_DATA = snd (snd (pic_state PIC1_COMMAND s1 tr))" for tr
    using assms(1) by (simp add: imr_reads_def)
  obtain k b i where p1: "pic_state PIC1_COMMAND s1 (io_trace m) = (k, b, i)" by (metis prod_cases3)
  obtain k' b' i' where p2: "pic_state PIC2_COMMAND s2 (io_trace m) = (k', b', i')" by (metis prod_cases3)
  note defs = pic_setup_def pic_remap_def pic_mask_all_def pic_unmask_irq_def inb_def outb_def io_wait_def Let_def
  have "\<exists>es. m' = m\<lparr>io_trace := io_trace m @ es\<rparr> \<and>
      (\<forall>e\<in>set es. event_port e \<in> {PIC1_COMMAND, PIC1_DATA, PIC2_COMMAND, PIC2_DATA, 0x80})"
    unfolding assms(2) by (simp add: defs) (rule exI, rule conjI, rule refl, simp)
  then show ?thesis
    unfolding assms(2)
    by (simp add: defs pic_state_append r p1 p2) (simp add: pic_state_def bit_simps)
qed

definition idt_text :: "u64 \<Rightarrow> string" where
  "idt_text addr = hex_line ''idt_base'' addr @ hex_line ''idt_limit'' 4095 @ text_line ''[M4] IDT loaded''"

lemma idt_load_run:
  assumes "console_up m" and t: "idt_fill stubs (idt m) = Some t"
  shows "\<exists>es. x86_64_idt_init dev addr stubs m = Some (Returns,
      m\<lparr>io_trace := io_trace m @ es, idt := t, idtr_limit := 4095, idtr_base := addr,
        loaded_idtr := Some (4095, addr)\<rparr>) \<and> serial_only es \<and>
    console_up (m\<lparr>io_trace := io_trace m @ es\<rparr>) \<and>
    (tx_ready dev \<longrightarrow> snd (console (io_trace m @ es)) = console_text m @ idt_text addr)"
proof -
  let ?m = "m\<lparr>idt := t, idtr_limit := 4095, idtr_base := addr, loaded_idtr := Some (4095, addr)\<rparr>"
  let ?c = "do {
       log_key_value_hex64 dev (Some ''idt_base'') addr;
       log_key_value_hex64 dev (Some ''idt_limit'') (ucast (4095 :: u16));
       log_writeln dev (Some ''[M4] IDT loaded'') }"
  have "prints dev (?c :: ('a cpu_scheme, unit) state) (idt_text addr)"
    by (rule prints_text, (rule prints_seq prints; (simp; fail)?)+) (simp add: idt_text_def hex_line_def text_line_def)
  moreover have "console_up ?m" using assms(1) by (simp add: console_up_def)
  ultimately obtain es where es: "run_state ?c ?m = ((), ?m\<lparr>io_trace := io_trace ?m @ es\<rparr>)" "serial_only es"
    "console_up (?m\<lparr>io_trace := io_trace ?m @ es\<rparr>)"
    "tx_ready dev \<longrightarrow> console_text (?m\<lparr>io_trace := io_trace ?m @ es\<rparr>) = console_text ?m @ idt_text addr"
    using prints_run by blast
  have "run_state (do { log_key_value_hex64 dev (Some ''idt_base'') addr;
       log_key_value_hex64 dev (Some ''idt_limit'') (ucast (4095 :: u16));
       log_writeln dev (Some ''[M4] IDT loaded'');
       State_Monad.return Returns }) ?m = (Returns, ?m\<lparr>io_trace := io_trace ?m @ es\<rparr>)"
    using es(1) by (auto simp: case_prod_unfold prod_eq_iff)
  with t es(2-4) show ?thesis
    by (intro exI [of _ es])
      (simp add: x86_64_idt_init_def kernel_assert_def lidt_def console_up_def Let_def)
qed

lemma idt_init_run:
  assumes "console_up m" "length (idt m) = 256" "length stubs = 48"
  shows "\<exists>t es. x86_64_idt_init dev addr stubs m = Some (Returns,
      m\<lparr>io_trace := io_trace m @ es, idt := t, idtr_limit := 4095, idtr_base := addr,
        loaded_idtr := Some (4095, addr)\<rparr>) \<and> serial_only es \<and>
    console_up (m\<lparr>io_trace := io_trace m @ es\<rparr>) \<and> idt_fill stubs (idt m) = Some t"
  using idt_fill_exact [OF assms(2,3)] idt_load_run [OF assms(1)] by blast

lemma console_other_ports:
  assumes "\<forall>e\<in>set es. event_port e \<noteq> COM1_PORT \<and> event_port e \<noteq> COM1_PORT + 3"
  shows "foldl uart_step s es = s"
  using assms
proof (induction es arbitrary: s)
  case (Cons e es)
  then have "uart_step s e = s" by (cases e; cases s) auto
  with Cons show ?case by simp
qed simp

section \<open>Properties\<close>

text \<open>
  C40. The trap handler: every trap is counted. An interrupt request (vectors 32 to 47) always returns, leaves
  the interrupt flag alone, advances the tick counter exactly for vector 32, and its last
  port accesses are the end-of-interrupt commands, to the second controller first for the lines 8
  to 15; before them only the serial port is used. Any other trap touches only the serial port;
  the breakpoint returns, and all others halt with interrupts disabled.
\<close>

theorem trap_dispatch_exact:
  assumes "console_up m" "run_state (x86_64_trap_dispatch dev (Some frame)) m = (r, m')"
  shows "trap_count m' = trap_count m + 1 \<and>
    (is_irq frame \<longrightarrow> r = Returns \<and> console_up m' \<and> rflags m' = rflags m \<and>
       g_ticks m' = g_ticks m + (if tf_vector frame = 32 then 1 else 0) \<and>
       (\<exists>es. serial_only es \<and> io_trace m' = io_trace m @ es @
          (if 40 \<le> tf_vector frame then [Out PIC2_COMMAND PIC_EOI] else []) @ [Out PIC1_COMMAND PIC_EOI])) \<and>
    (\<not> is_irq frame \<longrightarrow> (r = Returns \<longleftrightarrow> tf_vector frame = 3) \<and> g_ticks m' = g_ticks m \<and>
       (r = Halts \<longrightarrow> \<not> bit (rflags m') 9) \<and> (\<exists>es. serial_only es \<and> io_trace m' = io_trace m @ es))"
proof (cases "is_irq frame")
  case True
  with dispatch_irq [OF assms(1) True, of dev] assms(2) show ?thesis
    by (auto simp: eoi_events_def console_up_def split del: if_split)
next
  case False
  have "\<not> bit (x AND NOT 0x200 :: u64) 9" for x by (simp add: bit_simps)
  with False dispatch_exception [OF assms(1) False, of dev] assms(2) show ?thesis
    by (auto split: if_splits)
qed

definition null_gate :: idt_entry where
  "null_gate = \<lparr>offset_low = 0, selector = 0, ist = 0, type_attributes = 0, offset_mid = 0, offset_high = 0,
     reserved = 0\<rparr>"

definition quiet_cpu :: cpu where
  "quiet_cpu = \<lparr>io_trace = [], g_log_ready = True, rflags = 0x202, idt = replicate 256 null_gate,
     idtr_limit = 0, idtr_base = 0, loaded_idtr = None, g_ticks = 99, trap_count = 0\<rparr>"

definition frame_of :: "u64 \<Rightarrow> x86_64_trap_frame" where
  "frame_of v = \<lparr>r15 = 0, r14 = 0, r13 = 0, r12 = 0, r11 = 0, r10 = 0, r9 = 0, r8 = 0, rsi = 0, rdi = 0,
     rbp = 0, rdx = 0, rcx = 0, rbx = 0, rax = 0, tf_vector = v, error_code = 0, rip = 0x100000, cs = 0x28,
     tf_rflags = 0x202\<rparr>"

lemma quiet_cpu_start: "g_ticks quiet_cpu = 99" "console_text quiet_cpu = []"
  by (simp_all add: quiet_cpu_def console_def)

lemma quiet_cpu_up: "console_up quiet_cpu"
  by (simp add: quiet_cpu_def console_up_def console_def)

theorem trap_dispatch_exact_witness:
  "(\<exists>m'. run_state (x86_64_trap_dispatch (\<lambda>tr p. 0x20) (Some (frame_of 44))) quiet_cpu = (Returns, m') \<and>
     last (io_trace m') = Out PIC1_COMMAND PIC_EOI) \<and>
   fst (run_state (x86_64_trap_dispatch (\<lambda>tr p. 0x20) (Some (frame_of 14))) quiet_cpu) = Halts"
proof -
  obtain r m' where r: "run_state (x86_64_trap_dispatch (\<lambda>tr p. 0x20) (Some (frame_of 44))) quiet_cpu = (r, m')"
    by fastforce
  obtain q n' where q: "run_state (x86_64_trap_dispatch (\<lambda>tr p. 0x20) (Some (frame_of 14))) quiet_cpu = (q, n')"
    by fastforce
  have "q = Halts" using trap_dispatch_exact [OF quiet_cpu_up q]
    by (cases q) (auto simp: is_irq_def frame_of_def)
  then show ?thesis using trap_dispatch_exact [OF quiet_cpu_up r] r q
    by (auto simp: is_irq_def frame_of_def)
qed

text \<open>A run of \<open>n\<close> timer interrupts.\<close>

primrec timer_irqs :: "device \<Rightarrow> (nat \<Rightarrow> x86_64_trap_frame) \<Rightarrow> nat \<Rightarrow> ('r cpu_scheme, unit) state" where
  "timer_irqs dev fr 0 = State_Monad.return ()"
| "timer_irqs dev fr (Suc n) = do { timer_irqs dev fr n; x86_64_trap_dispatch dev (Some (fr n)); State_Monad.return () }"

lemma eoi_count_serial: "serial_only es \<Longrightarrow> count_list es (Out PIC1_COMMAND PIC_EOI) = 0"
  by (auto simp: count_list_0_iff)

text \<open>
  Timekeeping: after any number of timer interrupts the tick counter has advanced by that
  number modulo 2^64, as many end-of-interrupt commands were sent, and, when the transmitter is
  ready, the console shows one line for each tick divisible by 100, in order, and nothing else.
\<close>

lemma timer_history_exact:
  assumes "console_up m" "\<forall>i<n. tf_vector (fr i) = 32" "m' = snd (run_state (timer_irqs dev fr n) m)"
  shows "g_ticks m' = g_ticks m + of_nat n \<and> console_up m' \<and>
    count_list (io_trace m') (Out PIC1_COMMAND PIC_EOI) = count_list (io_trace m) (Out PIC1_COMMAND PIC_EOI) + n \<and>
    (tx_ready dev \<longrightarrow>
       console_text m' = console_text m @ concat (map (\<lambda>i. tick_line (g_ticks m + of_nat i)) [1..<Suc n]))"
  using assms(2,3)
proof (induction n arbitrary: m')
  case (Suc n)
  let ?n = "snd (run_state (timer_irqs dev fr n) m)"
  have IH: "g_ticks ?n = g_ticks m + of_nat n" "console_up ?n"
    "count_list (io_trace ?n) (Out PIC1_COMMAND PIC_EOI) = count_list (io_trace m) (Out PIC1_COMMAND PIC_EOI) + n"
    "tx_ready dev \<Longrightarrow>
       console_text ?n = console_text m @ concat (map (\<lambda>i. tick_line (g_ticks m + of_nat i)) [1..<Suc n])"
    using Suc.IH Suc.prems(1) by auto
  have irq: "is_irq (fr n)" "tf_vector (fr n) = 32" using Suc.prems(1) by (auto simp: is_irq_def)
  obtain es where es: "snd (run_state (x86_64_trap_dispatch dev (Some (fr n))) ?n) =
      ?n\<lparr>io_trace := io_trace ?n @ es @ eoi_events 32, trap_count := trap_count ?n + 1, g_ticks := g_ticks ?n + 1\<rparr>"
    "serial_only es" "console_up (?n\<lparr>io_trace := io_trace ?n @ es @ eoi_events 32\<rparr>)"
    "tx_ready dev \<longrightarrow> snd (console (io_trace ?n @ es @ eoi_events 32)) = console_text ?n @ tick_line (g_ticks ?n + 1)"
    using dispatch_irq [OF IH(2) irq(1), of dev] irq(2) by (auto simp: irq_line_def)
  have m': "m' = ?n\<lparr>io_trace := io_trace ?n @ es @ eoi_events 32, trap_count := trap_count ?n + 1,
      g_ticks := g_ticks ?n + 1\<rparr>"
    using es(1) Suc.prems(2) by (simp add: case_prod_unfold)
  have "count_list (io_trace m') (Out PIC1_COMMAND PIC_EOI) = count_list (io_trace m) (Out PIC1_COMMAND PIC_EOI) + Suc n"
    unfolding m' using IH(3) eoi_count_serial [OF es(2)] by (simp add: eoi_events_def)
  moreover have "console_up m'" using es(3) unfolding m' by (simp add: console_up_def)
  moreover have "g_ticks m' = g_ticks m + of_nat (Suc n)" unfolding m' using IH(1) by simp
  moreover have "tx_ready dev \<Longrightarrow>
      console_text m' = console_text m @ concat (map (\<lambda>i. tick_line (g_ticks m + of_nat i)) [1..<Suc (Suc n)])"
    unfolding m' using IH(1,4) es(4) by (simp add: add.commute add.left_commute)
  ultimately show ?case by blast
qed (use assms(1) in simp)

lemma timer_history_exact_example:
  "console_text (snd (run_state (timer_irqs (\<lambda>tr p. 0x20) (\<lambda>_. frame_of 32) 2) quiet_cpu)) =
     ''[MCSOS:TIMER] ticks=100'' @ [CHR 0x0D, CHR 0x0A]"
proof -
  have "tx_ready (\<lambda>tr p. 0x20)" by (simp add: tx_ready_def)
  moreover have "tf_vector (frame_of 32) = 32" by (simp add: frame_of_def)
  moreover have "[1..<Suc 2] = [1, 2]" by (simp add: upt_rec)
  moreover have "dec_loop (Suc k) v = (if v = 0 then [] else char_of (48 + unat (v mod 10)) # dec_loop k (v div 10))"
    for k and v :: u64 by simp
  from this [of 19] this [of 18] this [of 17] this [of 16]
  have "tick_line 100 = ''[MCSOS:TIMER] ticks=100'' @ [CHR 0x0D, CHR 0x0A]"
    by (simp add: tick_line_def dec_text_def char_of_def bit_0)
  moreover have "tick_line 101 = []" by (simp add: tick_line_def)
  ultimately show ?thesis
    using timer_history_exact [OF quiet_cpu_up _ refl, of 2 "\<lambda>_. frame_of 32" "\<lambda>tr p. 0x20"] quiet_cpu_start
    by simp
qed

end
