(* ===== verification/Isr.thy ===== *)
theory Isr
  imports Interrupts
begin

text \<open>
  The assembly of the kernel: the interrupt stubs of \<open>src/kernel/arch/x86_64/isr.S\<close>, the system call
  stub \<open>syscall_entry.S\<close>, \<open>context_switch.S\<close> and \<open>src/kernel/core/start.S\<close>, together with what the processor does on
  an interrupt. The stubs build the trap frame that \<open>x86_64_trap_dispatch\<close> reads, so this theory shows that the
  two agree on its layout for every vector, and that the interrupted code does not notice.

  The stack is memory of 8-byte words by address. A word access off an 8-byte boundary and a call into C with a
  stack pointer off a 16-byte boundary have no defined result. A C function keeps the callee-saved
  registers and the memory from the stack pointer upwards; what it leaves in the other
  registers and below the stack pointer is a parameter.
\<close>

section \<open>Model\<close>

datatype reg = RAX | RBX | RCX | RDX | RBP | RDI | RSI | R8 | R9 | R10 | R11 | R12 | R13 | R14 | R15

record core =
  gpr :: "reg \<Rightarrow> u64"
  rsp :: u64
  qmem :: "u64 \<Rightarrow> u64"
  ctx_ip :: u64
  ctx_cs :: u64
  ctx_ss :: u64

record callee =
  left_gpr :: "reg \<Rightarrow> u64"
  left_mem :: "u64 \<Rightarrow> u64"

datatype instr =
    Pushq reg
  | Pushq_imm u64
  | Popq reg
  | Movq_rsp reg
  | Addq_rsp u64
  | Call_trap_dispatch
  | Iretq
  | Ret
  | Cli
  | Hlt_loop

definition aligned :: "nat \<Rightarrow> u64 \<Rightarrow> bool" where
  "aligned n a \<longleftrightarrow> unat a mod n = 0"

definition push :: "u64 \<Rightarrow> core \<Rightarrow> core option" where
  "push v x = (let a = rsp x - 8 in
     if aligned 8 a then Some (x\<lparr>rsp := a, qmem := (qmem x)(a := v)\<rparr>) else None)"

definition pop :: "core \<Rightarrow> (u64 \<times> core) option" where
  "pop x = (if aligned 8 (rsp x) then Some (qmem x (rsp x), x\<lparr>rsp := rsp x + 8\<rparr>) else None)"

text \<open>The trap frame that a C function sees behind a pointer: the packed struct, field by field.\<close>

definition frame_at :: "core \<Rightarrow> u64 \<Rightarrow> x86_64_trap_frame" where
  "frame_at x p = \<lparr>r15 = qmem x p, r14 = qmem x (p + 8), r13 = qmem x (p + 16), r12 = qmem x (p + 24),
     r11 = qmem x (p + 32), r10 = qmem x (p + 40), r9 = qmem x (p + 48), r8 = qmem x (p + 56), rsi = qmem x (p + 64),
     rdi = qmem x (p + 72), rbp = qmem x (p + 80), rdx = qmem x (p + 88), rcx = qmem x (p + 96), rbx = qmem x (p + 104),
     rax = qmem x (p + 112), tf_vector = qmem x (p + 120), error_code = qmem x (p + 128), rip = qmem x (p + 136),
     cs = qmem x (p + 144), tf_rflags = qmem x (p + 152)\<rparr>"

definition callee_saved :: "reg \<Rightarrow> bool" where
  "callee_saved r \<longleftrightarrow> r \<in> {RBX, RBP, R12, R13, R14, R15}"

definition c_returns :: "callee \<Rightarrow> core \<Rightarrow> core" where
  "c_returns l x = x\<lparr>gpr := (\<lambda>r. if callee_saved r then gpr x r else left_gpr l r),
     qmem := (\<lambda>a. if rsp x \<le> a then qmem x a else left_mem l a)\<rparr>"

fun exec :: "device \<Rightarrow> callee \<Rightarrow> instr \<Rightarrow> core \<times> 'r cpu_scheme \<Rightarrow> (control \<times> core \<times> 'r cpu_scheme) option" where
  "exec dev l (Pushq r) (x, c) = do { x' \<leftarrow> push (gpr x r) x; Some (Returns, x', c) }"
| "exec dev l (Pushq_imm v) (x, c) = do { x' \<leftarrow> push v x; Some (Returns, x', c) }"
| "exec dev l (Popq r) (x, c) = do { (v, x') \<leftarrow> pop x; Some (Returns, x'\<lparr>gpr := (gpr x')(r := v)\<rparr>, c) }"
| "exec dev l (Movq_rsp r) (x, c) = Some (Returns, x\<lparr>gpr := (gpr x)(r := rsp x)\<rparr>, c)"
| "exec dev l (Addq_rsp n) (x, c) = Some (Returns, x\<lparr>rsp := rsp x + n\<rparr>, c)"
| "exec dev l Call_trap_dispatch (x, c) =
     (if \<not> aligned 16 (rsp x) \<or> \<not> aligned 8 (gpr x RDI) then None
      else let frame = (if gpr x RDI = 0 then None else Some (frame_at x (gpr x RDI)));
               (r, c') = run_state (x86_64_trap_dispatch dev frame) c
           in Some (r, c_returns l x, c'))"
| "exec dev l Iretq (x, c) = do {
     (new_ip, x) \<leftarrow> pop x;
     (new_cs, x) \<leftarrow> pop x;
     (new_flags, x) \<leftarrow> pop x;
     (new_rsp, x) \<leftarrow> pop x;
     (new_ss, x) \<leftarrow> pop x;
     Some (Returns, x\<lparr>ctx_ip := new_ip, ctx_cs := new_cs, rsp := new_rsp, ctx_ss := new_ss\<rparr>, c\<lparr>rflags := new_flags\<rparr>)
   }"
| "exec dev l Ret (x, c) = do { (v, x') \<leftarrow> pop x; Some (Returns, x'\<lparr>ctx_ip := v\<rparr>, c) }"
| "exec dev l Cli (x, c) = Some (Returns, x, snd (run_state cpu_cli c))"
| "exec dev l Hlt_loop (x, c) = Some (Halts, x, c)"

fun exec_all :: "device \<Rightarrow> callee \<Rightarrow> instr list \<Rightarrow> core \<times> 'r cpu_scheme \<Rightarrow> (control \<times> core \<times> 'r cpu_scheme) option" where
  "exec_all dev l [] s = Some (Returns, s)"
| "exec_all dev l (i # is) s = do {
     (r, s') \<leftarrow> exec dev l i s;
     (case r of Returns \<Rightarrow> exec_all dev l is s' | Halts \<Rightarrow> Some (Halts, s')) }"

subsection \<open>The code\<close>

text \<open>The jump to \<open>isr_common\<close> is the code that follows.\<close>

definition isr_common :: "instr list" where
  "isr_common =
     [Pushq RAX, Pushq RBX, Pushq RCX, Pushq RDX, Pushq RBP, Pushq RDI, Pushq RSI, Pushq R8, Pushq R9, Pushq R10,
      Pushq R11, Pushq R12, Pushq R13, Pushq R14, Pushq R15,
      Movq_rsp RDI, Call_trap_dispatch,
      Popq R15, Popq R14, Popq R13, Popq R12, Popq R11, Popq R10, Popq R9, Popq R8, Popq RSI, Popq RDI, Popq RBP,
      Popq RDX, Popq RCX, Popq RBX, Popq RAX,
      Addq_rsp 16, Iretq]"

definition ISR_NOERR :: "u64 \<Rightarrow> instr list" where
  "ISR_NOERR vector = [Pushq_imm 0, Pushq_imm vector] @ isr_common"

definition ISR_ERR :: "u64 \<Rightarrow> instr list" where
  "ISR_ERR vector = [Pushq_imm vector] @ isr_common"

definition isr_stubs :: "instr list list" where
  "isr_stubs =
     [ISR_NOERR 0, ISR_NOERR 1, ISR_NOERR 2, ISR_NOERR 3, ISR_NOERR 4, ISR_NOERR 5, ISR_NOERR 6, ISR_NOERR 7,
      ISR_ERR 8, ISR_NOERR 9, ISR_ERR 10, ISR_ERR 11, ISR_ERR 12, ISR_ERR 13, ISR_ERR 14, ISR_NOERR 15,
      ISR_NOERR 16, ISR_ERR 17, ISR_NOERR 18, ISR_NOERR 19, ISR_NOERR 20, ISR_ERR 21, ISR_NOERR 22, ISR_NOERR 23,
      ISR_NOERR 24, ISR_NOERR 25, ISR_NOERR 26, ISR_NOERR 27, ISR_NOERR 28, ISR_ERR 29, ISR_ERR 30, ISR_NOERR 31,
      ISR_NOERR 32, ISR_NOERR 33, ISR_NOERR 34, ISR_NOERR 35, ISR_NOERR 36, ISR_NOERR 37, ISR_NOERR 38, ISR_NOERR 39,
      ISR_NOERR 40, ISR_NOERR 41, ISR_NOERR 42, ISR_NOERR 43, ISR_NOERR 44, ISR_NOERR 45, ISR_NOERR 46, ISR_NOERR 47]"

definition x86_64_syscall_int80_stub :: "instr list" where
  "x86_64_syscall_int80_stub =
     [Pushq RAX, Pushq RBX, Pushq RCX, Pushq RDX, Pushq RSI, Pushq RDI, Pushq RBP,
      Popq RBP, Popq RDI, Popq RSI, Popq RDX, Popq RCX, Popq RBX, Popq RAX, Iretq]"

definition mcsos_context_switch :: "instr list" where
  "mcsos_context_switch = [Ret]"

definition start_code :: "instr list" where
  "start_code = [Cli, Hlt_loop]"

text \<open>The inline assembly of \<open>mcsos_thread_trampoline\<close> in \<open>core/thread.c\<close>: \<open>hlt\<close> in an endless loop.\<close>

definition mcsos_thread_trampoline :: "instr list" where
  "mcsos_thread_trampoline = [Hlt_loop]"

subsection \<open>Interrupt delivery\<close>

text \<open>
  What the processor does before the first instruction of a stub, in 64-bit mode without a change of
  privilege: the stack is aligned to 16 bytes, the interrupted context is pushed, with an error code
  for the exceptions that have one, the trace, nested task, resume and virtual-8086 flags are cleared, and the interrupt flag for
  an interrupt gate. A gate that is not present raises another exception, which is not followed here.
\<close>

definition has_error_code :: "nat \<Rightarrow> bool" where
  "has_error_code v \<longleftrightarrow> v \<in> {8, 10, 11, 12, 13, 14, 17, 21, 29, 30}"

definition entry_flags :: "u8 \<Rightarrow> u64 \<Rightarrow> u64" where
  "entry_flags attributes flags =
     flags AND NOT (if attributes = X86_64_IDT_GATE_INTERRUPT then 0x34300 else 0x34100)"

definition deliver :: "nat \<Rightarrow> u64 \<Rightarrow> core \<times> 'r cpu_scheme \<Rightarrow> (core \<times> 'r cpu_scheme) option" where
  "deliver v err s = (case s of (x, c) \<Rightarrow> do {
     gate \<leftarrow> rd (idt c) v;
     if \<not> bit (type_attributes gate) 7 then None
     else do {
       y \<leftarrow> push (ctx_ss x) (x\<lparr>rsp := rsp x - rsp x mod 16\<rparr>);
       y \<leftarrow> push (rsp x) y;
       y \<leftarrow> push (rflags c) y;
       y \<leftarrow> push (ctx_cs x) y;
       y \<leftarrow> push (ctx_ip x) y;
       y \<leftarrow> (if has_error_code v then push err y else Some y);
       Some (y\<lparr>ctx_ip := gate_handler gate, ctx_cs := ucast (selector gate)\<rparr>,
         c\<lparr>rflags := entry_flags (type_attributes gate) (rflags c)\<rparr>)
     }
   })"

text \<open>An interrupt: delivery, then the stub at the address in the gate. \<open>stubs\<close> are the addresses of the stubs.\<close>

definition interrupt :: "device \<Rightarrow> callee \<Rightarrow> u64 list \<Rightarrow> nat \<Rightarrow> u64 \<Rightarrow> core \<times> 'r cpu_scheme \<Rightarrow>
    (control \<times> core \<times> 'r cpu_scheme) option" where
  "interrupt dev l stubs v err s = do {
     (x, c) \<leftarrow> deliver v err s;
     code \<leftarrow> map_of (zip stubs isr_stubs) (ctx_ip x);
     exec_all dev l code (x, c)
   }"


text \<open>\<open>int3\<close> raises vector 3; the saved instruction pointer is that of the next instruction.\<close>

definition x86_64_trigger_breakpoint_for_test :: "device \<Rightarrow> callee \<Rightarrow> u64 list \<Rightarrow> core \<times> 'r cpu_scheme \<Rightarrow>
    (control \<times> core \<times> 'r cpu_scheme) option" where
  "x86_64_trigger_breakpoint_for_test dev l stubs s = interrupt dev l stubs 3 0 s"

section \<open>The stack\<close>

text \<open>
  \<open>stack_is T m ws x\<close>: below the address \<open>T\<close> the words \<open>ws\<close> have been pushed, the last one is at the stack
  pointer; from \<open>T\<close> upwards the memory is \<open>m\<close>.
\<close>

definition slot :: "u64 \<Rightarrow> nat \<Rightarrow> u64" where
  "slot T k = T - 8 * of_nat k"

definition stack_is :: "u64 \<Rightarrow> (u64 \<Rightarrow> u64) \<Rightarrow> u64 list \<Rightarrow> core \<Rightarrow> bool" where
  "stack_is T m ws x \<longleftrightarrow> aligned 16 T \<and> 8 * length ws \<le> unat T \<and> rsp x = slot T (length ws) \<and>
     (\<forall>i<length ws. qmem x (slot T (Suc i)) = ws ! i) \<and> (\<forall>a. T \<le> a \<longrightarrow> qmem x a = m a)"

lemma unat_slot:
  assumes "8 * k \<le> unat T"
  shows "unat (slot T k) = unat T - 8 * k"
proof -
  have "8 * k < 2 ^ 64" using assms unat_less_64 [of T] by simp
  then have "unat (8 * of_nat k :: u64) = 8 * k" by (simp add: unat_word_ariths unat_of_nat)
  then show ?thesis using assms by (simp add: slot_def unat_sub word_le_nat_alt)
qed

lemma slot_simps: "slot T k - 8 = slot T (Suc k)" "slot T (Suc k) + 8 = slot T k" "slot T 0 = T"
  by (simp_all add: slot_def algebra_simps)

lemma slot_add: "j \<le> k \<Longrightarrow> slot T k + 8 * of_nat j = slot T (k - j)"
  by (simp add: slot_def of_nat_diff algebra_simps)

lemma slot_eq: "8 * j \<le> unat T \<Longrightarrow> 8 * k \<le> unat T \<Longrightarrow> slot T j = slot T k \<longleftrightarrow> j = k"
  using unat_slot [of j T] unat_slot [of k T] by (auto simp: word_unat_eq_iff)

lemma slot_aligned:
  assumes "aligned 16 T" "8 * k \<le> unat T"
  shows "aligned 8 (slot T k)" "even k \<Longrightarrow> aligned 16 (slot T k)"
  using assms unat_slot [OF assms(2)] by (auto simp: aligned_def elim!: evenE)

lemma stack_push:
  assumes "stack_is T m ws x" "8 * Suc (length ws) \<le> unat T"
  shows "\<exists>x'. push v x = Some x' \<and> stack_is T m (ws @ [v]) x' \<and> gpr x' = gpr x"
proof -
  let ?a = "slot T (Suc (length ws))"
  let ?x = "x\<lparr>rsp := ?a, qmem := (qmem x)(?a := v)\<rparr>"
  have s: "aligned 16 T" "rsp x = slot T (length ws)" "\<forall>i<length ws. qmem x (slot T (Suc i)) = ws ! i"
    "\<forall>a. T \<le> a \<longrightarrow> qmem x a = m a"
    using assms(1) by (auto simp: stack_is_def)
  have "push v x = Some ?x"
    using slot_aligned(1) [OF s(1) assms(2)] s(2) by (simp add: push_def slot_simps Let_def)
  moreover have "qmem ?x (slot T (Suc i)) = (ws @ [v]) ! i" if "i < length (ws @ [v])" for i
    using that s(3) assms(2) by (auto simp: nth_append slot_eq)
  moreover have "?a < T" using unat_slot [OF assms(2)] assms(2) by (simp add: word_less_nat_alt)
  then have "\<forall>a. T \<le> a \<longrightarrow> qmem ?x a = m a" using s(4) by auto
  ultimately show ?thesis using s(1) assms(2) by (intro exI [of _ ?x]) (auto simp: stack_is_def)
qed

lemma stack_pop:
  assumes "stack_is T m (ws @ [v]) x"
  shows "pop x = Some (v, x\<lparr>rsp := rsp x + 8\<rparr>)" "stack_is T m ws (x\<lparr>rsp := rsp x + 8\<rparr>)"
proof -
  have s: "aligned 16 T" "rsp x = slot T (Suc (length ws))" "\<forall>i<Suc (length ws). qmem x (slot T (Suc i)) = (ws @ [v]) ! i"
    "\<forall>a. T \<le> a \<longrightarrow> qmem x a = m a" "8 * Suc (length ws) \<le> unat T"
    using assms by (auto simp: stack_is_def)
  have "qmem x (rsp x) = v" using s(2,3) by auto
  then show "pop x = Some (v, x\<lparr>rsp := rsp x + 8\<rparr>)"
    using slot_aligned(1) [OF s(1,5)] s(2) by (simp add: pop_def)
  show "stack_is T m ws (x\<lparr>rsp := rsp x + 8\<rparr>)"
    using s by (auto simp: stack_is_def slot_simps nth_append)
qed

text \<open>Registers do not matter for the stack, nor does what a C function leaves below it.\<close>

lemma stack_gpr: "stack_is T m ws (x\<lparr>gpr := g\<rparr>) \<longleftrightarrow> stack_is T m ws x"
  by (simp add: stack_is_def)

lemma stack_c_returns:
  assumes "stack_is T m ws x"
  shows "stack_is T m ws (c_returns l x)"
proof -
  have s: "8 * length ws \<le> unat T" "rsp x = slot T (length ws)" using assms by (auto simp: stack_is_def)
  have "rsp x \<le> slot T (Suc i)" if "i < length ws" for i
    using that s unat_slot [of "length ws" T] unat_slot [of "Suc i" T] by (simp add: word_le_nat_alt)
  moreover have "rsp x \<le> T" using s unat_slot [of "length ws" T] by (simp add: word_le_nat_alt)
  then have "rsp x \<le> a" if "T \<le> a" for a using that by simp
  ultimately show ?thesis using assms by (simp add: stack_is_def c_returns_def)
qed

section \<open>Instruction sequences\<close>

lemma exec_pushes:
  "stack_is T m ws x \<Longrightarrow> 8 * (length ws + length rs) \<le> unat T \<Longrightarrow>
     \<exists>x'. exec_all dev l (map Pushq rs @ code) (x, c) = exec_all dev l code (x', c) \<and>
       stack_is T m (ws @ map (gpr x) rs) x' \<and> gpr x' = gpr x"
proof (induction rs arbitrary: ws x)
  case (Cons r rs)
  obtain x1 where x1: "push (gpr x r) x = Some x1" "stack_is T m (ws @ [gpr x r]) x1" "gpr x1 = gpr x"
    using stack_push [OF Cons.prems(1), of "gpr x r"] Cons.prems(2) by auto
  show ?case using Cons.IH [OF x1(2)] Cons.prems(2) x1 by simp
qed auto

lemma exec_pops:
  "stack_is T m (ws @ map g (rev rs)) x \<Longrightarrow>
     \<exists>x'. exec_all dev l (map Popq rs @ code) (x, c) = exec_all dev l code (x', c) \<and>
       stack_is T m ws x' \<and> gpr x' = (\<lambda>r. if r \<in> set rs then g r else gpr x r)"
proof (induction rs arbitrary: x)
  case (Cons r rs)
  let ?x = "x\<lparr>rsp := rsp x + 8, gpr := (gpr x)(r := g r)\<rparr>"
  have p: "pop x = Some (g r, x\<lparr>rsp := rsp x + 8\<rparr>)" "stack_is T m (ws @ map g (rev rs)) (x\<lparr>rsp := rsp x + 8\<rparr>)"
    using stack_pop [of T m "ws @ map g (rev rs)" "g r" x] Cons.prems by simp_all
  have "stack_is T m (ws @ map g (rev rs)) ?x" using p(2) stack_gpr by blast
  from Cons.IH [OF this] show ?case using p(1) by (auto simp: fun_eq_iff)
qed auto

lemma exec_iretq:
  assumes "stack_is T m (ws @ [ss, sp, fl, seg, ip]) x"
  shows "\<exists>x'. exec dev l Iretq (x, c) = Some (Returns, x', c\<lparr>rflags := fl\<rparr>) \<and> gpr x' = gpr x \<and> rsp x' = sp \<and>
    ctx_ip x' = ip \<and> ctx_cs x' = seg \<and> ctx_ss x' = ss \<and> (\<forall>a. T \<le> a \<longrightarrow> qmem x' a = m a)"
proof -
  let ?x = "\<lambda>n. x\<lparr>rsp := rsp x + n\<rparr>"
  have p1: "pop x = Some (ip, ?x 8)" "stack_is T m (ws @ [ss, sp, fl, seg]) (?x 8)"
    using stack_pop [of T m "ws @ [ss, sp, fl, seg]" ip x] assms by simp_all
  have p2: "pop (?x 8) = Some (seg, ?x 16)" "stack_is T m (ws @ [ss, sp, fl]) (?x 16)"
    using stack_pop [of T m "ws @ [ss, sp, fl]" seg "?x 8"] p1(2) by (simp_all add: add.assoc)
  have p3: "pop (?x 16) = Some (fl, ?x 24)" "stack_is T m (ws @ [ss, sp]) (?x 24)"
    using stack_pop [of T m "ws @ [ss, sp]" fl "?x 16"] p2(2) by (simp_all add: add.assoc)
  have p4: "pop (?x 24) = Some (sp, ?x 32)" "stack_is T m (ws @ [ss]) (?x 32)"
    using stack_pop [of T m "ws @ [ss]" sp "?x 24"] p3(2) by (simp_all add: add.assoc)
  have p5: "pop (?x 32) = Some (ss, ?x 40)" "stack_is T m ws (?x 40)"
    using stack_pop [of T m ws ss "?x 32"] p4(2) by (simp_all add: add.assoc)
  show ?thesis using p1(1) p2(1) p3(1) p4(1) p5 by (auto simp: stack_is_def)
qed


section \<open>Interrupts do not disturb the interrupted code\<close>

text \<open>The frame that the dispatcher should see.\<close>

definition expected_frame :: "nat \<Rightarrow> u64 \<Rightarrow> core \<Rightarrow> u64 \<Rightarrow> x86_64_trap_frame" where
  "expected_frame v err x flags = \<lparr>r15 = gpr x R15, r14 = gpr x R14, r13 = gpr x R13, r12 = gpr x R12, r11 = gpr x R11,
     r10 = gpr x R10, r9 = gpr x R9, r8 = gpr x R8, rsi = gpr x RSI, rdi = gpr x RDI, rbp = gpr x RBP,
     rdx = gpr x RDX, rcx = gpr x RCX, rbx = gpr x RBX, rax = gpr x RAX, tf_vector = of_nat v,
     error_code = (if has_error_code v then err else 0), rip = ctx_ip x, cs = ctx_cs x, tf_rflags = flags\<rparr>"

definition saved :: "reg list" where
  "saved = [RAX, RBX, RCX, RDX, RBP, RDI, RSI, R8, R9, R10, R11, R12, R13, R14, R15]"

lemma in_saved: "r \<in> set saved"
  by (cases r) (simp_all add: saved_def)

lemma isr_common_parts:
  "isr_common = map Pushq saved @ Movq_rsp RDI # Call_trap_dispatch # map Popq (rev saved) @ [Addq_rsp 16, Iretq]"
  by (simp add: isr_common_def saved_def)

lemma stack_frame:
  assumes "stack_is T m ([ss, sp, fl, seg, ip, e, v] @ map g saved) x"
  shows "frame_at x (rsp x) = \<lparr>r15 = g R15, r14 = g R14, r13 = g R13, r12 = g R12, r11 = g R11, r10 = g R10, r9 = g R9,
    r8 = g R8, rsi = g RSI, rdi = g RDI, rbp = g RBP, rdx = g RDX, rcx = g RCX, rbx = g RBX, rax = g RAX,
    tf_vector = v, error_code = e, rip = ip, cs = seg, tf_rflags = fl\<rparr>"
proof -
  let ?ws = "[ss, sp, fl, seg, ip, e, v] @ map g saved"
  have len: "length ?ws = 22" by (simp add: saved_def)
  have q: "qmem x (rsp x + 8 * of_nat j) = ?ws ! (21 - j)" if "j < 22" for j
  proof -
    have "22 - j = Suc (21 - j)" using that by simp
    then have "rsp x + 8 * of_nat j = slot T (Suc (21 - j))"
      using assms len slot_add [of j 22 T] that by (simp add: stack_is_def)
    then show ?thesis using assms len that by (simp add: stack_is_def del: append.simps)
  qed
  show ?thesis
    using q [of 0] q [of 1] q [of 2] q [of 3] q [of 4] q [of 5] q [of 6] q [of 7] q [of 8] q [of 9] q [of 10]
      q [of 11] q [of 12] q [of 13] q [of 14] q [of 15] q [of 16] q [of 17] q [of 18] q [of 19]
    by (simp add: frame_at_def saved_def)
qed


lemma isr_common_run:
  assumes "stack_is T m [ss, sp, fl, seg, ip, e, v] x" "176 < unat T"
    and "run_state (x86_64_trap_dispatch dev (Some \<lparr>r15 = gpr x R15, r14 = gpr x R14, r13 = gpr x R13, r12 = gpr x R12,
      r11 = gpr x R11, r10 = gpr x R10, r9 = gpr x R9, r8 = gpr x R8, rsi = gpr x RSI, rdi = gpr x RDI, rbp = gpr x RBP,
      rdx = gpr x RDX, rcx = gpr x RCX, rbx = gpr x RBX, rax = gpr x RAX, tf_vector = v, error_code = e, rip = ip,
      cs = seg, tf_rflags = fl\<rparr>)) c = (r, c1)"
  shows "case r of
    Halts \<Rightarrow> \<exists>x'. exec_all dev l isr_common (x, c) = Some (Halts, x', c1)
  | Returns \<Rightarrow> \<exists>x'. exec_all dev l isr_common (x, c) = Some (Returns, x', c1\<lparr>rflags := fl\<rparr>) \<and> gpr x' = gpr x \<and>
      rsp x' = sp \<and> ctx_ip x' = ip \<and> ctx_cs x' = seg \<and> ctx_ss x' = ss \<and> (\<forall>a. T \<le> a \<longrightarrow> qmem x' a = m a)"
proof -
  let ?ws = "[ss, sp, fl, seg, ip, e, v]" and ?tail = "map Popq (rev saved) @ [Addq_rsp 16, Iretq]"
  have len: "length saved = 15" by (simp add: saved_def)
  obtain x1 where x1: "exec_all dev l isr_common (x, c) =
      exec_all dev l (Movq_rsp RDI # Call_trap_dispatch # ?tail) (x1, c)"
    "stack_is T m (?ws @ map (gpr x) saved) x1" "gpr x1 = gpr x"
    using exec_pushes [OF assms(1), of saved dev l "Movq_rsp RDI # Call_trap_dispatch # ?tail" c] assms(2) len
    unfolding isr_common_parts by (auto simp del: exec_all.simps)
  let ?x2 = "x1\<lparr>gpr := (gpr x1)(RDI := rsp x1)\<rparr>" and ?g = "gpr x"
  have s2: "stack_is T m (?ws @ map ?g saved) ?x2" using x1(2) stack_gpr by blast
  have sp: "rsp x1 = slot T 22" "aligned 16 T" "176 \<le> unat T" using x1(2) len by (auto simp: stack_is_def)
  have al: "aligned 16 (rsp x1)" "aligned 8 (rsp x1)" "rsp x1 \<noteq> 0"
    using slot_aligned [OF sp(2), of 22] unat_slot [of 22 T] assms(2) unfolding sp(1) by (auto simp: unat_eq_zero)
  have call: "exec_all dev l (Movq_rsp RDI # Call_trap_dispatch # ?tail) (x1, c) =
      (case r of Returns \<Rightarrow> exec_all dev l ?tail (c_returns l ?x2, c1) | Halts \<Rightarrow> Some (Halts, c_returns l ?x2, c1))"
    using al assms(3) stack_frame [OF s2] by (simp add: Let_def frame_at_def)
  show ?thesis
  proof (cases r)
    case Halts
    then show ?thesis using x1(1) call by simp
  next
    case Returns
    obtain x3 where x3: "exec_all dev l ?tail (c_returns l ?x2, c1) = exec_all dev l [Addq_rsp 16, Iretq] (x3, c1)"
      "stack_is T m ?ws x3" "gpr x3 = ?g"
      using exec_pops [of T m ?ws ?g "rev saved" "c_returns l ?x2" dev l "[Addq_rsp 16, Iretq]" c1]
        stack_c_returns [OF s2] in_saved by (auto simp del: exec_all.simps)
    let ?x4 = "x3\<lparr>rsp := rsp x3 + 16\<rparr>"
    have "stack_is T m [ss, sp, fl, seg, ip] ?x4"
      using stack_pop(2) [of T m "[ss, sp, fl, seg, ip]" e "x3\<lparr>rsp := rsp x3 + 8\<rparr>"]
        stack_pop(2) [of T m "[ss, sp, fl, seg, ip, e]" v x3] x3(2) by (simp add: add.assoc)
    then obtain x5 where x5: "exec dev l Iretq (?x4, c1) = Some (Returns, x5, c1\<lparr>rflags := fl\<rparr>)" "gpr x5 = gpr ?x4"
      "rsp x5 = sp" "ctx_ip x5 = ip" "ctx_cs x5 = seg" "ctx_ss x5 = ss" "\<forall>a. T \<le> a \<longrightarrow> qmem x5 a = m a"
      using exec_iretq [of T m "[]"] by (metis append_Nil)
    then have "exec_all dev l [Addq_rsp 16, Iretq] (x3, c1) = Some (Returns, x5, c1\<lparr>rflags := fl\<rparr>)"
      by (simp del: exec.simps(7))
    then show ?thesis using x1(1) call x3(1,3) x5(2-7) Returns by (simp del: exec_all.simps)
  qed
qed


lemma aligned_top:
  fixes w :: u64
  shows "unat (w - w mod 16) = unat w - unat w mod 16" "aligned 16 (w - w mod 16)"
proof -
  have "w mod 16 \<le> w" by (simp add: word_le_nat_alt unat_mod)
  then show top: "unat (w - w mod 16) = unat w - unat w mod 16" by (simp add: unat_sub unat_mod)
  show "aligned 16 (w - w mod 16)" unfolding aligned_def top by (simp add: minus_mod_eq_mult_div)
qed

lemma exec_push_imm:
  assumes "stack_is T m ws x" "8 * Suc (length ws) \<le> unat T"
  shows "\<exists>x'. exec_all dev l (Pushq_imm v # code) (x, c) = exec_all dev l code (x', c) \<and>
    stack_is T m (ws @ [v]) x' \<and> gpr x' = gpr x"
  using stack_push [OF assms, of v] by auto

lemma deliver_run:
  assumes "v < length (idt c)" "gate_for h attr (idt c ! v)" "bit attr 7" "64 \<le> unat (rsp x)"
  shows "\<exists>y. deliver v err (x, c) = Some (y, c\<lparr>rflags := entry_flags attr (rflags c)\<rparr>) \<and> gpr y = gpr x \<and> ctx_ip y = h \<and>
    stack_is (rsp x - rsp x mod 16) (qmem x)
      ([ctx_ss x, rsp x, rflags c, ctx_cs x, ctx_ip x] @ (if has_error_code v then [err] else [])) y"
proof -
  let ?T = "rsp x - rsp x mod 16" and ?m = "qmem x"
  have T: "48 \<le> unat ?T" unfolding aligned_top(1) using assms(4) mod_less_divisor [of 16 "unat (rsp x)"] by linarith
  have g: "rd (idt c) v = Some (idt c ! v)" "type_attributes (idt c ! v) = attr" "gate_handler (idt c ! v) = h"
    using assms(1,2) by (auto simp: gate_for_def)
  have s0: "stack_is ?T ?m [] (x\<lparr>rsp := ?T\<rparr>)" using aligned_top(2) by (simp add: stack_is_def slot_simps)
  obtain y1 where y1: "push (ctx_ss x) (x\<lparr>rsp := ?T\<rparr>) = Some y1" "stack_is ?T ?m [ctx_ss x] y1" "gpr y1 = gpr x"
    using stack_push [OF s0, of "ctx_ss x"] T by auto
  obtain y2 where y2: "push (rsp x) y1 = Some y2" "stack_is ?T ?m [ctx_ss x, rsp x] y2" "gpr y2 = gpr x"
    using stack_push [OF y1(2), of "rsp x"] T y1(3) by auto
  obtain y3 where y3: "push (rflags c) y2 = Some y3" "stack_is ?T ?m [ctx_ss x, rsp x, rflags c] y3" "gpr y3 = gpr x"
    using stack_push [OF y2(2), of "rflags c"] T y2(3) by auto
  obtain y4 where y4: "push (ctx_cs x) y3 = Some y4" "stack_is ?T ?m [ctx_ss x, rsp x, rflags c, ctx_cs x] y4"
    "gpr y4 = gpr x"
    using stack_push [OF y3(2), of "ctx_cs x"] T y3(3) by auto
  obtain y5 where y5: "push (ctx_ip x) y4 = Some y5" "stack_is ?T ?m [ctx_ss x, rsp x, rflags c, ctx_cs x, ctx_ip x] y5"
    "gpr y5 = gpr x"
    using stack_push [OF y4(2), of "ctx_ip x"] T y4(3) by auto
  obtain y6 where y6: "(if has_error_code v then push err y5 else Some y5) = Some y6" "gpr y6 = gpr x"
    "stack_is ?T ?m ([ctx_ss x, rsp x, rflags c, ctx_cs x, ctx_ip x] @ (if has_error_code v then [err] else [])) y6"
    using stack_push [OF y5(2), of err] T y5(2,3) by (cases "has_error_code v") auto
  then show ?thesis using y1(1) y2(1) y3(1) y4(1) y5(1) g assms(3) by (simp add: deliver_def stack_is_def)
qed

text \<open>The stubs push a placeholder exactly where the processor does not push an error code.\<close>

lemma isr_stubs_eq:
  "isr_stubs = map (\<lambda>v. if has_error_code v then ISR_ERR (of_nat v) else ISR_NOERR (of_nat v)) [0..<48]"
  by (simp add: isr_stubs_def upt_conv_Cons has_error_code_def)

lemma stub_run:
  assumes "stack_is T m ([ss, sp, fl, seg, ip] @ (if has_error_code v then [err] else [])) x" "176 < unat T" "v < 48"
  shows "\<exists>x'. exec_all dev l (isr_stubs ! v) (x, c) = exec_all dev l isr_common (x', c) \<and> gpr x' = gpr x \<and>
    stack_is T m [ss, sp, fl, seg, ip, (if has_error_code v then err else 0), of_nat v] x'"
proof (cases "has_error_code v")
  case True
  then show ?thesis using assms exec_push_imm [of T m "[ss, sp, fl, seg, ip, err]" x dev l "of_nat v" isr_common c]
    by (auto simp: isr_stubs_eq ISR_ERR_def simp del: exec_all.simps)
next
  case False
  obtain x1 where x1: "exec_all dev l (isr_stubs ! v) (x, c) = exec_all dev l (Pushq_imm (of_nat v) # isr_common) (x1, c)"
    "stack_is T m [ss, sp, fl, seg, ip, 0] x1" "gpr x1 = gpr x"
    using False assms exec_push_imm [of T m "[ss, sp, fl, seg, ip]" x dev l 0 "Pushq_imm (of_nat v) # isr_common" c]
    by (auto simp: isr_stubs_eq ISR_NOERR_def simp del: exec_all.simps)
  then show ?thesis using False assms(2) exec_push_imm [OF x1(2), of dev l "of_nat v" isr_common c]
    by (auto simp del: exec_all.simps)
qed


definition same_context :: "core \<Rightarrow> core \<Rightarrow> bool" where
  "same_context x x' \<longleftrightarrow> gpr x' = gpr x \<and> rsp x' = rsp x \<and> ctx_ip x' = ctx_ip x \<and> ctx_cs x' = ctx_cs x \<and>
     ctx_ss x' = ctx_ss x \<and> (\<forall>a. rsp x \<le> a \<longrightarrow> qmem x' a = qmem x a)"

lemma dispatch_returns:
  assumes "console_up c" "tf_vector frame = of_nat v" "v < 48"
    "run_state (x86_64_trap_dispatch dev (Some frame)) c = (r, c1)"
  shows "r = Returns \<longleftrightarrow> v = 3 \<or> 32 \<le> v"
proof -
  have u: "unat (of_nat v :: u64) = v" using assms(3) by (simp add: unat_of_nat)
  have v: "is_irq frame \<longleftrightarrow> 32 \<le> v" "tf_vector frame = 3 \<longleftrightarrow> v = 3"
    unfolding is_irq_def assms(2) using u assms(3) by (auto simp: word_le_nat_alt word_less_nat_alt word_unat_eq_iff)
  show ?thesis
  proof (cases "is_irq frame")
    case True
    then show ?thesis using dispatch_irq [OF assms(1) True, of dev] assms(4) v by auto
  next
    case False
    then show ?thesis using dispatch_exception [OF assms(1) False, of dev] assms(4) v by auto
  qed
qed

lemma interrupt_run:
  assumes "v < 48" "length stubs = 48" "distinct stubs" "length (idt c) = 256" "192 \<le> unat (rsp x)"
    and "gate_for (stubs ! v) attr (idt c ! v)" "bit attr 7"
    and "run_state (x86_64_trap_dispatch dev (Some (expected_frame v err x (rflags c))))
      (c\<lparr>rflags := entry_flags attr (rflags c)\<rparr>) = (r, c1)"
  shows "\<exists>x'. interrupt dev l stubs v err (x, c) = Some (r, x', if r = Returns then c1\<lparr>rflags := rflags c\<rparr> else c1) \<and>
    (r = Returns \<longrightarrow> same_context x x')"
proof -
  let ?c = "c\<lparr>rflags := entry_flags attr (rflags c)\<rparr>" and ?T = "rsp x - rsp x mod 16"
  have T: "176 < unat ?T" unfolding aligned_top(1) using assms(5) mod_less_divisor [of 16 "unat (rsp x)"] by linarith
  obtain y where y: "deliver v err (x, c) = Some (y, ?c)" "gpr y = gpr x" "ctx_ip y = stubs ! v"
    "stack_is ?T (qmem x) ([ctx_ss x, rsp x, rflags c, ctx_cs x, ctx_ip x] @ (if has_error_code v then [err] else [])) y"
    using deliver_run [of v c "stubs ! v" attr x err] assms(1,4-7) by auto
  obtain z where z: "exec_all dev l (isr_stubs ! v) (y, ?c) = exec_all dev l isr_common (z, ?c)" "gpr z = gpr x"
    "stack_is ?T (qmem x) [ctx_ss x, rsp x, rflags c, ctx_cs x, ctx_ip x, (if has_error_code v then err else 0), of_nat v] z"
    using stub_run [OF y(4) T assms(1), of dev l ?c] y(2) by auto
  have "map_of (zip stubs isr_stubs) (stubs ! v) = Some (isr_stubs ! v)"
    using assms(1-3) by (intro map_of_zip_nth) (simp_all add: isr_stubs_eq)
  then have run: "interrupt dev l stubs v err (x, c) = exec_all dev l isr_common (z, ?c)"
    using y(1,3) z(1) by (simp add: interrupt_def)
  have "?T \<le> a" if "rsp x \<le> a" for a
    using that aligned_top(1) [of "rsp x"] by (simp add: word_le_nat_alt)
  then show ?thesis
    using isr_common_run [OF z(3) T, of dev ?c r c1 l] assms(8) z(2) run
    by (cases r) (auto simp: expected_frame_def same_context_def)
qed

text \<open>
  C6. Interrupts are transparent: whatever code is interrupted, for each of the 48 vectors, the processor, the gate
  installed by \<open>x86_64_idt_init\<close> and the assembly stub hand to \<open>x86_64_trap_dispatch\<close> a trap frame with the vector,
  the error code (0 where the processor has none) and the registers of the interrupted code, on a stack
  aligned for C. Interrupt requests and the breakpoint come back: all registers, the stack
  pointer, the instruction pointer, the flags and the memory from the stack pointer upwards are as before,
  whatever the C code leaves in registers and below the stack. All other exceptions halt.
\<close>

theorem interrupt_transparent:
  assumes "v < 48" "length stubs = 48" "distinct stubs" "length (idt c) = 256" "192 \<le> unat (rsp x)" "console_up c"
    and "gate_for (stubs ! v) attr (idt c ! v)" "attr = (if v = 3 then X86_64_IDT_GATE_TRAP else X86_64_IDT_GATE_INTERRUPT)"
    and "run_state (x86_64_trap_dispatch dev (Some (expected_frame v err x (rflags c))))
      (c\<lparr>rflags := entry_flags attr (rflags c)\<rparr>) = (r, c1)"
  shows "\<exists>x'. interrupt dev l stubs v err (x, c) = Some (r, x', if r = Returns then c1\<lparr>rflags := rflags c\<rparr> else c1) \<and>
    (r = Returns \<longleftrightarrow> v = 3 \<or> 32 \<le> v) \<and> (r = Returns \<longrightarrow> same_context x x')"
proof -
  have "bit attr 7" using assms(8) by (simp add: bit_simps)
  note run = interrupt_run [OF assms(1-5,7) this assms(9), of l]
  have "console_up (c\<lparr>rflags := entry_flags attr (rflags c)\<rparr>)" using assms(6) by (simp add: console_up_def)
  then have "r = Returns \<longleftrightarrow> v = 3 \<or> 32 \<le> v"
    using dispatch_returns [OF _ _ assms(1,9)] by (simp add: expected_frame_def)
  with run show ?thesis by auto
qed

text \<open>A stack with room, the gates installed, and a timer interrupt in the middle of some code.\<close>

definition demo_core :: core where
  "demo_core = \<lparr>gpr = (\<lambda>r. if r = RAX then 0x1234 else 7), rsp = 0x8008, qmem = (\<lambda>a. a), ctx_ip = 0x102345, ctx_cs = 0x28,
     ctx_ss = 0x30\<rparr>"

definition demo_stubs :: "u64 list" where
  "demo_stubs = map (\<lambda>i. 0x101000 + 16 * of_nat i) [0..<48]"

lemma demo_stubs_ok: "length demo_stubs = 48" "distinct demo_stubs"
proof -
  have "(0x101000 + 16 * of_nat i :: u64) = 0x101000 + 16 * of_nat j \<longleftrightarrow> i = j" if "i < 48" "j < 48" for i j
    using that by (simp add: word_unat_eq_iff unat_word_ariths unat_of_nat)
  then show "length demo_stubs = 48" "distinct demo_stubs"
    by (simp_all add: demo_stubs_def distinct_map inj_on_def)
qed

lemma demo_gate_32:
  "\<exists>t. idt_fill demo_stubs (idt quiet_cpu) = Some t \<and> length t = 256 \<and>
     gate_for (demo_stubs ! 32) X86_64_IDT_GATE_INTERRUPT (t ! 32)"
proof -
  have "length (idt quiet_cpu) = 256" by (simp add: quiet_cpu_def)
  from idt_fill_exact [OF this demo_stubs_ok(1)] obtain t where t: "idt_fill demo_stubs (idt quiet_cpu) = Some t"
    "length t = 256" and g: "\<And>v. v < 48 \<Longrightarrow> gate_for (demo_stubs ! v)
      (if v = 3 then X86_64_IDT_GATE_TRAP else X86_64_IDT_GATE_INTERRUPT) (t ! v)"
    by blast
  show ?thesis using t g [of 32] by simp
qed

theorem interrupt_transparent_witness:
  "\<exists>t x' c'. idt_fill demo_stubs (idt quiet_cpu) = Some t \<and>
     interrupt (\<lambda>tr p. 0x20) \<lparr>left_gpr = (\<lambda>r. 0), left_mem = (\<lambda>a. 0)\<rparr> demo_stubs 32 0 (demo_core, quiet_cpu\<lparr>idt := t\<rparr>) =
       Some (Returns, x', c') \<and> gpr x' RAX = 0x1234 \<and> rsp x' = 0x8008 \<and> ctx_ip x' = 0x102345 \<and> rflags c' = 0x202"
proof -
  obtain t where t: "idt_fill demo_stubs (idt quiet_cpu) = Some t" "length t = 256"
    "gate_for (demo_stubs ! 32) X86_64_IDT_GATE_INTERRUPT (t ! 32)"
    using demo_gate_32 by blast
  let ?c = "quiet_cpu\<lparr>idt := t\<rparr>" and ?dev = "\<lambda>tr p. 0x20" and ?l = "\<lparr>left_gpr = (\<lambda>r. 0), left_mem = (\<lambda>a. 0)\<rparr> :: callee"
  obtain r c1 where r: "run_state (x86_64_trap_dispatch ?dev (Some (expected_frame 32 0 demo_core (rflags ?c))))
      (?c\<lparr>rflags := entry_flags X86_64_IDT_GATE_INTERRUPT (rflags ?c)\<rparr>) = (r, c1)"
    by (rule prod.exhaust)
  have "console_up ?c" using quiet_cpu_up by (simp add: console_up_def)
  then have "\<exists>x'. interrupt ?dev ?l demo_stubs 32 0 (demo_core, ?c) =
      Some (r, x', if r = Returns then c1\<lparr>rflags := rflags ?c\<rparr> else c1) \<and>
      (r = Returns \<longleftrightarrow> (32 :: nat) = 3 \<or> (32 :: nat) \<le> 32) \<and> (r = Returns \<longrightarrow> same_context demo_core x')"
    using t(2,3) r demo_stubs_ok
    by (intro interrupt_transparent [where attr = X86_64_IDT_GATE_INTERRUPT]) (simp_all add: demo_core_def)
  then show ?thesis using t(1) by (auto simp: same_context_def demo_core_def quiet_cpu_def)
qed

text \<open>The breakpoint goes through a trap gate: it is counted, reported with interrupts as they were, and returns.\<close>

lemma breakpoint_returns:
  assumes "length stubs = 48" "distinct stubs" "length (idt c) = 256" "192 \<le> unat (rsp x)" "console_up c"
    and "gate_for (stubs ! 3) X86_64_IDT_GATE_TRAP (idt c ! 3)"
  shows "\<exists>x' c'. x86_64_trigger_breakpoint_for_test dev l stubs (x, c) = Some (Returns, x', c') \<and> same_context x x' \<and>
    rflags c' = rflags c \<and> m4_trap_count_for_test c' = m4_trap_count_for_test c + 1"
proof -
  let ?c = "c\<lparr>rflags := entry_flags X86_64_IDT_GATE_TRAP (rflags c)\<rparr>" and ?f = "expected_frame 3 0 x (rflags c)"
  have "console_up ?c" using assms(5) by (simp add: console_up_def)
  moreover have f: "\<not> is_irq ?f" "tf_vector ?f = 3" by (simp_all add: is_irq_def expected_frame_def)
  ultimately obtain c1 where c1: "run_state (x86_64_trap_dispatch dev (Some ?f)) ?c = (Returns, c1)"
    "trap_count c1 = trap_count c + 1"
    using dispatch_exception [of ?c ?f dev] by auto
  have "bit X86_64_IDT_GATE_TRAP 7" by (simp add: bit_simps)
  from interrupt_run [OF _ assms(1-4,6) this c1(1), of l] show ?thesis
    using c1(2) by (auto simp: x86_64_trigger_breakpoint_for_test_def m4_trap_count_for_test_def)
qed

text \<open>
  The system call stub: entered with the interrupted context on the stack, it returns with every
  register as it was, so the result register too, and calls no C code.
\<close>

lemma int80_stub_does_nothing:
  assumes "stack_is T m [ss, sp, fl, seg, ip] x" "96 \<le> unat T"
  shows "\<exists>x'. exec_all dev l x86_64_syscall_int80_stub (x, c) = Some (Returns, x', c\<lparr>rflags := fl\<rparr>) \<and> gpr x' = gpr x \<and>
    rsp x' = sp \<and> ctx_ip x' = ip \<and> ctx_cs x' = seg \<and> ctx_ss x' = ss \<and> (\<forall>a. T \<le> a \<longrightarrow> qmem x' a = m a)"
proof -
  let ?rs = "[RAX, RBX, RCX, RDX, RSI, RDI, RBP]"
  have code: "x86_64_syscall_int80_stub = map Pushq ?rs @ map Popq (rev ?rs) @ [Iretq]"
    by (simp add: x86_64_syscall_int80_stub_def)
  obtain x1 where x1: "exec_all dev l x86_64_syscall_int80_stub (x, c) = exec_all dev l (map Popq (rev ?rs) @ [Iretq]) (x1, c)"
    "stack_is T m ([ss, sp, fl, seg, ip] @ map (gpr x) ?rs) x1" "gpr x1 = gpr x"
    using exec_pushes [OF assms(1), of ?rs dev l "map Popq (rev ?rs) @ [Iretq]" c] assms(2)
    unfolding code by (auto simp del: exec_all.simps list.map rev.simps append.simps)
  obtain x2 where x2: "exec_all dev l (map Popq (rev ?rs) @ [Iretq]) (x1, c) = exec_all dev l [Iretq] (x2, c)"
    "stack_is T m [ss, sp, fl, seg, ip] x2" "gpr x2 = (\<lambda>r. if r \<in> set (rev ?rs) then gpr x r else gpr x1 r)"
    using exec_pops [of T m "[ss, sp, fl, seg, ip]" "gpr x" "rev ?rs" x1 dev l "[Iretq]" c] x1(2)
    unfolding rev_rev_ident by blast
  have g: "gpr x2 = gpr x" unfolding x2(3) x1(3) by simp
  obtain x3 where "exec dev l Iretq (x2, c) = Some (Returns, x3, c\<lparr>rflags := fl\<rparr>)" "gpr x3 = gpr x2" "rsp x3 = sp"
    "ctx_ip x3 = ip" "ctx_cs x3 = seg" "ctx_ss x3 = ss" "\<forall>a. T \<le> a \<longrightarrow> qmem x3 a = m a"
    using exec_iretq [of T m "[]" ss sp fl seg ip x2] x2(2) by (metis append_Nil)
  then show ?thesis unfolding x1(1) x2(1) using g by (simp del: exec.simps(7))
qed

text \<open>\<open>_start\<close> halts with interrupts disabled.\<close>

lemma start_halts: "\<exists>c'. exec_all dev l start_code (x, c) = Some (Halts, x, c') \<and> \<not> bit (rflags c') 9"
  by (simp add: start_code_def cpu_cli_def bit_simps)

text \<open>The trampoline never returns and leaves the interrupt flag as it was.\<close>

lemma trampoline_halts: "exec_all dev l mcsos_thread_trampoline (x, c) = Some (Halts, x, c)"
  by (simp add: mcsos_thread_trampoline_def)

text \<open>The context switch only returns to its caller: no other register changes, the stack pointer only by the return.\<close>

lemma context_switch_returns:
  assumes "stack_is T m (ws @ [ret]) x"
  shows "exec_all dev l mcsos_context_switch (x, c) = Some (Returns, x\<lparr>rsp := rsp x + 8, ctx_ip := ret\<rparr>, c)"
  using stack_pop(1) [OF assms] by (simp add: mcsos_context_switch_def)

end
