(* ===== verification/Vmm.thy ===== *)
theory Vmm
  imports Refinement
begin

text \<open>
  The virtual memory manager of \<open>src/kernel/core/vmm.c\<close>: a table of 256 page mappings that is
  searched linearly. The parameters \<open>space\<close>, \<open>tables\<close> and \<open>table_count\<close>, which the code
  discards with \<open>(void)\<close>, are left out. An output pointer is an \<open>option\<close>: \<open>None\<close> is the null
  pointer, \<open>Some x\<close> a cell that holds \<open>x\<close>.
\<close>

section \<open>Model\<close>

abbreviation VMM_PRESENT :: u64 where "VMM_PRESENT \<equiv> 1"
abbreviation VMM_WRITABLE :: u64 where "VMM_WRITABLE \<equiv> 2"

record vmm_mapping =
  map_virt :: u64
  map_phys :: u64
  map_flags :: u64
  map_used :: bool

definition vmm_is_canonical :: "u64 \<Rightarrow> bool" where
  "vmm_is_canonical virt = (let upper = drop_bit 48 virt in upper = 0 \<or> upper = 0xFFFF)"

definition vmm_map_page ::
  "vmm_mapping list \<Rightarrow> u64 \<Rightarrow> u64 \<Rightarrow> u64 \<Rightarrow> (bool \<times> vmm_mapping list) option" where
  "vmm_map_page g virt phys flags =
     (if \<not> vmm_is_canonical virt then Some (False, g)
      else if virt AND 0xFFF \<noteq> 0 then Some (False, g)
      else if phys AND 0xFFF \<noteq> 0 then Some (False, g)
      else do {
        hit \<leftarrow> scan (\<lambda>i. do { m \<leftarrow> rd g i; Some (\<not> map_used m) }) 256 0;
        (case hit of
           None \<Rightarrow> Some (False, g)
         | Some i \<Rightarrow> do {
             g' \<leftarrow> wr g i \<lparr>map_virt = virt, map_phys = phys, map_flags = flags OR VMM_PRESENT,
                            map_used = True\<rparr>;
             Some (True, g') })
      })"

definition vmm_find :: "vmm_mapping list \<Rightarrow> u64 \<Rightarrow> nat option option" where
  "vmm_find g virt =
     scan (\<lambda>i. do { m \<leftarrow> rd g i; Some (map_used m \<and> map_virt m = virt) }) 256 0"

definition vmm_query_page ::
  "vmm_mapping list \<Rightarrow> u64 \<Rightarrow> u64 option \<Rightarrow> u64 option \<Rightarrow> (bool \<times> u64 option \<times> u64 option) option" where
  "vmm_query_page g virt phys_out flags_out = do {
     hit \<leftarrow> vmm_find g virt;
     (case hit of
        None \<Rightarrow> Some (False, phys_out, flags_out)
      | Some i \<Rightarrow> do {
          m \<leftarrow> rd g i;
          Some (True, map_option (\<lambda>_. map_phys m) phys_out, map_option (\<lambda>_. map_flags m) flags_out) })
   }"

definition vmm_unmap_page :: "vmm_mapping list \<Rightarrow> u64 \<Rightarrow> (bool \<times> vmm_mapping list) option" where
  "vmm_unmap_page g virt = do {
     hit \<leftarrow> vmm_find g virt;
     (case hit of
        None \<Rightarrow> Some (False, g)
      | Some i \<Rightarrow> do {
          m \<leftarrow> rd g i;
          g' \<leftarrow> wr g i (m\<lparr>map_used := False\<rparr>);
          Some (True, g') })
   }"

text \<open>
  The inline assembly of the kernel build, on the part of the processor that it touches: two control
  registers and the translations that the processor holds, by page address.
\<close>

record mmu =
  cr2 :: u64
  cr3 :: u64
  tlb :: "u64 \<rightharpoonup> u64 \<times> u64"

definition vmm_read_cr2 :: "mmu \<Rightarrow> u64" where
  "vmm_read_cr2 m = cr2 m"

definition vmm_read_cr3 :: "mmu \<Rightarrow> u64" where
  "vmm_read_cr3 m = cr3 m"

definition vmm_invlpg :: "u64 \<Rightarrow> mmu \<Rightarrow> mmu" where
  "vmm_invlpg addr m = m\<lparr>tlb := (tlb m)(addr AND NOT 0xFFF := None)\<rparr>"

section \<open>The table as mappings per page\<close>

text \<open>
  \<open>slots_of g v\<close> are the used slots for page \<open>v\<close>, in table order. The first of them is the
  translation of \<open>v\<close>; the others are shadowed by it.
\<close>

definition vmm_ok :: "vmm_mapping list \<Rightarrow> bool" where
  "vmm_ok g \<longleftrightarrow> length g = 256"

definition hits :: "u64 \<Rightarrow> vmm_mapping \<Rightarrow> bool" where
  "hits v m \<longleftrightarrow> map_used m \<and> map_virt m = v"

definition slots_of :: "vmm_mapping list \<Rightarrow> u64 \<Rightarrow> nat set" where
  "slots_of g v = {i. i < length g \<and> hits v (g ! i)}"

definition used_slots :: "vmm_mapping list \<Rightarrow> nat set" where
  "used_slots g = {i. i < length g \<and> map_used (g ! i)}"

definition translate :: "vmm_mapping list \<Rightarrow> u64 \<Rightarrow> (u64 \<times> u64) option" where
  "translate g v = map_option (\<lambda>m. (map_phys m, map_flags m)) (find (hits v) g)"

definition mappable :: "u64 \<Rightarrow> u64 \<Rightarrow> bool" where
  "mappable virt phys \<longleftrightarrow> vmm_is_canonical virt \<and> virt AND 0xFFF = 0 \<and> phys AND 0xFFF = 0"

lemma finite_slots [simp]: "finite (slots_of g v)" "finite (used_slots g)"
  by (simp_all add: slots_of_def used_slots_def)

lemma scan_table:
  assumes "length g = 256"
  shows "scan (\<lambda>i. do { m \<leftarrow> rd g i; Some (P m) }) 256 0 = Some (find (\<lambda>i. P (g ! i)) [0..<256])"
  using scan_find [of 0 256 "\<lambda>i. do { m \<leftarrow> rd g i; Some (P m) }" "\<lambda>i. P (g ! i)"] assms
  by simp

lemma find_slot:
  assumes "length g = 256" "find (\<lambda>i. P (g ! i)) [0..<256] = Some i"
  shows "i < length g" "P (g ! i)" "find P g = Some (g ! i)"
  using assms by (auto simp: find_upt_Some find_Some_iff)

lemma find_slot_none:
  "length g = 256 \<Longrightarrow> find (\<lambda>i. P (g ! i)) [0..<256] = None \<longleftrightarrow> find P g = None"
  by (auto simp: find_upt_None find_None_iff in_set_conv_nth)

lemma translate_none_iff: "translate g v = None \<longleftrightarrow> slots_of g v = {}"
  by (auto simp: translate_def find_None_iff slots_of_def in_set_conv_nth)

lemma vmm_find_cases:
  assumes "vmm_ok g"
  obtains (none) "vmm_find g v = Some None" "translate g v = None"
  | (slot) i where "vmm_find g v = Some (Some i)" "i \<in> slots_of g v" "i < length g"
      "translate g v = Some (map_phys (g ! i), map_flags (g ! i))"
proof (cases "find (\<lambda>i. hits v (g ! i)) [0..<256]")
  case None
  then show thesis
    using none assms scan_table [of g "hits v"] find_slot_none [of g "hits v"]
    by (auto simp: vmm_find_def vmm_ok_def translate_def hits_def)
next
  case (Some i)
  then have "vmm_find g v = Some (Some i)"
    using assms scan_table [of g "hits v"] by (auto simp: vmm_find_def vmm_ok_def hits_def)
  moreover have "i < length g" "hits v (g ! i)" "find (hits v) g = Some (g ! i)"
    using find_slot [OF _ Some] assms by (auto simp: vmm_ok_def)
  ultimately show thesis using slot by (auto simp: slots_of_def translate_def)
qed

lemma vmm_query_eq:
  assumes "vmm_ok g"
  shows "vmm_query_page g v po fo = Some (case translate g v of
      None \<Rightarrow> (False, po, fo)
    | Some (p, f) \<Rightarrow> (True, map_option (\<lambda>_. p) po, map_option (\<lambda>_. f) fo))"
  using assms by (rule vmm_find_cases [of g v]) (simp_all add: vmm_query_page_def)

lemma vmm_unmap_cases:
  assumes "vmm_ok g"
  shows "if translate g v = None then vmm_unmap_page g v = Some (False, g)
    else \<exists>i g'. vmm_unmap_page g v = Some (True, g') \<and> i \<in> slots_of g v \<and> vmm_ok g' \<and>
      (\<forall>u. slots_of g' u = slots_of g u - {i}) \<and> used_slots g' = used_slots g - {i} \<and>
      (\<forall>j. j \<noteq> i \<longrightarrow> g' ! j = g ! j)"
  using assms
proof (cases rule: vmm_find_cases [of g v])
  case none
  then show ?thesis by (simp add: vmm_unmap_page_def)
next
  case (slot i)
  let ?g = "g[i := (g ! i)\<lparr>map_used := False\<rparr>]"
  have "slots_of ?g u = slots_of g u - {i}" for u
    using slot(3) by (auto simp: slots_of_def nth_list_update hits_def)
  moreover have "used_slots ?g = used_slots g - {i}"
    using slot(3) by (auto simp: used_slots_def nth_list_update)
  ultimately show ?thesis
    using slot assms by (intro if_not_P [THEN iffD2])
      (auto simp: vmm_unmap_page_def vmm_ok_def intro!: exI [of _ i] exI [of _ ?g])
qed

lemma table_full:
  assumes "length g = 256"
  shows "find (\<lambda>i. \<not> map_used (g ! i)) [0..<256] = None \<longleftrightarrow> \<not> card (used_slots g) < 256"
proof -
  have sub: "used_slots g \<subseteq> {..<256}" using assms by (auto simp: used_slots_def)
  have "card (used_slots g) = 256 \<longleftrightarrow> used_slots g = {..<256}"
    using card_subset_eq [OF finite_lessThan sub] by (metis card_lessThan)
  moreover have "card (used_slots g) \<le> 256" using card_mono [OF finite_lessThan sub] by simp
  moreover have "used_slots g = {..<256} \<longleftrightarrow> (\<forall>i<256. map_used (g ! i))"
    using assms by (auto simp: used_slots_def)
  ultimately show ?thesis unfolding find_upt_None by (metis less_le)
qed

lemma vmm_map_run:
  assumes "length g = 256"
  shows "vmm_map_page g virt phys flags = (if mappable virt phys then
      (case find (\<lambda>i. \<not> map_used (g ! i)) [0..<256] of None \<Rightarrow> Some (False, g)
       | Some i \<Rightarrow> Some (True, g[i := \<lparr>map_virt = virt, map_phys = phys, map_flags = flags OR 1, map_used = True\<rparr>]))
      else Some (False, g))"
proof (cases "mappable virt phys")
  case True
  let ?m = "\<lparr>map_virt = virt, map_phys = phys, map_flags = flags OR 1, map_used = True\<rparr>"
  let ?free = "find (\<lambda>i. \<not> map_used (g ! i)) [0..<256]"
  have "vmm_map_page g virt phys flags = (case ?free of None \<Rightarrow> Some (False, g)
      | Some i \<Rightarrow> do { g' \<leftarrow> wr g i ?m; Some (True, g') })"
    using True unfolding vmm_map_page_def scan_table [OF assms, of "\<lambda>m. \<not> map_used m"]
    by (simp add: mappable_def)
  moreover have "wr g i ?m = Some (g[i := ?m])" if "?free = Some i" for i
    using find_slot(1) [OF assms that] by simp
  ultimately show ?thesis using True by (simp split: option.split)
qed (auto simp: vmm_map_page_def mappable_def)

lemma vmm_map_cases:
  assumes "vmm_ok g"
  shows "if mappable virt phys \<and> card (used_slots g) < 256
    then \<exists>i g'. vmm_map_page g virt phys flags = Some (True, g') \<and> i \<notin> used_slots g \<and> vmm_ok g' \<and>
      i < length g \<and> slots_of g' virt = insert i (slots_of g virt) \<and>
      (\<forall>u. u \<noteq> virt \<longrightarrow> slots_of g' u = slots_of g u) \<and> used_slots g' = insert i (used_slots g) \<and>
      g' = g[i := \<lparr>map_virt = virt, map_phys = phys, map_flags = flags OR 1, map_used = True\<rparr>]
    else vmm_map_page g virt phys flags = Some (False, g)"
proof -
  have len: "length g = 256" using assms by (simp add: vmm_ok_def)
  note full = table_full [OF len] and run = vmm_map_run [OF len, of virt phys flags]
  let ?m = "\<lparr>map_virt = virt, map_phys = phys, map_flags = flags OR 1, map_used = True\<rparr>"
  show ?thesis
  proof (cases "mappable virt phys \<and> card (used_slots g) < 256")
    case True
    then obtain i where i: "find (\<lambda>i. \<not> map_used (g ! i)) [0..<256] = Some i" using full by auto
    then have "i < 256" "\<not> map_used (g ! i)" by (auto simp: find_upt_Some)
    then have "i < length g" "i \<notin> used_slots g" using len by (auto simp: used_slots_def)
    moreover from this have "slots_of (g[i := ?m]) u = (if u = virt then insert i (slots_of g u) else slots_of g u)"
      for u by (auto simp: slots_of_def nth_list_update hits_def used_slots_def)
    moreover have "used_slots (g[i := ?m]) = insert i (used_slots g)"
      using \<open>i < length g\<close> by (auto simp: used_slots_def nth_list_update)
    ultimately show ?thesis using True i run len by (auto simp: vmm_ok_def)
  next
    case False
    then show ?thesis using full run by auto
  qed
qed

text \<open>The translation of a page depends on the lowest slot for it only.\<close>

lemma translate_Min:
  "translate g v = (if slots_of g v = {} then None
     else Some (map_phys (g ! Min (slots_of g v)), map_flags (g ! Min (slots_of g v))))"
proof (cases "find (hits v) g")
  case None
  then have "translate g v = None" by (simp add: translate_def)
  then show ?thesis by (simp add: translate_none_iff [symmetric])
next
  case (Some m)
  then obtain i where i: "i < length g" "hits v (g ! i)" "m = g ! i" "\<forall>j<i. \<not> hits v (g ! j)"
    by (auto simp: find_Some_iff)
  have "Min (slots_of g v) = i"
    using i by (intro Min_eqI) (auto simp: slots_of_def not_less [symmetric])
  then show ?thesis using Some i by (auto simp: translate_def slots_of_def)
qed

lemma translate_cong:
  assumes "slots_of g' v = slots_of g v" "\<forall>j\<in>slots_of g v. g' ! j = g ! j"
  shows "translate g' v = translate g v"
  using assms by (simp add: translate_Min)

section \<open>The contract of a page table\<close>

text \<open>
  What the kernel expects of its page table: a partial map from pages to frames with flags, which
  takes new pages while there is room and forgets them again. \<open>client_run\<close> is the history of a
  client that maps a page only while it is not mapped; its second argument is the map that the
  client believes in.
\<close>

locale page_table =
  fixes ok :: "'s \<Rightarrow> bool"
    and lookup :: "'s \<Rightarrow> u64 \<Rightarrow> (u64 \<times> u64) option"
    and room :: "'s \<Rightarrow> nat"
    and accepts :: "u64 \<Rightarrow> u64 \<Rightarrow> bool"
    and map_page :: "'s \<Rightarrow> u64 \<Rightarrow> u64 \<Rightarrow> u64 \<Rightarrow> (bool \<times> 's) option"
    and unmap_page :: "'s \<Rightarrow> u64 \<Rightarrow> (bool \<times> 's) option"
  assumes map_new: "ok s \<Longrightarrow> lookup s v = None \<Longrightarrow> accepts v p \<Longrightarrow> 0 < room s \<Longrightarrow>
      \<exists>s'. map_page s v p f = Some (True, s') \<and> ok s' \<and>
        lookup s' = (lookup s)(v \<mapsto> (p, f OR VMM_PRESENT)) \<and> Suc (room s') = room s"
    and map_refuse: "ok s \<Longrightarrow> \<not> accepts v p \<or> room s = 0 \<Longrightarrow> map_page s v p f = Some (False, s)"
    and unmap_present: "ok s \<Longrightarrow> lookup s v \<noteq> None \<Longrightarrow>
      \<exists>s'. unmap_page s v = Some (True, s') \<and> ok s' \<and> lookup s' = (lookup s)(v := None) \<and>
        room s' = Suc (room s)"
    and unmap_absent: "ok s \<Longrightarrow> lookup s v = None \<Longrightarrow> unmap_page s v = Some (False, s)"
begin

inductive client_run :: "'s \<Rightarrow> 's \<Rightarrow> (u64 \<Rightarrow> (u64 \<times> u64) option) \<Rightarrow> bool" for s0 where
  start: "client_run s0 s0 (lookup s0)"
| map_ok: "client_run s0 s m \<Longrightarrow> m v = None \<Longrightarrow> map_page s v p f = Some (True, s') \<Longrightarrow>
    client_run s0 s' (m(v \<mapsto> (p, f OR VMM_PRESENT)))"
| map_fail: "client_run s0 s m \<Longrightarrow> m v = None \<Longrightarrow> map_page s v p f = Some (False, s') \<Longrightarrow>
    client_run s0 s' m"
| unmap: "client_run s0 s m \<Longrightarrow> unmap_page s v = Some (r, s') \<Longrightarrow> client_run s0 s' (m(v := None))"

lemma map_result:
  assumes "ok s" "lookup s v = None" "map_page s v p f = Some (r, s')"
  shows "if r then ok s' \<and> lookup s' = (lookup s)(v \<mapsto> (p, f OR VMM_PRESENT)) else s' = s"
  using assms map_new [of s v p f] map_refuse [of s v p f]
  by (cases "accepts v p \<and> 0 < room s") auto

lemma unmap_result:
  assumes "ok s" "unmap_page s v = Some (r, s')"
  shows "ok s' \<and> lookup s' = (lookup s)(v := None) \<and> r = (lookup s v \<noteq> None)"
  using assms unmap_present [of s v] unmap_absent [of s v]
  by (cases "lookup s v") (auto simp: fun_upd_idem)

lemma client_run_refines: "client_run s0 s m \<Longrightarrow> ok s0 \<Longrightarrow> ok s \<and> lookup s = m"
proof (induction rule: client_run.induct)
  case start
  then show ?case by simp
next
  case (map_ok s m v p f s')
  then show ?case using map_result [of s v p f True s'] by auto
next
  case (map_fail s m v p f s')
  then show ?case using map_result [of s v p f False s'] by auto
next
  case (unmap s m v r s')
  then show ?case using unmap_result [of s v r s'] by auto
qed

end

definition vmm_wf :: "vmm_mapping list \<Rightarrow> bool" where
  "vmm_wf g \<longleftrightarrow> vmm_ok g \<and> (\<forall>v. card (slots_of g v) \<le> 1)"

definition vmm_room :: "vmm_mapping list \<Rightarrow> nat" where
  "vmm_room g = 256 - card (used_slots g)"

lemma single_slot: "vmm_wf g \<Longrightarrow> i \<in> slots_of g v \<Longrightarrow> slots_of g v = {i}"
  unfolding vmm_wf_def by (metis card_le_Suc0_iff_eq finite_slots(1) One_nat_def singleton_iff
      subsetI subset_antisym)

lemma slots_subset_used: "i \<in> slots_of g v \<Longrightarrow> i \<in> used_slots g"
  by (auto simp: slots_of_def used_slots_def hits_def)

lemma used_slots_le: "vmm_ok g \<Longrightarrow> card (used_slots g) \<le> 256"
  using card_mono [of "{..<256}" "used_slots g"] by (auto simp: vmm_ok_def used_slots_def)

lemma vmm_map_new:
  assumes "vmm_wf g" "translate g v = None" "mappable v p" "0 < vmm_room g"
  shows "\<exists>g'. vmm_map_page g v p f = Some (True, g') \<and> vmm_wf g' \<and>
    translate g' = (translate g)(v \<mapsto> (p, f OR VMM_PRESENT)) \<and> Suc (vmm_room g') = vmm_room g"
proof -
  have ok: "vmm_ok g" and room: "card (used_slots g) < 256"
    using assms(1,4) by (auto simp: vmm_wf_def vmm_room_def)
  then obtain i g' where i: "vmm_map_page g v p f = Some (True, g')" "i \<notin> used_slots g" "vmm_ok g'"
    "i < length g" "slots_of g' v = insert i (slots_of g v)"
    "\<forall>u. u \<noteq> v \<longrightarrow> slots_of g' u = slots_of g u" "used_slots g' = insert i (used_slots g)"
    "g' = g[i := \<lparr>map_virt = v, map_phys = p, map_flags = f OR 1, map_used = True\<rparr>]"
    using vmm_map_cases [OF ok, of v p f] assms(3) by auto
  have v: "slots_of g' v = {i}" using i(5) assms(2) by (simp add: translate_none_iff)
  have "translate g' u = ((translate g)(v \<mapsto> (p, f OR VMM_PRESENT))) u" for u
  proof (cases "u = v")
    case True
    then show ?thesis using v i(4,8) by (simp add: translate_Min)
  next
    case False
    then have "translate g' u = translate g u"
      using i by (intro translate_cong) (auto simp: nth_list_update dest: slots_subset_used)
    then show ?thesis using False by simp
  qed
  moreover have "vmm_wf g'"
    using i(3,6) v assms(1) by (auto simp: vmm_wf_def) (metis card.empty card.insert finite.emptyI
      empty_iff le_refl One_nat_def)
  moreover have "Suc (vmm_room g') = vmm_room g"
    using i(2,7) room by (simp add: vmm_room_def)
  ultimately show ?thesis using i(1) by blast
qed

lemma vmm_unmap_present:
  assumes "vmm_wf g" "translate g v \<noteq> None"
  shows "\<exists>g'. vmm_unmap_page g v = Some (True, g') \<and> vmm_wf g' \<and>
    translate g' = (translate g)(v := None) \<and> vmm_room g' = Suc (vmm_room g)"
proof -
  have ok: "vmm_ok g" using assms(1) by (simp add: vmm_wf_def)
  then obtain i g' where i: "vmm_unmap_page g v = Some (True, g')" "i \<in> slots_of g v" "vmm_ok g'"
    "\<forall>u. slots_of g' u = slots_of g u - {i}" "used_slots g' = used_slots g - {i}"
    "\<forall>j. j \<noteq> i \<longrightarrow> g' ! j = g ! j"
    using vmm_unmap_cases [OF ok, of v] assms(2) by auto
  have other: "i \<notin> slots_of g u" if "u \<noteq> v" for u
    using i(2) that by (auto simp: slots_of_def hits_def)
  have "translate g' u = ((translate g)(v := None)) u" for u
  proof (cases "u = v")
    case True
    then show ?thesis using i single_slot [OF assms(1) i(2)] by (simp add: translate_none_iff)
  next
    case False
    then have "translate g' u = translate g u"
      using i other [OF False] by (intro translate_cong) auto
    then show ?thesis using False by simp
  qed
  moreover have "vmm_wf g'"
    using i(3,4) assms(1) by (auto simp: vmm_wf_def intro: le_trans [OF card_Diff1_le])
  moreover have "vmm_room g' = Suc (vmm_room g)"
  proof -
    have "card (used_slots g) = Suc (card (used_slots g'))"
      unfolding i(5) by (rule card_Suc_Diff1 [OF finite_slots(2) slots_subset_used [OF i(2)], symmetric])
    then show ?thesis using used_slots_le [OF ok] by (simp add: vmm_room_def)
  qed
  ultimately show ?thesis using i(1) by blast
qed

interpretation vmm: page_table vmm_wf translate vmm_room mappable vmm_map_page vmm_unmap_page
proof (unfold_locales, goal_cases)
  case (1 s v p f)
  then show ?case by (rule vmm_map_new)
next
  case (2 s v p f)
  then show ?case using vmm_map_cases [of s v p f] by (auto simp: vmm_wf_def vmm_room_def split: if_splits)
next
  case (3 s v)
  then show ?case by (rule vmm_unmap_present)
next
  case (4 s v)
  then show ?case using vmm_unmap_cases [of s v] by (auto simp: vmm_wf_def)
qed

section \<open>Held translations\<close>

text \<open>
  The processor is coherent with the table if it holds only translations that the table has.
  Mapping a new page keeps this; unmapping keeps it if \<open>vmm_invlpg\<close> follows for any address of
  the page. \<open>vmm_unmap_page\<close> does not call it, so alone it keeps coherence only for pages that the
  processor does not hold.
\<close>

definition coherent :: "mmu \<Rightarrow> vmm_mapping list \<Rightarrow> bool" where
  "coherent m g \<longleftrightarrow> tlb m \<subseteq>\<^sub>m translate g"

lemma coherent_map:
  assumes "vmm_wf g" "coherent m g" "translate g v = None" "vmm_map_page g v p f = Some (r, g')"
  shows "coherent m g'"
proof (cases "mappable v p \<and> 0 < vmm_room g")
  case True
  then show ?thesis using vmm_map_new [OF assms(1,3), of p f] assms(2-4)
    by (force simp: coherent_def map_le_def)
next
  case False
  then have "g' = g" using vmm_map_cases [of g v p f] assms(1,4)
    by (auto simp: vmm_wf_def vmm_room_def split: if_splits)
  then show ?thesis using assms(2) by simp
qed

lemma coherent_unmap:
  assumes "vmm_wf g" "coherent m g" "translate g v \<noteq> None" "vmm_unmap_page g v = Some (r, g')"
  shows "coherent m g' \<longleftrightarrow> tlb m v = None"
    and "addr AND NOT 0xFFF = v \<Longrightarrow> coherent (vmm_invlpg addr m) g'"
proof -
  have g': "translate g' = (translate g)(v := None)" using vmm_unmap_present [OF assms(1,3)] assms(4) by auto
  show "coherent m g' \<longleftrightarrow> tlb m v = None"
    using assms(2) unfolding coherent_def g' map_le_def by (metis domIff fun_upd_apply)
  show "coherent (vmm_invlpg addr m) g'" if "addr AND NOT 0xFFF = v"
    using assms(2) that by (auto simp: coherent_def g' map_le_def vmm_invlpg_def)
qed

section \<open>Properties\<close>

text \<open>
  C16. The table implements a partial map: for a client that maps a page only while it is not
  mapped, after any sequence of map and unmap calls, successful or not, \<open>vmm_query_page\<close> delivers
  for every address exactly the frame and flags of the last mapping that was not unmapped, and
  leaves its outputs alone for a page without one.
\<close>

theorem vmm_history_exact:
  assumes "vmm_wf g0" "vmm.client_run g0 g m"
  shows "vmm_query_page g v (Some x) (Some y) = Some (case m v of
      None \<Rightarrow> (False, Some x, Some y) | Some (p, f) \<Rightarrow> (True, Some p, Some f))"
  using vmm.client_run_refines [OF assms(2,1)] vmm_query_eq [of g v "Some x" "Some y"]
  by (auto simp: vmm_wf_def split: option.split)

definition bss_mappings :: "vmm_mapping list" where
  "bss_mappings = replicate 256 \<lparr>map_virt = 0, map_phys = 0, map_flags = 0, map_used = False\<rparr>"

lemma bss_slots [simp]: "slots_of bss_mappings v = {}" "used_slots bss_mappings = {}"
  by (auto simp: slots_of_def used_slots_def bss_mappings_def hits_def)

lemma bss_wf: "vmm_wf bss_mappings" "vmm_ok bss_mappings"
  by (simp_all add: vmm_wf_def vmm_ok_def) (simp_all add: bss_mappings_def)

lemma bss_room: "vmm_room bss_mappings = 256" "translate bss_mappings v = None"
  by (simp_all add: vmm_room_def translate_none_iff)

theorem vmm_history_exact_witness:
  "\<exists>g. vmm_map_page bss_mappings 0x400000 0x200000 VMM_WRITABLE = Some (True, g) \<and>
     vmm_query_page g 0x400000 (Some 0) (Some 0) = Some (True, Some 0x200000, Some 3)"
proof -
  have "mappable 0x400000 0x200000" by (simp add: mappable_def vmm_is_canonical_def)
  then obtain g where g: "vmm_map_page bss_mappings 0x400000 0x200000 VMM_WRITABLE = Some (True, g)"
    using vmm.map_new [OF bss_wf(1) bss_room(2)] bss_room(1) by fastforce
  have "vmm.client_run bss_mappings g ((translate bss_mappings)(0x400000 \<mapsto> (0x200000, 2 OR 1)))"
    using vmm.map_ok [OF vmm.start bss_room(2) g] by simp
  from vmm_history_exact [OF bss_wf(1) this, of "0x400000" 0 0] g show ?thesis by simp
qed

section \<open>Pages that are mapped more than once\<close>

text \<open>
  Without the rule that a page is mapped only while it is not mapped, the table counts: \<open>mapped\<close> says how often a page is mapped, \<open>in_use\<close> how
  many slots are taken.
\<close>

record page_counts =
  mapped :: "u64 \<Rightarrow> nat"
  in_use :: nat

datatype vmm_call = Map_page u64 u64 u64 | Unmap_page u64 | Query_page u64

fun counts_spec :: "vmm_call \<Rightarrow> page_counts \<Rightarrow> bool \<times> page_counts" where
  "counts_spec (Map_page v p f) s =
     (if mappable v p \<and> in_use s < 256
      then (True, \<lparr>mapped = (mapped s)(v := Suc (mapped s v)), in_use = Suc (in_use s)\<rparr>) else (False, s))"
| "counts_spec (Unmap_page v) s =
     (if mapped s v = 0 then (False, s)
      else (True, \<lparr>mapped = (mapped s)(v := mapped s v - 1), in_use = in_use s - 1\<rparr>))"
| "counts_spec (Query_page v) s = (mapped s v \<noteq> 0, s)"

fun vmm_exec :: "vmm_call \<Rightarrow> vmm_mapping list \<Rightarrow> (bool \<times> vmm_mapping list) option" where
  "vmm_exec (Map_page v p f) g = vmm_map_page g v p f"
| "vmm_exec (Unmap_page v) g = vmm_unmap_page g v"
| "vmm_exec (Query_page v) g = do { (found, po, fo) \<leftarrow> vmm_query_page g v None None; Some (found, g) }"

definition table_counts :: "vmm_mapping list \<Rightarrow> page_counts" where
  "table_counts g = \<lparr>mapped = (\<lambda>v. card (slots_of g v)), in_use = card (used_slots g)\<rparr>"

lemma counts_map:
  assumes "vmm_ok g"
  shows "\<exists>g'. vmm_map_page g v p f = Some (fst (counts_spec (Map_page v p f) (table_counts g)), g') \<and> vmm_ok g' \<and>
    table_counts g' = snd (counts_spec (Map_page v p f) (table_counts g))"
proof (cases "mappable v p \<and> card (used_slots g) < 256")
  case True
  then obtain i g' where i: "vmm_map_page g v p f = Some (True, g')" "i \<notin> used_slots g" "vmm_ok g'"
    "slots_of g' v = insert i (slots_of g v)" "\<forall>u. u \<noteq> v \<longrightarrow> slots_of g' u = slots_of g u"
    "used_slots g' = insert i (used_slots g)"
    using vmm_map_cases [OF assms, of v p f] by auto
  have "i \<notin> slots_of g v" using i(2) slots_subset_used by blast
  then have "table_counts g' = snd (counts_spec (Map_page v p f) (table_counts g))"
    using True i(2,4-6) by (auto simp: table_counts_def fun_eq_iff)
  then show ?thesis using True i(1,3) by (simp add: table_counts_def)
next
  case False
  then show ?thesis using vmm_map_cases [OF assms, of v p f] assms by (auto simp: table_counts_def)
qed

lemma counts_unmap:
  assumes "vmm_ok g"
  shows "\<exists>g'. vmm_unmap_page g v = Some (fst (counts_spec (Unmap_page v) (table_counts g)), g') \<and> vmm_ok g' \<and>
    table_counts g' = snd (counts_spec (Unmap_page v) (table_counts g))"
proof (cases "slots_of g v = {}")
  case True
  then show ?thesis using vmm_unmap_cases [OF assms, of v] assms by (simp add: translate_none_iff table_counts_def)
next
  case False
  then obtain i g' where i: "vmm_unmap_page g v = Some (True, g')" "i \<in> slots_of g v" "vmm_ok g'"
    "\<forall>u. slots_of g' u = slots_of g u - {i}" "used_slots g' = used_slots g - {i}"
    using vmm_unmap_cases [OF assms, of v] by (auto simp: translate_none_iff)
  have "i \<notin> slots_of g u" if "u \<noteq> v" for u using i(2) that by (auto simp: slots_of_def hits_def)
  then have "table_counts g' = snd (counts_spec (Unmap_page v) (table_counts g))"
    using False i(2,4,5) slots_subset_used [OF i(2)] by (auto simp: table_counts_def fun_eq_iff)
  then show ?thesis using False i(1,3) by (simp add: table_counts_def)
qed

interpretation page_counting: simulation vmm_exec counts_spec "\<lambda>g s. vmm_ok g \<and> s = table_counts g" "\<lambda>s c. True"
proof (unfold_locales, goal_cases)
  case (1 g s c)
  then have g: "vmm_ok g" "s = table_counts g" by simp_all
  show ?case
  proof (cases c)
    case (Map_page v p f)
    then show ?thesis using counts_map [OF g(1), of v p f] g(2) by fastforce
  next
    case (Unmap_page v)
    then show ?thesis using counts_unmap [OF g(1), of v] g(2) by fastforce
  next
    case (Query_page v)
    then show ?thesis using g vmm_query_eq [OF g(1), of v None None] translate_none_iff [of g v]
      by (cases "translate g v") (auto simp: table_counts_def)
  qed
qed

text \<open>How many of the calls of a kind have succeeded, by the list of calls and the list of their results.\<close>

definition successes :: "(vmm_call \<Rightarrow> bool) \<Rightarrow> vmm_call list \<Rightarrow> bool list \<Rightarrow> nat" where
  "successes P cs rs = length (filter (\<lambda>(c, r). r \<and> P c) (zip cs rs))"

fun maps_page :: "u64 \<Rightarrow> vmm_call \<Rightarrow> bool" where
  "maps_page v (Map_page u p f) \<longleftrightarrow> u = v"
| "maps_page v c \<longleftrightarrow> False"

fun unmaps_page :: "u64 \<Rightarrow> vmm_call \<Rightarrow> bool" where
  "unmaps_page v (Unmap_page u) \<longleftrightarrow> u = v"
| "unmaps_page v c \<longleftrightarrow> False"

lemma successes_Cons [simp]: "successes P (c # cs) (r # rs) = (if r \<and> P c then 1 else 0) + successes P cs rs"
  by (simp add: successes_def)

lemma counts_history:
  "mapped s v + successes (maps_page v) cs (fst (run_spec counts_spec cs s)) =
     mapped (snd (run_spec counts_spec cs s)) v + successes (unmaps_page v) cs (fst (run_spec counts_spec cs s))"
proof (induction cs arbitrary: s)
  case Nil
  then show ?case by (simp add: successes_def)
next
  case (Cons c cs)
  show ?case using Cons.IH [of "snd (counts_spec c s)"]
    by (cases c) (auto simp: case_prod_beta Let_def split: if_splits, arith)
qed

lemma bss_counts: "table_counts bss_mappings = \<lparr>mapped = (\<lambda>v. 0), in_use = 0\<rparr>"
  by (simp add: table_counts_def)

text \<open>
  C17. Mapping is not idempotent: from the zeroed table, every sequence of map, unmap and query calls, for any pages and in any order, is defined and
  returns exactly what counting returns. A \<open>vmm_map_page\<close> with acceptable addresses succeeds while fewer than 256 slots are
  taken, also for a page that is already mapped, and counts the page up; a \<open>vmm_unmap_page\<close> counts it down and fails at zero. Afterwards
  \<open>vmm_query_page\<close> finds a page exactly if it has been mapped more often than unmapped, with success; calls for other
  pages make no difference.
\<close>

theorem vmm_map_stacks:
  "\<exists>rs g. rs = fst (run_spec counts_spec cs \<lparr>mapped = (\<lambda>v. 0), in_use = 0\<rparr>) \<and>
    run_calls vmm_exec cs bss_mappings = Some (rs, g) \<and>
    (\<forall>v x y. \<exists>po fo. vmm_query_page g v x y =
       Some (successes (unmaps_page v) cs rs < successes (maps_page v) cs rs, po, fo))"
proof -
  let ?s = "\<lparr>mapped = (\<lambda>v. 0), in_use = 0\<rparr> :: page_counts"
  define rs where "rs = fst (run_spec counts_spec cs ?s)"
  obtain g where g: "run_calls vmm_exec cs bss_mappings = Some (rs, g)" "vmm_ok g"
    "snd (run_spec counts_spec cs ?s) = table_counts g"
    using page_counting.runs_simulated [of bss_mappings ?s cs] bss_wf(2) bss_counts unfolding rs_def by auto
  have "\<exists>po fo. vmm_query_page g v x y = Some (successes (unmaps_page v) cs rs < successes (maps_page v) cs rs, po, fo)" for v x y
  proof -
    have "successes (maps_page v) cs rs = card (slots_of g v) + successes (unmaps_page v) cs rs"
      using counts_history [of ?s v cs] g(3) by (simp add: rs_def table_counts_def)
    moreover have "\<exists>po fo. vmm_query_page g v x y = Some (0 < card (slots_of g v), po, fo)"
      using vmm_query_eq [OF g(2), of v x y] translate_none_iff [of g v]
      by (cases "translate g v") (auto simp: card_gt_0_iff)
    ultimately show ?thesis by simp
  qed
  then show ?thesis using g(1) rs_def by blast
qed

theorem vmm_map_stacks_witness:
  "\<exists>g. run_calls vmm_exec [Map_page 0x400000 0x200000 0, Map_page 0x400000 0x300000 0, Map_page 0x400001 0x200000 0,
      Unmap_page 0x400000, Query_page 0x400000, Unmap_page 0x500000, Unmap_page 0x400000, Query_page 0x400000] bss_mappings =
    Some ([True, True, False, True, True, False, True, False], g)"
proof -
  let ?cs = "[Map_page 0x400000 0x200000 0, Map_page 0x400000 0x300000 0, Map_page 0x400001 0x200000 0,
      Unmap_page 0x400000, Query_page 0x400000, Unmap_page 0x500000, Unmap_page 0x400000, Query_page 0x400000]"
  have "mappable 0x400000 0x200000" "mappable 0x400000 0x300000" "\<not> mappable 0x400001 0x200000"
    by (simp_all add: mappable_def vmm_is_canonical_def)
  then have "fst (run_spec counts_spec ?cs \<lparr>mapped = (\<lambda>v. 0), in_use = 0\<rparr>) =
      [True, True, False, True, True, False, True, False]" by simp
  then show ?thesis using vmm_map_stacks [of ?cs] by (auto simp del: run_calls.simps run_spec.simps)
qed

text \<open>An address is canonical when bits 63 to 47 are all equal.\<close>

definition canonical48 :: "u64 \<Rightarrow> bool" where
  "canonical48 v \<longleftrightarrow> (\<forall>i\<in>{47..<64}. bit v i = bit v 47)"

lemma bit_beyond: "64 \<le> n \<Longrightarrow> \<not> bit (v :: u64) n"
  by (auto dest: bit_imp_le_length)

lemma upper_bits:
  "drop_bit 48 (v :: u64) = (if b then mask 16 else 0) \<longleftrightarrow> (\<forall>i\<in>{48..<64}. bit v i = b)"
proof -
  have "drop_bit 48 v = (if b then mask 16 else 0) \<longleftrightarrow>
      (\<forall>n<64. bit v (48 + n) = (b \<and> n < 16))"
    by (auto simp: bit_eq_iff bit_simps)
  also have "\<dots> \<longleftrightarrow> (\<forall>i\<in>{48..<64}. bit v i = b)"
  proof (rule iffI; intro ballI allI impI)
    fix i :: nat assume *: "\<forall>n<64. bit v (48 + n) = (b \<and> n < 16)" "i \<in> {48..<64}"
    then show "bit v i = b" using spec [OF *(1), of "i - 48"] by auto
  next
    fix n :: nat assume *: "\<forall>i\<in>{48..<64}. bit v i = b"
    then show "bit v (48 + n) = (b \<and> n < 16)"
      using bit_beyond [of "48 + n" v] by (cases "n < 16") auto
  qed
  finally show ?thesis .
qed

lemma canonical_range: "48 \<in> {47..<64 :: nat}" "48 \<in> {48..<64 :: nat}"
  by simp_all

lemma constant_on: "a \<in> A \<Longrightarrow> (\<exists>b. \<forall>i\<in>A. P i = b) \<longleftrightarrow> (\<forall>i\<in>A. P i = P a)"
  by metis

lemma vmm_is_canonical_bits: "vmm_is_canonical v \<longleftrightarrow> (\<forall>i\<in>{48..<64}. bit v i = bit v 48)"
proof -
  have "vmm_is_canonical v \<longleftrightarrow> (\<exists>b. drop_bit 48 v = (if b then mask 16 else 0))"
    by (auto simp: vmm_is_canonical_def Let_def mask_eq_exp_minus_1 ex_bool_eq)
  also have "\<dots> \<longleftrightarrow> (\<exists>b. \<forall>i\<in>{48..<64}. bit v i = b)" by (simp only: upper_bits)
  also have "\<dots> \<longleftrightarrow> (\<forall>i\<in>{48..<64}. bit v i = bit v 48)"
    by (rule constant_on) simp
  finally show ?thesis .
qed

text \<open>
  C18. The canonical-address test: \<open>vmm_is_canonical\<close> accepts every canonical address, and beyond
  them exactly the addresses whose bits 63 to 48 agree with each other but not with bit 47,
  for instance 0x800000000000.
\<close>

theorem vmm_canonical_exact:
  "vmm_is_canonical v \<longleftrightarrow> canonical48 v \<or>
     (bit v 47 \<noteq> bit v 48 \<and> (\<forall>i\<in>{48..<64}. bit v i = bit v 48))"
proof -
  have "canonical48 v \<longleftrightarrow> bit v 48 = bit v 47 \<and> (\<forall>i\<in>{48..<64}. bit v i = bit v 48)"
  proof -
    have "{47..<64 :: nat} = insert 47 {48..<64}" by auto
    then show ?thesis unfolding canonical48_def using canonical_range by (metis insert_iff)
  qed
  then show ?thesis unfolding vmm_is_canonical_bits by auto
qed

theorem vmm_canonical_exact_witness:
  "vmm_is_canonical 0x800000000000 \<and> \<not> canonical48 0x800000000000"
proof -
  have "bit (0x800000000000 :: u64) 47" "\<not> bit (0x800000000000 :: u64) 48"
    by (simp_all add: bit_numeral_rec bit_iff_odd)
  moreover have "vmm_is_canonical 0x800000000000" by (simp add: vmm_is_canonical_def)
  moreover have "\<not> canonical48 0x800000000000"
    using calculation(1,2) unfolding canonical48_def by (metis canonical_range)
  ultimately show ?thesis using vmm_canonical_exact [of "0x800000000000"] by blast
qed

end
