(* ===== verification/Sched.thy ===== *)
theory Sched
  imports Kmem
begin

text \<open>
  The cooperative scheduler of \<open>src/kernel/core/thread.c\<close> in its kernel build: a table of 16
  threads, a count and the index of the current thread. Thread stacks come from the heap of
  \<open>Kmem\<close>.

  A thread entry is the address of a function. \<open>thread_yield\<close> ends with the call of the entry of
  the next thread; its model returns the entry that is called, and the state at that call.
\<close>

section \<open>Model\<close>

abbreviation THREAD_STACK_SIZE :: u64 where "THREAD_STACK_SIZE \<equiv> 4096"
abbreviation MAX_THREADS :: u64 where "MAX_THREADS \<equiv> 16"

datatype thread_state = THREAD_READY | THREAD_RUNNING

record thread =
  th_entry :: u64
  th_stack :: u64
  th_state :: thread_state

record sched =
  threads :: "thread list"
  thread_count :: u64
  current_thread :: u64

definition thread_system_init :: "sched \<Rightarrow> sched" where
  "thread_system_init s = s\<lparr>thread_count := 0, current_thread := 0\<rparr>"

text \<open>The result is the index of the new thread, or \<open>None\<close> for the null pointer.\<close>

definition thread_create :: "sched \<Rightarrow> kmem \<Rightarrow> u64 \<Rightarrow> (nat option \<times> sched \<times> kmem) option" where
  "thread_create s h entry =
     (if entry = 0 then Some (None, s, h)
      else if MAX_THREADS \<le> thread_count s then Some (None, s, h)
      else do {
        let i = unat (thread_count s);
        t \<leftarrow> rd (threads s) i;
        (stack, h') \<leftarrow> kmalloc h THREAD_STACK_SIZE;
        let t' = t\<lparr>th_entry := entry, th_stack := stack\<rparr>;
        if stack = 0 then do {
          ts \<leftarrow> wr (threads s) i t';
          Some (None, s\<lparr>threads := ts\<rparr>, h')
        } else do {
          ts \<leftarrow> wr (threads s) i (t'\<lparr>th_state := THREAD_READY\<rparr>);
          Some (Some i, s\<lparr>threads := ts, thread_count := thread_count s + 1\<rparr>, h')
        }
      })"

definition thread_yield :: "sched \<Rightarrow> (u64 option \<times> sched) option" where
  "thread_yield s =
     (if thread_count s = 0 then Some (None, s)
      else do {
        let c = current_thread s + 1;
        let s' = s\<lparr>current_thread := (if thread_count s \<le> c then 0 else c)\<rparr>;
        next \<leftarrow> rd (threads s') (unat (current_thread s'));
        Some (if th_entry next \<noteq> 0 then Some (th_entry next) else None, s')
      })"

text \<open>The entries that \<open>n\<close> calls of \<open>thread_yield\<close> call, when the entries return.\<close>

fun yields :: "nat \<Rightarrow> sched \<Rightarrow> (u64 option list \<times> sched) option" where
  "yields 0 s = Some ([], s)"
| "yields (Suc n) s = do {
     (e, s') \<leftarrow> thread_yield s;
     (es, s'') \<leftarrow> yields n s';
     Some (e # es, s'')
   }"

section \<open>Well-formed scheduler states\<close>

definition sched_ok :: "sched \<Rightarrow> bool" where
  "sched_ok s \<longleftrightarrow> length (threads s) = 16 \<and> thread_count s \<le> MAX_THREADS \<and>
     current_thread s < MAX_THREADS \<and>
     (current_thread s < thread_count s \<or> current_thread s = 0) \<and>
     (\<forall>i<unat (thread_count s). th_entry (threads s ! i) \<noteq> 0)"

lemma sched_counts:
  assumes "sched_ok s"
  shows "unat (thread_count s) \<le> 16" "unat (current_thread s) < 16"
    "unat (current_thread s) < unat (thread_count s) \<or> unat (current_thread s) = 0"
  using assms by (auto simp: sched_ok_def word_le_nat_alt word_less_nat_alt)

lemma ring_next: "c < n \<or> c = 0 \<Longrightarrow> 0 < n \<Longrightarrow> Suc c mod n = (if n \<le> Suc c then 0 else Suc c)"
  by (cases "Suc c = n") auto

text \<open>One yield moves to the next thread in the ring and calls it.\<close>

lemma thread_yield_next:
  assumes "sched_ok s" "thread_count s \<noteq> 0"
  shows "\<exists>s'. thread_yield s = Some (Some (th_entry (threads s ! unat (current_thread s'))), s') \<and>
    sched_ok s' \<and> threads s' = threads s \<and> thread_count s' = thread_count s \<and>
    unat (current_thread s') = Suc (unat (current_thread s)) mod unat (thread_count s)"
proof -
  let ?c = "current_thread s + 1"
  let ?s = "s\<lparr>current_thread := (if thread_count s \<le> ?c then 0 else ?c)\<rparr>"
  note c = sched_counts [OF assms(1)]
  have n: "0 < unat (thread_count s)" using assms(2) by (simp add: unat_gt_0)
  have "unat ?c = Suc (unat (current_thread s))"
    by (rule unat_plus_one [of _ 16]) (use c(2) in \<open>simp add: word_less_nat_alt\<close>)
  then have cur: "unat (current_thread ?s) = Suc (unat (current_thread s)) mod unat (thread_count s)"
    using ring_next [of "unat (current_thread s)" "unat (thread_count s)"] c(3) n
    by (auto simp: word_le_nat_alt)
  have "unat (current_thread ?s) < unat (thread_count s)" unfolding cur using n by simp
  moreover have "sched_ok ?s" using assms(1) calculation c by (auto simp: sched_ok_def word_less_nat_alt)
  moreover have "th_entry (threads s ! unat (current_thread ?s)) \<noteq> 0"
    using assms(1) calculation(1) by (simp add: sched_ok_def)
  moreover have "length (threads s) = 16" using assms(1) by (simp add: sched_ok_def)
  ultimately show ?thesis using cur assms(2) c(1)
    by (intro exI [of _ ?s]) (simp add: thread_yield_def Let_def)
qed

lemma yields_ring:
  assumes "sched_ok s" "thread_count s \<noteq> 0"
  shows "\<exists>s'. yields n s = Some (map (\<lambda>k. Some (th_entry (threads s !
      ((unat (current_thread s) + k) mod unat (thread_count s))))) [1..<Suc n], s') \<and>
    sched_ok s' \<and> threads s' = threads s \<and> thread_count s' = thread_count s"
  using assms
proof (induction n arbitrary: s)
  case (Suc n)
  obtain t where t: "thread_yield s = Some (Some (th_entry (threads s ! unat (current_thread t))), t)"
    "sched_ok t" "threads t = threads s" "thread_count t = thread_count s"
    "unat (current_thread t) = Suc (unat (current_thread s)) mod unat (thread_count s)"
    using thread_yield_next [OF Suc.prems] by blast
  obtain s' where s': "yields n t = Some (map (\<lambda>k. Some (th_entry (threads t !
      ((unat (current_thread t) + k) mod unat (thread_count t))))) [1..<Suc n], s')"
    "sched_ok s'" "threads s' = threads t" "thread_count s' = thread_count t"
    using Suc.IH [OF t(2)] t(4) Suc.prems(2) by auto
  have "[1..<Suc (Suc n)] = 1 # map Suc [1..<Suc n]" by (simp add: map_Suc_upt upt_conv_Cons)
  then show ?case using t s' by (simp add: mod_simps o_def)
qed simp

lemma ring_perm:
  assumes "0 < n"
  shows "distinct (map (\<lambda>k. (c + k) mod n) [1..<Suc n])"
    "set (map (\<lambda>k. (c + k) mod n) [1..<Suc n]) = {..<n :: nat}"
proof -
  let ?f = "\<lambda>k. (c + k) mod n"
  have inj: "inj_on ?f {1..<Suc n}"
  proof (rule inj_onI)
    fix j k assume jk: "j \<in> {1..<Suc n}" "k \<in> {1..<Suc n}" "?f j = ?f k"
    have *: "j = k" if "j \<le> k" "k < j + n" "?f j = ?f k" for j k
    proof -
      have "n dvd k - j" using that(1,3) mod_eq_dvd_iff_nat [of "c + j" "c + k" n] by simp
      moreover have "k - j < n" using that(1,2) by simp
      ultimately show ?thesis using that(1) by (auto dest: dvd_imp_le)
    qed
    have "j < k + n" "k < j + n" using jk(1,2) by auto
    then show "j = k" using *[of j k] *[of k j] jk(3) by (cases "j \<le> k") auto
  qed
  then show "distinct (map ?f [1..<Suc n])" by (simp only: distinct_map set_upt distinct_upt simp_thms)
  have "?f ` {1..<Suc n} \<subseteq> {..<n}" using assms by auto
  moreover have "card (?f ` {1..<Suc n}) = card {..<n}" using card_image [OF inj] by simp
  ultimately have "?f ` {1..<Suc n} = {..<n}" by (intro card_subset_eq) auto
  then show "set (map ?f [1..<Suc n]) = {..<n}" by (simp only: set_map set_upt)
qed

section \<open>Properties\<close>

text \<open>
  C22. Round robin: when there are threads, any number of successive yields calls the entries of
  the threads in table order, starting after the current one and wrapping round, so that as many
  yields as there are threads call every thread exactly once.
\<close>

theorem sched_round_robin:
  assumes "sched_ok s" "thread_count s \<noteq> 0"
  shows "\<exists>order s'. yields n s = Some (map (\<lambda>i. Some (th_entry (threads s ! i))) order, s') \<and>
    sched_ok s' \<and> length order = n \<and>
    (\<forall>k<n. order ! k = (unat (current_thread s) + Suc k) mod unat (thread_count s)) \<and>
    (n = unat (thread_count s) \<longrightarrow> distinct order \<and> set order = {..<n})"
proof -
  let ?order = "map (\<lambda>k. (unat (current_thread s) + k) mod unat (thread_count s)) [1..<Suc n]"
  obtain s' where "yields n s = Some (map (\<lambda>i. Some (th_entry (threads s ! i))) ?order, s')" "sched_ok s'"
    using yields_ring [OF assms, of n] by (auto simp: o_def)
  moreover have "0 < unat (thread_count s)" using assms(2) by (simp add: unat_gt_0)
  moreover from ring_perm [OF this, of "unat (current_thread s)"]
  have "n = unat (thread_count s) \<longrightarrow> distinct ?order \<and> set ?order = {..<n}" by blast
  moreover have "\<forall>k<n. ?order ! k = (unat (current_thread s) + Suc k) mod unat (thread_count s)"
    by (simp del: upt_Suc)
  moreover have "length ?order = n" by simp
  ultimately show ?thesis by blast
qed

lemma less_two: "i < 2 \<longleftrightarrow> i = 0 \<or> i = (1 :: nat)"
  by auto

definition two_threads :: sched where
  "two_threads = \<lparr>threads =
      \<lparr>th_entry = 0xA0, th_stack = 0x2000, th_state = THREAD_READY\<rparr> #
      \<lparr>th_entry = 0xB0, th_stack = 0x3000, th_state = THREAD_READY\<rparr> #
      replicate 14 \<lparr>th_entry = 0, th_stack = 0, th_state = THREAD_READY\<rparr>,
    thread_count = 2, current_thread = 0\<rparr>"

theorem sched_round_robin_witness:
  "\<exists>s'. yields 2 two_threads = Some ([Some 0xB0, Some 0xA0], s')"
proof -
  have "sched_ok two_threads" by (auto simp: sched_ok_def two_threads_def less_two)
  moreover have "thread_count two_threads \<noteq> 0" by (simp add: two_threads_def)
  ultimately obtain ord s' where
    "yields 2 two_threads = Some (map (\<lambda>i. Some (th_entry (threads two_threads ! i))) ord, s')"
    "length ord = 2" "ord ! 0 = 1" "ord ! 1 = 0"
    using sched_round_robin [of two_threads 2] by (auto simp: two_threads_def)
  moreover from calculation have "ord = [1, 0]" by (intro nth_equalityI) (auto simp: less_two)
  ultimately show ?thesis by (simp add: two_threads_def)
qed

text \<open>
  The life of the scheduler together with the heap: threads are created and yield, while other
  clients allocate and free. \<open>own\<close> holds all heap ranges in use, stacks included; a client does
  not free the stack of a thread.
\<close>

definition stacks :: "sched \<Rightarrow> u64 list" where
  "stacks s = map th_stack (take (unat (thread_count s)) (threads s))"

inductive sys_run :: "nat \<Rightarrow> nat \<Rightarrow> sched \<Rightarrow> kmem \<Rightarrow> (u64 \<Rightarrow> u64 option) \<Rightarrow> bool" for lo hi where
  sys_start: "kheap.heap_run lo hi h own \<Longrightarrow> length (threads s) = 16 \<Longrightarrow>
    sys_run lo hi (thread_system_init s) h own"
| sys_create: "sys_run lo hi s h own \<Longrightarrow> thread_create s h e = Some (Some i, s', h') \<Longrightarrow>
    sys_run lo hi s' h' (own(th_stack (threads s' ! i) \<mapsto> THREAD_STACK_SIZE))"
| sys_create_null: "sys_run lo hi s h own \<Longrightarrow> thread_create s h e = Some (None, s', h') \<Longrightarrow>
    sys_run lo hi s' h' own"
| sys_yield: "sys_run lo hi s h own \<Longrightarrow> thread_yield s = Some (e, s') \<Longrightarrow> sys_run lo hi s' h own"
| sys_alloc: "sys_run lo hi s h own \<Longrightarrow> kmalloc h n = Some (p, h') \<Longrightarrow> p \<noteq> 0 \<Longrightarrow>
    sys_run lo hi s h' (own(p \<mapsto> n))"
| sys_free: "sys_run lo hi s h own \<Longrightarrow> own p \<noteq> None \<Longrightarrow> p \<notin> set (stacks s) \<Longrightarrow> kfree h p = Some h' \<Longrightarrow>
    sys_run lo hi s h' (own(p := None))"

lemma thread_all_fields [simp]:
  "(t :: thread)\<lparr>th_entry := e, th_stack := p, th_state := q\<rparr> = \<lparr>th_entry = e, th_stack = p, th_state = q\<rparr>"
  by simp

lemma thread_create_cases:
  assumes "sched_ok s" "thread_create s h e = Some (r, s', h')"
  obtains (refused) "r = None" "s' = s" "h' = h" "e = 0 \<or> thread_count s = MAX_THREADS"
  | (no_stack) "r = None" "kmalloc h THREAD_STACK_SIZE = Some (0, h')" "sched_ok s'" "e \<noteq> 0"
      "stacks s' = stacks s" "thread_count s' = thread_count s"
  | (created) p where "r = Some (unat (thread_count s))" "kmalloc h THREAD_STACK_SIZE = Some (p, h')"
      "p \<noteq> 0" "sched_ok s'" "stacks s' = stacks s @ [p]" "thread_count s' = thread_count s + 1"
      "th_stack (threads s' ! unat (thread_count s)) = p" "e \<noteq> 0"
      "threads s' = (threads s)[unat (thread_count s) :=
         \<lparr>th_entry = e, th_stack = p, th_state = THREAD_READY\<rparr>]"
proof (cases "e = 0 \<or> MAX_THREADS \<le> thread_count s")
  case True
  moreover have "thread_count s = MAX_THREADS" if "MAX_THREADS \<le> thread_count s"
    using that assms(1) by (simp add: sched_ok_def)
  ultimately show thesis using refused assms(2) by (auto simp: thread_create_def split: if_splits)
next
  case False
  let ?i = "unat (thread_count s)"
  have len: "length (threads s) = 16" using assms(1) by (simp add: sched_ok_def)
  have lt: "thread_count s < 16" and i: "?i < 16" using False by (simp_all add: word_less_nat_alt not_le)
  obtain p where p: "kmalloc h THREAD_STACK_SIZE = Some (p, h')"
    using assms(2) False by (auto simp: thread_create_def Let_def split: bind_splits if_splits)
  show thesis
  proof (cases "p = 0")
    case True
    then have s': "r = None" "s' = s\<lparr>threads := (threads s)[?i := (threads s ! ?i)\<lparr>th_entry := e, th_stack := 0\<rparr>]\<rparr>"
      using assms(2) False p i len by (auto simp: thread_create_def Let_def)
    moreover have "sched_ok s'" using assms(1) s' i len by (auto simp: sched_ok_def nth_list_update)
    ultimately show ?thesis using no_stack p True False by (simp add: stacks_def)
  next
    case nz: False
    let ?t = "\<lparr>th_entry = e, th_stack = p, th_state = THREAD_READY\<rparr>"
    have s': "r = Some ?i" "s' = s\<lparr>threads := (threads s)[?i := ?t], thread_count := thread_count s + 1\<rparr>"
      using assms(2) False p nz i len by (auto simp: thread_create_def Let_def)
    have cnt: "unat (thread_count s + 1) = Suc ?i" by (rule unat_plus_one [OF lt])
    have "sched_ok s'"
      using assms(1) s' i len cnt False
      by (auto simp: sched_ok_def nth_list_update less_Suc_eq word_less_nat_alt word_le_nat_alt)
    moreover have "stacks s' = stacks s @ [p]"
      using s' cnt i len by (simp add: stacks_def take_Suc_conv_app_nth)
    ultimately show ?thesis using created p nz s' i len False by simp
  qed
qed

definition stacks_held :: "nat \<Rightarrow> nat \<Rightarrow> sched \<Rightarrow> kmem \<Rightarrow> (u64 \<Rightarrow> u64 option) \<Rightarrow> bool" where
  "stacks_held lo hi s h own \<longleftrightarrow> sched_ok s \<and> kheap.heap_run lo hi h own \<and> distinct (stacks s) \<and>
     (\<forall>p\<in>set (stacks s). own p = Some THREAD_STACK_SIZE)"

lemma sched_init_ok: "length (threads s) = 16 \<Longrightarrow> sched_ok (thread_system_init s)"
  "stacks (thread_system_init s) = []"
  by (simp_all add: sched_ok_def thread_system_init_def stacks_def)

lemma thread_yield_keeps:
  assumes "sched_ok s" "thread_yield s = Some (e, s')"
  shows "sched_ok s'" "stacks s' = stacks s"
  using assms thread_yield_next [of s]
  by (cases "thread_count s = 0"; auto simp: thread_yield_def stacks_def)+

lemma sys_run_inv: "sys_run lo hi s h own \<Longrightarrow> stacks_held lo hi s h own"
proof (induction rule: sys_run.induct)
  case (sys_start h own s)
  then show ?case by (simp add: stacks_held_def sched_init_ok)
next
  case (sys_create s h own e i s' h')
  then have inv: "sched_ok s" "kheap.heap_run lo hi h own" by (auto simp: stacks_held_def)
  obtain p where p: "kmalloc h THREAD_STACK_SIZE = Some (p, h')" "p \<noteq> 0" "sched_ok s'"
    "stacks s' = stacks s @ [p]" "th_stack (threads s' ! i) = p"
    using thread_create_cases [OF inv(1) sys_create(2)] by (metis option.distinct(1) option.inject)
  have "own p = None" by (rule kheap.alloc_fresh [OF inv(2) p(1,2)])
  moreover have "kheap.heap_run lo hi h' (own(p \<mapsto> THREAD_STACK_SIZE))"
    by (rule kheap.alloc_ok [OF inv(2) p(1,2)])
  ultimately show ?case using sys_create.IH p unfolding stacks_held_def by (simp del: fun_upd_apply) auto
next
  case (sys_create_null s h own e s' h')
  then have inv: "sched_ok s" "kheap.heap_run lo hi h own" by (auto simp: stacks_held_def)
  from inv(1) sys_create_null(2) show ?case
  proof (cases rule: thread_create_cases)
    case refused
    then show ?thesis using sys_create_null.IH by simp
  next
    case no_stack
    then show ?thesis
      using sys_create_null.IH kheap.alloc_null [OF inv(2)] by (auto simp: stacks_held_def)
  qed simp
next
  case (sys_yield s h own e s')
  then show ?case using thread_yield_keeps [of s e s'] by (auto simp: stacks_held_def)
next
  case (sys_alloc s h own n p h')
  then have "kheap.heap_run lo hi h own" by (simp add: stacks_held_def)
  then show ?case
    using sys_alloc kheap.alloc_fresh [of lo hi h own n p h'] kheap.alloc_ok [of lo hi h own n p h']
    unfolding stacks_held_def by (simp del: fun_upd_apply) auto
next
  case (sys_free s h own p h')
  then show ?case
    using kheap.dealloc [of lo hi h own p h'] unfolding stacks_held_def
    by (simp del: fun_upd_apply) auto
qed

text \<open>
  C23. Thread stacks: in every state that the scheduler and the heap reach together, each thread
  has a stack of 4096 bytes inside the heap, the stacks of two threads do not overlap, and no
  stack overlaps another heap range in use.
\<close>

theorem sched_stacks_disjoint:
  assumes "sys_run lo hi s h own"
  shows "distinct (stacks s) \<and> length (stacks s) = unat (thread_count s) \<and>
    (\<forall>p\<in>set (stacks s). lo \<le> unat p \<and> unat p + 4096 \<le> hi \<and>
      (\<forall>q n. q \<noteq> p \<and> own q = Some n \<longrightarrow> unat p + 4096 \<le> unat q \<or> unat q + unat n \<le> unat p))"
proof -
  have inv: "sched_ok s" "kheap.heap_run lo hi h own" "distinct (stacks s)"
    "\<forall>p\<in>set (stacks s). own p = Some THREAD_STACK_SIZE"
    using sys_run_inv [OF assms] by (auto simp: stacks_held_def)
  have "length (stacks s) = unat (thread_count s)"
    using inv(1) sched_counts(1) [OF inv(1)] by (simp add: stacks_def sched_ok_def)
  moreover have "lo \<le> unat p \<and> unat p + 4096 \<le> hi" if "p \<in> set (stacks s)" for p
    using kheap.owned_inside [OF inv(2)] inv(4) that by force
  moreover have "unat p + 4096 \<le> unat q \<or> unat q + unat n \<le> unat p"
    if "p \<in> set (stacks s)" "q \<noteq> p" "own q = Some n" for p q n
    using kheap.owned_disjoint [OF inv(2), of p _ q n] inv(4) that by force
  ultimately show ?thesis using inv(3) by blast
qed

definition boot_heap :: kmem where
  "boot_heap = kmem_init \<lparr>g_head = 0, hdrs = Map.empty\<rparr> 0x10000 0x10000"

definition boot_sched :: sched where
  "boot_sched = thread_system_init \<lparr>threads =
     replicate 16 \<lparr>th_entry = 0, th_stack = 0, th_state = THREAD_READY\<rparr>,
     thread_count = 0, current_thread = 0\<rparr>"

lemma boot_heap_run: "kheap.heap_run 0x10000 0x20000 boot_heap Map.empty"
proof (rule kheap.start)
  have "heap_is boot_heap 0x10000 [(65512, True)] 0x20000"
    using kmem_init_heap [of "0x10000" "0x10000"] by (simp add: boot_heap_def)
  moreover have "live 0x10000 [(65512, True)] = Map.empty" by (auto simp: fun_eq_iff)
  ultimately show "kmem_rep 0x10000 0x20000 boot_heap Map.empty" by (auto simp: kmem_rep_def)
qed

theorem sched_stacks_disjoint_witness:
  "\<exists>s h. thread_create boot_sched boot_heap 0x500 = Some (Some 0, s, h) \<and> stacks s = [0x10018] \<and>
     unat (thread_count s) = 1 \<and> distinct (stacks s)"
proof -
  have run: "sys_run 0x10000 0x20000 boot_sched boot_heap Map.empty"
    unfolding boot_sched_def by (rule sys_start [OF boot_heap_run]) simp
  obtain h where h: "kmalloc boot_heap THREAD_STACK_SIZE = Some (0x10018, h)"
    using kmem_placement_first [of "0x10000" "0x10000" 4096] by (auto simp: boot_heap_def)
  then obtain s where s: "thread_create boot_sched boot_heap 0x500 = Some (Some 0, s, h)"
    "stacks s = [0x10018]"
    by (auto simp: thread_create_def boot_sched_def thread_system_init_def Let_def stacks_def take_Suc_conv_app_nth)
  from sched_stacks_disjoint [OF sys_create [OF run s(1)]] s show ?thesis by auto
qed

end
