(* ===== verification/Sync.thy ===== *)
theory Sync
  imports C_Prelude
begin

text \<open>
  The synchronisation primitives of \<open>src/kernel/sync\<close>: spinlock, mutex and the lock depth
  counter.

  The GCC builtins \<open>__sync_lock_test_and_set\<close> (store 1, return the old value, atomically) and
  \<open>__sync_lock_release\<close> (store 0) are the atomic steps. A lock operation alone is modelled as a
  loop, in which a lock that nobody releases gives no result. Several processors are modelled by
  interleaving the atomic steps.
\<close>

section \<open>Model\<close>

record mcs_spinlock =
  spin_locked :: u32

record mcs_mutex =
  mtx_locked :: u32

definition sync_lock_test_and_set :: "u32 \<Rightarrow> u32 \<Rightarrow> u32 \<times> u32" where
  "sync_lock_test_and_set cell v = (cell, v)"

definition sync_lock_release :: "u32 \<Rightarrow> u32" where
  "sync_lock_release cell = 0"

definition mcs_spin_init :: "mcs_spinlock \<Rightarrow> mcs_spinlock" where
  "mcs_spin_init lock = lock\<lparr>spin_locked := 0\<rparr>"

definition mcs_spin_try_lock :: "mcs_spinlock \<Rightarrow> int \<times> mcs_spinlock" where
  "mcs_spin_try_lock lock =
     (let (old, new) = sync_lock_test_and_set (spin_locked lock) 1
      in (if old = 0 then 1 else 0, lock\<lparr>spin_locked := new\<rparr>))"

partial_function (option) mcs_spin_lock :: "mcs_spinlock \<Rightarrow> mcs_spinlock option" where
  "mcs_spin_lock lock =
     (if fst (mcs_spin_try_lock lock) = 0 then mcs_spin_lock (snd (mcs_spin_try_lock lock))
      else Some (snd (mcs_spin_try_lock lock)))"

definition mcs_spin_unlock :: "mcs_spinlock \<Rightarrow> mcs_spinlock" where
  "mcs_spin_unlock lock = lock\<lparr>spin_locked := sync_lock_release (spin_locked lock)\<rparr>"

definition mcs_mutex_init :: "mcs_mutex \<Rightarrow> mcs_mutex" where
  "mcs_mutex_init mutex = mutex\<lparr>mtx_locked := 0\<rparr>"

text \<open>One evaluation of the loop condition of \<open>mcs_mutex_lock\<close>: the old value, and the new lock.\<close>

definition mutex_attempt :: "mcs_mutex \<Rightarrow> u32 \<times> mcs_mutex" where
  "mutex_attempt mutex =
     (let (old, new) = sync_lock_test_and_set (mtx_locked mutex) 1 in (old, mutex\<lparr>mtx_locked := new\<rparr>))"

partial_function (option) mcs_mutex_lock :: "mcs_mutex \<Rightarrow> mcs_mutex option" where
  "mcs_mutex_lock mutex =
     (if fst (mutex_attempt mutex) \<noteq> 0 then mcs_mutex_lock (snd (mutex_attempt mutex))
      else Some (snd (mutex_attempt mutex)))"

definition mcs_mutex_unlock :: "mcs_mutex \<Rightarrow> mcs_mutex" where
  "mcs_mutex_unlock mutex = mutex\<lparr>mtx_locked := sync_lock_release (mtx_locked mutex)\<rparr>"

definition m12_lockdep_acquire :: "u32 \<Rightarrow> u32" where
  "m12_lockdep_acquire m12_lock_depth = m12_lock_depth + 1"

definition m12_lockdep_release :: "u32 \<Rightarrow> u32" where
  "m12_lockdep_release m12_lock_depth = (if 0 < m12_lock_depth then m12_lock_depth - 1 else m12_lock_depth)"

definition m12_lockdep_depth :: "u32 \<Rightarrow> u32" where
  "m12_lockdep_depth m12_lock_depth = m12_lock_depth"

lemmas lock_defs [model_defs] = sync_lock_test_and_set_def sync_lock_release_def mcs_spin_init_def
  mcs_spin_try_lock_def mcs_spin_unlock_def mcs_mutex_init_def mutex_attempt_def mcs_mutex_unlock_def

section \<open>The contract of a lock\<close>

text \<open>
  An atomic attempt takes a free lock and leaves a held one held; unlocking frees it. On top of
  it, \<open>lock_step\<close> interleaves the processors: each wants the lock, attempts it until it succeeds,
  works in its critical section, and unlocks.
\<close>

datatype phase = Outside | Waiting | Critical

locale atomic_lock =
  fixes valid :: "'l \<Rightarrow> bool"
    and free :: "'l \<Rightarrow> bool"
    and attempt :: "'l \<Rightarrow> bool \<times> 'l"
    and unlock :: "'l \<Rightarrow> 'l"
  assumes attempt_free: "fst (attempt l) = free l"
    and attempt_held: "\<not> free (snd (attempt l))"
    and unlock_free: "free (unlock l)"
    and attempt_valid: "valid l \<Longrightarrow> valid (snd (attempt l))"
    and unlock_valid: "valid (unlock l)"
begin

inductive lock_step :: "'l \<times> ('p \<Rightarrow> phase) \<Rightarrow> 'l \<times> ('p \<Rightarrow> phase) \<Rightarrow> bool" where
  want: "c p = Outside \<Longrightarrow> lock_step (l, c) (l, c(p := Waiting))"
| enter: "c p = Waiting \<Longrightarrow> attempt l = (True, l') \<Longrightarrow> lock_step (l, c) (l', c(p := Critical))"
| spin: "c p = Waiting \<Longrightarrow> attempt l = (False, l') \<Longrightarrow> lock_step (l, c) (l', c)"
| leave: "c p = Critical \<Longrightarrow> lock_step (l, c) (unlock l, c(p := Outside))"

definition lock_inv :: "'l \<times> ('p \<Rightarrow> phase) \<Rightarrow> bool" where
  "lock_inv s \<longleftrightarrow> (case s of (l, c) \<Rightarrow>
     (free l \<longleftrightarrow> (\<forall>p. c p \<noteq> Critical)) \<and> (\<forall>p q. c p = Critical \<and> c q = Critical \<longrightarrow> p = q))"

lemma lock_inv_step: "lock_step s s' \<Longrightarrow> lock_inv s \<Longrightarrow> lock_inv s'"
proof (induction rule: lock_step.induct)
  case (want c p l)
  then show ?case by (auto simp: lock_inv_def split: if_splits) (metis phase.distinct)+
next
  case (enter c p l l')
  then show ?case using attempt_free [of l] attempt_held [of l]
    by (auto simp: lock_inv_def split: if_splits)
next
  case (spin c p l l')
  then show ?case using attempt_free [of l] attempt_held [of l] by (auto simp: lock_inv_def)
next
  case (leave c p l)
  then show ?case using unlock_free [of l] by (auto simp: lock_inv_def split: if_splits)
qed

lemma lock_inv_steps: "lock_step\<^sup>*\<^sup>* s s' \<Longrightarrow> lock_inv s \<Longrightarrow> lock_inv s'"
  by (induction rule: rtranclp_induct) (auto dest: lock_inv_step)

lemma lock_steps_valid: "lock_step\<^sup>*\<^sup>* (l, c) (l', c') \<Longrightarrow> valid l \<Longrightarrow> valid l'"
proof (induction rule: rtranclp_induct2)
  case (step l1 c1 l2 c2)
  from step(2,3,4) show ?case
    using unlock_valid attempt_valid [of l1] by (cases rule: lock_step.cases) auto
qed

lemma lock_inv_start: "free l \<Longrightarrow> lock_inv (l, \<lambda>p. Outside)"
  by (simp add: lock_inv_def)

lemma mutual_exclusion:
  assumes "free l" "lock_step\<^sup>*\<^sup>* (l, \<lambda>p. Outside) (l', c)" "c p = Critical" "c q = Critical"
  shows "p = q"
  using lock_inv_steps [OF assms(2) lock_inv_start [OF assms(1)]] assms(3,4)
  by (auto simp: lock_inv_def)

text \<open>No deadlock: a waiting processor is at most two steps of the system from its critical section.\<close>

lemma can_enter:
  assumes "free l" "lock_step\<^sup>*\<^sup>* (l, \<lambda>p. Outside) (l', c)" "c p = Waiting"
  shows "\<exists>l'' c'. lock_step\<^sup>*\<^sup>* (l', c) (l'', c') \<and> c' p = Critical"
proof -
  have inv: "lock_inv (l', c)" using lock_inv_steps [OF assms(2) lock_inv_start [OF assms(1)]] .
  have go: "\<exists>l'' c'. lock_step (k, d) (l'', c') \<and> c' p = Critical" if "free k" "d p = Waiting" for k d
    using that attempt_free [of k] enter [of d p k "snd (attempt k)"]
    by (metis fun_upd_same prod.collapse)
  show ?thesis
  proof (cases "free l'")
    case True
    then show ?thesis using go assms(3) by blast
  next
    case False
    then obtain q where q: "c q = Critical" using inv by (auto simp: lock_inv_def)
    then have "lock_step (l', c) (unlock l', c(q := Outside))" by (rule leave)
    moreover have "(c(q := Outside)) p = Waiting" using q assms(3) by auto
    ultimately show ?thesis
      using go [OF unlock_free, of "c(q := Outside)" l'] by (meson converse_rtranclp_into_rtranclp r_into_rtranclp)
  qed
qed

end

definition spin_attempt :: "mcs_spinlock \<Rightarrow> bool \<times> mcs_spinlock" where
  "spin_attempt lock = apfst (\<lambda>r. r \<noteq> 0) (mcs_spin_try_lock lock)"

definition mutex_try :: "mcs_mutex \<Rightarrow> bool \<times> mcs_mutex" where
  "mutex_try m = apfst (\<lambda>old. old = 0) (mutex_attempt m)"

interpretation spin: atomic_lock "\<lambda>l. spin_locked l \<in> {0, 1}" "\<lambda>l. spin_locked l = 0" spin_attempt mcs_spin_unlock
  by unfold_locales (auto simp: spin_attempt_def lock_defs)

interpretation mutex: atomic_lock "\<lambda>m. mtx_locked m \<in> {0, 1}" "\<lambda>m. mtx_locked m = 0" mutex_try mcs_mutex_unlock
  by unfold_locales (auto simp: mutex_try_def lock_defs)

section \<open>Properties\<close>

text \<open>
  C27. The spinlock under any interleaving of any number of processors that lock and unlock it:
  after \<open>mcs_spin_init\<close> at most one processor is in its critical section, the lock word is 1
  exactly while one is and 0 otherwise, and a processor that waits can always still enter.
\<close>

theorem spin_mutual_exclusion:
  assumes "spin.lock_step\<^sup>*\<^sup>* (mcs_spin_init l0, \<lambda>p. Outside) (l, c)"
  shows "(\<forall>p q. c p = Critical \<and> c q = Critical \<longrightarrow> p = q) \<and>
    spin_locked l = (if \<exists>p. c p = Critical then 1 else 0) \<and>
    (\<forall>p. c p = Waiting \<longrightarrow> (\<exists>l' c'. spin.lock_step\<^sup>*\<^sup>* (l, c) (l', c') \<and> c' p = Critical))"
proof -
  have free: "spin_locked (mcs_spin_init l0) = 0" by (simp add: lock_defs)
  have inv: "spin.lock_inv (l, c)"
    by (rule spin.lock_inv_steps [OF assms spin.lock_inv_start [OF free]])
  moreover have "spin_locked l \<in> {0, 1}" using spin.lock_steps_valid [OF assms] free by simp
  ultimately show ?thesis
    using spin.can_enter [OF free assms] unfolding spin.lock_inv_def by auto
qed

theorem spin_mutual_exclusion_witness:
  "spin.lock_step\<^sup>*\<^sup>* (mcs_spin_init \<lparr>spin_locked = 7\<rparr>, \<lambda>p :: bool. Outside)
     (\<lparr>spin_locked = 1\<rparr>, (\<lambda>p. Outside)(True := Critical)) \<and> spin_locked \<lparr>spin_locked = 1\<rparr> = 1"
proof -
  let ?c = "\<lambda>p :: bool. Outside"
  have "spin.lock_step (mcs_spin_init \<lparr>spin_locked = 7\<rparr>, ?c) (mcs_spin_init \<lparr>spin_locked = 7\<rparr>, ?c(True := Waiting))"
    by (rule spin.want) simp
  moreover have "spin.lock_step (mcs_spin_init \<lparr>spin_locked = 7\<rparr>, ?c(True := Waiting))
      (\<lparr>spin_locked = 1\<rparr>, ?c(True := Waiting, True := Critical))"
    by (rule spin.enter) (simp_all add: spin_attempt_def lock_defs)
  ultimately have run: "spin.lock_step\<^sup>*\<^sup>* (mcs_spin_init \<lparr>spin_locked = 7\<rparr>, ?c)
      (\<lparr>spin_locked = 1\<rparr>, ?c(True := Critical))"
    by (simp add: converse_rtranclp_into_rtranclp)
  then show ?thesis using spin_mutual_exclusion [OF run] by simp
qed

text \<open>
  C28. The mutex under any interleaving: after \<open>mcs_mutex_init\<close> at most one processor is in its
  critical section, the lock word is 1 exactly while one is, and a processor that waits can
  always still enter.
\<close>

theorem mutex_mutual_exclusion:
  assumes "mutex.lock_step\<^sup>*\<^sup>* (mcs_mutex_init m0, \<lambda>p. Outside) (m, c)"
  shows "(\<forall>p q. c p = Critical \<and> c q = Critical \<longrightarrow> p = q) \<and>
    mtx_locked m = (if \<exists>p. c p = Critical then 1 else 0) \<and>
    (\<forall>p. c p = Waiting \<longrightarrow> (\<exists>m' c'. mutex.lock_step\<^sup>*\<^sup>* (m, c) (m', c') \<and> c' p = Critical))"
proof -
  have free: "mtx_locked (mcs_mutex_init m0) = 0" by (simp add: lock_defs)
  have inv: "mutex.lock_inv (m, c)"
    by (rule mutex.lock_inv_steps [OF assms mutex.lock_inv_start [OF free]])
  moreover have "mtx_locked m \<in> {0, 1}" using mutex.lock_steps_valid [OF assms] free by simp
  ultimately show ?thesis
    using mutex.can_enter [OF free assms] unfolding mutex.lock_inv_def by auto
qed

theorem mutex_mutual_exclusion_witness:
  "\<exists>m c. mutex.lock_step\<^sup>*\<^sup>* (mcs_mutex_init \<lparr>mtx_locked = 7\<rparr>, \<lambda>p :: bool. Outside) (m, c) \<and>
     c False = Waiting \<and> (\<exists>m' c'. mutex.lock_step\<^sup>*\<^sup>* (m, c) (m', c') \<and> c' False = Critical)"
proof -
  let ?m = "mcs_mutex_init \<lparr>mtx_locked = 7\<rparr>" and ?c = "\<lambda>p :: bool. Outside"
  have run: "mutex.lock_step\<^sup>*\<^sup>* (?m, ?c) (?m, ?c(False := Waiting))"
    by (intro r_into_rtranclp mutex.want) simp
  then show ?thesis using mutex_mutual_exclusion [OF run] by (metis fun_upd_same)
qed

lemma spin_lock_held:
  assumes "mcs_spin_lock l = Some l'"
  shows "spin_locked l = 0"
proof (rule mcs_spin_lock.raw_induct [where P = "\<lambda>l l'. spin_locked l = 0", OF _ assms])
  fix f l l'
  assume "\<And>x y. f x = Some y \<Longrightarrow> spin_locked x = 0"
    and "(if fst (mcs_spin_try_lock l) = 0 then f (snd (mcs_spin_try_lock l))
      else Some (snd (mcs_spin_try_lock l))) = Some l'"
  then show "spin_locked l = 0" by (fastforce simp: lock_defs split: if_splits)
qed

lemma mutex_lock_held:
  assumes "mcs_mutex_lock m = Some m'"
  shows "mtx_locked m = 0"
proof (rule mcs_mutex_lock.raw_induct [where P = "\<lambda>m m'. mtx_locked m = 0", OF _ assms])
  fix f m m'
  assume "\<And>x y. f x = Some y \<Longrightarrow> mtx_locked x = 0"
    and "(if fst (mutex_attempt m) \<noteq> 0 then f (snd (mutex_attempt m))
      else Some (snd (mutex_attempt m))) = Some m'"
  then show "mtx_locked m = 0" by (fastforce simp: lock_defs split: if_splits)
qed

lemma spin_lock_free: "spin_locked l = 0 \<Longrightarrow> mcs_spin_lock l = Some (l\<lparr>spin_locked := 1\<rparr>)"
  by (subst mcs_spin_lock.simps) (simp add: lock_defs)

lemma mutex_lock_free: "mtx_locked m = 0 \<Longrightarrow> mcs_mutex_lock m = Some (m\<lparr>mtx_locked := 1\<rparr>)"
  by (subst mcs_mutex_lock.simps) (simp add: lock_defs)

text \<open>
  One processor alone: locking a free spinlock or mutex returns with the lock word 1 and
  unlocking frees it again; locking one that is held never returns, so a second lock by the holder
  is a deadlock.
\<close>

lemma lock_sequential:
  "mcs_spin_lock l = (if spin_locked l = 0 then Some (l\<lparr>spin_locked := 1\<rparr>) else None) \<and>
   mcs_mutex_lock m = (if mtx_locked m = 0 then Some (m\<lparr>mtx_locked := 1\<rparr>) else None) \<and>
   spin_locked (mcs_spin_unlock l) = 0 \<and> mtx_locked (mcs_mutex_unlock m) = 0"
proof -
  have "mcs_spin_lock l = None" if "spin_locked l \<noteq> 0"
    using that spin_lock_held [of l] by (cases "mcs_spin_lock l") auto
  moreover have "mcs_mutex_lock m = None" if "mtx_locked m \<noteq> 0"
    using that mutex_lock_held [of m] by (cases "mcs_mutex_lock m") auto
  ultimately show ?thesis
    by (simp add: spin_lock_free mutex_lock_free mcs_spin_unlock_def mcs_mutex_unlock_def sync_lock_release_def)
qed

lemma lock_sequential_example:
  "mcs_spin_lock \<lparr>spin_locked = 0\<rparr> = Some \<lparr>spin_locked = 1\<rparr> \<and> mcs_spin_lock \<lparr>spin_locked = 1\<rparr> = None"
  using lock_sequential [of "\<lparr>spin_locked = 0\<rparr>"] lock_sequential [of "\<lparr>spin_locked = 1\<rparr>"] by simp

text \<open>The lock depth counter over a history of acquire (\<open>True\<close>) and release calls.\<close>

definition lockdep_run :: "bool list \<Rightarrow> u32 \<Rightarrow> u32" where
  "lockdep_run tr d = fold (\<lambda>a d. if a then m12_lockdep_acquire d else m12_lockdep_release d) tr d"

fun lockdep_spec :: "bool list \<Rightarrow> nat \<Rightarrow> nat" where
  "lockdep_spec [] d = d"
| "lockdep_spec (a # tr) d = lockdep_spec tr (if a then Suc d else d - 1)"

lemma lockdep_run_spec:
  "unat d + length tr < 2 ^ 32 \<Longrightarrow> unat (lockdep_run tr d) = lockdep_spec tr (unat d)"
proof (induction tr arbitrary: d)
  case (Cons a tr)
  have "unat (d + 1) = Suc (unat d)"
    using Cons.prems by (intro unat_plus_one [of _ "0xffffffff"]) (simp add: word_less_nat_alt)
  moreover have "unat (m12_lockdep_release d) = unat d - 1"
    using unat_minus_one [of d] by (auto simp: m12_lockdep_release_def word_gt_0)
  ultimately show ?case
    using Cons.IH [of "d + 1"] Cons.IH [of "m12_lockdep_release d"] Cons.prems
    by (auto simp: lockdep_run_def m12_lockdep_acquire_def)
qed (simp add: lockdep_run_def)

lemma lockdep_spec_matched:
  "\<forall>k\<le>length tr. count_list (take k tr) False \<le> d + count_list (take k tr) True \<Longrightarrow>
     lockdep_spec tr d = d + count_list tr True - count_list tr False"
proof (induction tr arbitrary: d)
  case (Cons a tr)
  have pre: "count_list (take (Suc k) (a # tr)) False \<le> d + count_list (take (Suc k) (a # tr)) True"
    if "k \<le> length tr" for k
    using Cons.prems that by (metis Suc_le_mono length_Cons)
  show ?case
  proof (cases a)
    case True
    then show ?thesis using Cons.IH [of "Suc d"] pre by auto
  next
    case False
    then have "0 < d" using pre [of 0] by simp
    moreover have "\<forall>k\<le>length tr. count_list (take k tr) False \<le> d - 1 + count_list (take k tr) True"
      using pre False \<open>0 < d\<close> by fastforce
    ultimately show ?thesis using Cons.IH [of "d - 1"] False by simp
  qed
qed simp

text \<open>
  The lock depth counter: over a history of fewer than 2^32 calls in which no release comes
  without an earlier acquire, it is the number of acquires minus the number of releases, so it
  returns to zero exactly when every acquire has been released. A release at depth zero has no effect.
\<close>

lemma lockdep_exact:
  assumes "length tr < 2 ^ 32"
    and "\<forall>k\<le>length tr. count_list (take k tr) False \<le> count_list (take k tr) True"
  shows "unat (m12_lockdep_depth (lockdep_run tr 0)) = count_list tr True - count_list tr False \<and>
    m12_lockdep_release 0 = 0"
  using lockdep_run_spec [of 0 tr] lockdep_spec_matched [of tr 0] assms
  by (simp add: m12_lockdep_depth_def m12_lockdep_release_def)

lemma lockdep_exact_example:
  "unat (m12_lockdep_depth (lockdep_run [True, True, False] 0)) = 1"
proof -
  have "\<forall>k\<le>length [True, True, False].
      count_list (take k [True, True, False]) False \<le> count_list (take k [True, True, False]) True"
    by (auto simp: le_Suc_eq numeral_eq_Suc)
  from lockdep_exact [OF _ this] show ?thesis by simp
qed

end
