(* ===== verification/Kmain.thy ===== *)
theory Kmain
  imports Isr Pmm Vmm Sched Sync
begin

text \<open>
  The kernel as a whole: \<open>src/kernel/core/kmain.c\<close>, which brings the components up in order,
  enables interrupts and calls the first thread, and the bodies of its four threads. The state
  is the machine of \<open>Interrupts\<close> extended by the static objects of all components. Addresses
  that the linker assigns, the assembly stubs and the page table register are a parameter \<open>img\<close>.

  A statement maps a kernel state to \<open>None\<close> (no defined result) or to a new state with the mark
  whether the statement \<open>Returns\<close> or \<open>Halts\<close>; a statement after a halt does not run.
\<close>

section \<open>Model\<close>

record kernel = cpu +
  kernel_pmm :: pmm_state
  g_map :: "vmm_mapping list"
  g_kmem :: kmem
  g_sched :: sched
  m12_boot_lock :: mcs_spinlock
  m12_boot_mutex :: mcs_mutex
  m12_boot_counter :: u64
  m12_lock_depth :: u32

record kernel_image =
  kernel_start :: u64
  kernel_end :: u64
  heap_address :: u64
  idt_address :: u64
  exception_stubs :: "u64 list"
  boot_mmu :: mmu
  entry_a :: u64
  entry_b :: u64
  entry_c :: u64
  entry_d :: u64

type_synonym statement = "kernel \<Rightarrow> (control \<times> kernel) option"

fun block :: "statement list \<Rightarrow> statement" where
  "block [] k = Some (Returns, k)"
| "block (s # ss) k = do {
     (c, k') \<leftarrow> s k;
     (case c of Returns \<Rightarrow> block ss k' | Halts \<Rightarrow> Some (Halts, k'))
   }"

text \<open>A statement that only runs the machine, and \<open>KERNEL_ASSERT\<close> in \<open>kmain.c\<close>.\<close>

definition call :: "(kernel, unit) state \<Rightarrow> statement" where
  "call c k = Some (Returns, snd (run_state c k))"

definition k_assert :: "device \<Rightarrow> int \<Rightarrow> string \<Rightarrow> (kernel \<Rightarrow> bool) \<Rightarrow> statement" where
  "k_assert dev line expr ok k =
     Some (run_state (kernel_assert dev ''kernel/core/kmain.c'' line expr (ok k) (State_Monad.return Returns)) k)"

subsection \<open>Self tests and heap bootstrap\<close>

definition m12_sync_selftest :: "device \<Rightarrow> statement" where
  "m12_sync_selftest dev = block
     [\<lambda>k. Some (Returns, k\<lparr>m12_boot_lock := mcs_spin_init (m12_boot_lock k)\<rparr>),
      \<lambda>k. Some (Returns, k\<lparr>m12_boot_mutex := mcs_mutex_init (m12_boot_mutex k)\<rparr>),
      \<lambda>k. do { l \<leftarrow> mcs_spin_lock (m12_boot_lock k); Some (Returns, k\<lparr>m12_boot_lock := l\<rparr>) },
      \<lambda>k. Some (Returns, k\<lparr>m12_boot_counter := m12_boot_counter k + 1\<rparr>),
      \<lambda>k. Some (Returns, k\<lparr>m12_boot_lock := mcs_spin_unlock (m12_boot_lock k)\<rparr>),
      \<lambda>k. do { l \<leftarrow> mcs_mutex_lock (m12_boot_mutex k); Some (Returns, k\<lparr>m12_boot_mutex := l\<rparr>) },
      \<lambda>k. Some (Returns, k\<lparr>m12_boot_counter := m12_boot_counter k + 1\<rparr>),
      \<lambda>k. Some (Returns, k\<lparr>m12_boot_mutex := mcs_mutex_unlock (m12_boot_mutex k)\<rparr>),
      \<lambda>k. Some (Returns, k\<lparr>m12_lock_depth := m12_lockdep_acquire (m12_lock_depth k)\<rparr>),
      k_assert dev 78 ''m12_lockdep_depth() == 1'' (\<lambda>k. m12_lockdep_depth (m12_lock_depth k) = 1),
      \<lambda>k. Some (Returns, k\<lparr>m12_lock_depth := m12_lockdep_release (m12_lock_depth k)\<rparr>),
      k_assert dev 84 ''m12_lockdep_depth() == 0'' (\<lambda>k. m12_lockdep_depth (m12_lock_depth k) = 0),
      call (log_writeln dev (Some ''[M12] sync selftest passed''))]"

text \<open>The size of a pointer in the x86-64 ABI.\<close>

abbreviation sizeof_uintptr_t :: nat where "sizeof_uintptr_t \<equiv> 8"

definition m5_selftest :: "device \<Rightarrow> kernel_image \<Rightarrow> statement" where
  "m5_selftest dev img = block
     [k_assert dev 95 ''__kernel_end > __kernel_start'' (\<lambda>k. kernel_start img < kernel_end img),
      k_assert dev 97 ''sizeof(uintptr_t) == 8u'' (\<lambda>k. sizeof_uintptr_t = 8),
      k_assert dev 99 ''sizeof(x86_64_idt_entry_t) == 16u'' (\<lambda>k. sizeof_x86_64_idt_entry_t = 16),
      k_assert dev 101 ''x86_64_idt_base_for_test() != 0u'' (\<lambda>k. x86_64_idt_base_for_test k \<noteq> 0),
      k_assert dev 103 ''x86_64_idt_limit_for_test() == 4095u'' (\<lambda>k. x86_64_idt_limit_for_test k = 4095),
      call (log_writeln dev (Some ''[M5] selftest: IDT invariants passed''))]"

abbreviation M8_BOOT_HEAP_SIZE :: u64 where "M8_BOOT_HEAP_SIZE \<equiv> 65536"

text \<open>\<open>kmalloc\<close> of \<open>n\<close> bytes, an assertion that it succeeded, and \<open>kfree\<close> of the result.\<close>

definition kmalloc_checked :: "device \<Rightarrow> int \<Rightarrow> string \<Rightarrow> u64 \<Rightarrow> statement" where
  "kmalloc_checked dev line expr n k = do {
     (p, h) \<leftarrow> kmalloc (g_kmem k) n;
     block [k_assert dev line expr (\<lambda>_. p \<noteq> 0),
            \<lambda>k. do { h' \<leftarrow> kfree (g_kmem k) p; Some (Returns, k\<lparr>g_kmem := h'\<rparr>) }]
       (k\<lparr>g_kmem := h\<rparr>)
   }"

definition m8_heap_bootstrap :: "device \<Rightarrow> kernel_image \<Rightarrow> statement" where
  "m8_heap_bootstrap dev img = block
     [\<lambda>k. Some (Returns, k\<lparr>g_kmem := kmem_init (g_kmem k) (heap_address img) M8_BOOT_HEAP_SIZE\<rparr>),
      kmalloc_checked dev 117 ''probe != 0'' 128,
      call (log_writeln dev (Some ''[M8] kmem initialized''))]"

subsection \<open>Boot\<close>

definition init_pmm :: "device \<Rightarrow> statement" where
  "init_pmm dev k = do {
     (ok, p) \<leftarrow> kernel_pmm_init (kernel_pmm k);
     k_assert dev 218 ''pmm_ok'' (\<lambda>_. ok) (k\<lparr>kernel_pmm := p\<rparr>)
   }"

definition init_vmm :: "device \<Rightarrow> statement" where
  "init_vmm dev k = do {
     (ok, g) \<leftarrow> vmm_map_page (g_map k) 0x400000 0x200000 VMM_WRITABLE;
     block [k_assert dev 235 ''map_ok'' (\<lambda>_. ok),
            call (log_writeln dev (Some ''[M7] vmm map ok'')),
            \<lambda>k. do {
              (found, phys, flags) \<leftarrow> vmm_query_page (g_map k) 0x400000 (Some 0) (Some 0);
              block [k_assert dev 250 ''query_ok'' (\<lambda>_. found),
                     call (log_write dev (Some ''[M7] vmm phys='')),
                     call (log_hex64 dev (the phys)),
                     call (log_writeln dev (Some ''''))] k
            }] (k\<lparr>g_map := g\<rparr>)
   }"

definition create_thread :: "device \<Rightarrow> int \<Rightarrow> string \<Rightarrow> u64 \<Rightarrow> statement" where
  "create_thread dev line expr entry k = do {
     (t, s, h) \<leftarrow> thread_create (g_sched k) (g_kmem k) entry;
     k_assert dev line expr (\<lambda>_. t \<noteq> None) (k\<lparr>g_sched := s, g_kmem := h\<rparr>)
   }"

text \<open>\<open>kmain\<close> up to the call of \<open>thread_yield\<close>.\<close>

definition kmain_boot :: "device \<Rightarrow> kernel_image \<Rightarrow> statement" where
  "kmain_boot dev img = block
     [call cpu_cli,
      call log_init,
      call (log_write dev (Some MCSOS_NAME)),
      call (log_write dev (Some '' '')),
      call (log_write dev (Some MCSOS_VERSION)),
      call (log_write dev (Some '' '')),
      call (log_write dev (Some MCSOS_MILESTONE)),
      call (log_writeln dev (Some '' [M12] synchronization subsystem'')),
      call (log_key_value_hex64 dev (Some ''kernel_start'') (kernel_start img)),
      call (log_key_value_hex64 dev (Some ''kernel_end'') (kernel_end img)),
      init_pmm dev,
      call (log_writeln dev (Some ''[M6] pmm initialized'')),
      init_vmm dev,
      call (log_write dev (Some ''[M7] cr3='')),
      call (log_hex64 dev (vmm_read_cr3 (boot_mmu img))),
      call (log_writeln dev (Some '''')),
      m8_heap_bootstrap dev img,
      m12_sync_selftest dev,
      \<lambda>k. Some (Returns, k\<lparr>g_sched := thread_system_init (g_sched k)\<rparr>),
      create_thread dev 269 ''ta != 0'' (entry_a img),
      create_thread dev 274 ''tb != 0'' (entry_b img),
      create_thread dev 279 ''tc != 0'' (entry_c img),
      create_thread dev 284 ''td != 0'' (entry_d img),
      call (log_writeln dev (Some ''[M9] scheduler initialized'')),
      x86_64_idt_init dev (idt_address img) (exception_stubs img),
      call (log_writeln dev (Some ''[M5] idt: loaded'')),
      m5_selftest dev img,
      call (pic_remap dev PIC_MASTER_OFFSET PIC_SLAVE_OFFSET),
      call pic_mask_all,
      call (pic_unmask_irq dev 0),
      call (pit_configure_hz 100),
      call (log_writeln dev (Some ''[M5] sti: enabling interrupts'')),
      call cpu_sti]"

subsection \<open>Threads\<close>

text \<open>
  One pass through the loop of a thread, up to its call of \<open>thread_yield\<close>. The delay loop of threads A
  and B has no effect on the state.
\<close>

definition thread_pass :: "device \<Rightarrow> kernel_image \<Rightarrow> u64 \<Rightarrow> statement" where
  "thread_pass dev img entry =
     (if entry = entry_a img then block
        [call (log_writeln dev (Some ''[M9] thread A running'')), kmalloc_checked dev 132 ''p != 0'' 64]
      else if entry = entry_b img then block
        [call (log_writeln dev (Some ''[M9] thread B running'')), kmalloc_checked dev 153 ''p != 0'' 128]
      else if entry = entry_c img then block [call (log_writeln dev (Some ''[M9] thread C running''))]
      else if entry = entry_d img then block [call (log_writeln dev (Some ''[M9] thread D running''))]
      else (\<lambda>k. None))"

text \<open>
  What the processor does next: run the thread function that was called last, wait in the idle
  loop of \<open>kmain\<close>, or nothing any more after a panic. When \<open>thread_yield\<close> calls no thread it
  returns to its caller. \<open>yield_from\<close> says which function runs next; the activation of the caller, which stays on the
  stack, is kept by \<open>yield_on\<close> of \<open>Kernel_Stack\<close>.
\<close>

datatype activity = Runs u64 | Idles | Halted

definition yield_from :: "activity \<Rightarrow> kernel \<Rightarrow> (activity \<times> kernel) option" where
  "yield_from caller k = do {
     (e, s) \<leftarrow> thread_yield (g_sched k);
     Some (case e of Some entry \<Rightarrow> Runs entry | None \<Rightarrow> caller, k\<lparr>g_sched := s\<rparr>)
   }"

definition kmain :: "device \<Rightarrow> kernel_image \<Rightarrow> kernel \<Rightarrow> (activity \<times> kernel) option" where
  "kmain dev img k = do {
     (c, k') \<leftarrow> kmain_boot dev img k;
     (case c of Halts \<Rightarrow> Some (Halted, k') | Returns \<Rightarrow> yield_from Idles k')
   }"

definition run_thread :: "device \<Rightarrow> kernel_image \<Rightarrow> u64 \<Rightarrow> kernel \<Rightarrow> (activity \<times> kernel) option" where
  "run_thread dev img entry k = do {
     (c, k') \<leftarrow> thread_pass dev img entry k;
     (case c of Halts \<Rightarrow> Some (Halted, k') | Returns \<Rightarrow> yield_from (Runs entry) k')
   }"

section \<open>Reasoning about statements\<close>

text \<open>\<open>triple P s Q\<close>: from every state with \<open>P\<close> the statement \<open>s\<close> is defined, returns, and ends in \<open>Q\<close>.\<close>

definition triple :: "(kernel \<Rightarrow> bool) \<Rightarrow> statement \<Rightarrow> (kernel \<Rightarrow> bool) \<Rightarrow> bool" where
  "triple P s Q \<longleftrightarrow> (\<forall>k. P k \<longrightarrow> (\<exists>k'. s k = Some (Returns, k') \<and> Q k'))"

lemma tripleI: "(\<And>k. P k \<Longrightarrow> \<exists>k'. s k = Some (Returns, k') \<and> Q k') \<Longrightarrow> triple P s Q"
  by (simp add: triple_def)

lemma tripleD: "triple P s Q \<Longrightarrow> P k \<Longrightarrow> \<exists>k'. s k = Some (Returns, k') \<and> Q k'"
  by (simp add: triple_def)

lemma triple_Nil: "triple P (block []) P"
  by (simp add: triple_def)

lemma triple_Cons:
  assumes "triple P s R" "triple R (block ss) Q"
  shows "triple P (block (s # ss)) Q"
  using assms by (fastforce simp: triple_def)

lemma triple_post: "triple P s Q \<Longrightarrow> (\<And>k. Q k \<Longrightarrow> R k) \<Longrightarrow> triple P s R"
  by (fastforce simp: triple_def)

lemma triple_assert: "(\<And>k. P k \<Longrightarrow> ok k) \<Longrightarrow> triple P (k_assert dev line expr ok) P"
  by (simp add: triple_def k_assert_def kernel_assert_def)

lemma triple_update: "(\<And>k. P k \<Longrightarrow> Q (f k)) \<Longrightarrow> triple P (\<lambda>k. Some (Returns, f k)) Q"
  by (simp add: triple_def)

text \<open>
  The assertion used throughout: the console is up, and each component satisfies a predicate of
  its own. \<open>H\<close> speaks of the port trace and has to survive accesses to the serial port.
\<close>

type_synonym locks = "mcs_spinlock \<times> mcs_mutex \<times> u64 \<times> u32"
type_synonym idt_regs = "idt_entry list \<times> u16 \<times> u64 \<times> (u16 \<times> u64) option \<times> u64 \<times> u64"

definition locks_of :: "kernel \<Rightarrow> locks" where
  "locks_of k = (m12_boot_lock k, m12_boot_mutex k, m12_boot_counter k, m12_lock_depth k)"

definition idt_of :: "kernel \<Rightarrow> idt_regs" where
  "idt_of k = (idt k, idtr_limit k, idtr_base k, loaded_idtr k, g_ticks k, trap_count k)"

definition stage ::
  "(pmm_state \<Rightarrow> bool) \<Rightarrow> (vmm_mapping list \<Rightarrow> bool) \<Rightarrow> (kmem \<Rightarrow> bool) \<Rightarrow> (sched \<Rightarrow> bool) \<Rightarrow> (locks \<Rightarrow> bool) \<Rightarrow>
   (idt_regs \<Rightarrow> bool) \<Rightarrow> (u64 \<Rightarrow> bool) \<Rightarrow> (io_event list \<Rightarrow> bool) \<Rightarrow> kernel \<Rightarrow> bool" where
  "stage A B C D E F G H k \<longleftrightarrow> console_up k \<and> A (kernel_pmm k) \<and> B (g_map k) \<and> C (g_kmem k) \<and> D (g_sched k) \<and>
     E (locks_of k) \<and> F (idt_of k) \<and> G (rflags k) \<and> H (io_trace k)"

lemmas stage_defs = stage_def locks_of_def idt_of_def console_up_def

definition serial_stable :: "(io_event list \<Rightarrow> bool) \<Rightarrow> bool" where
  "serial_stable H \<longleftrightarrow> (\<forall>tr es. H tr \<longrightarrow> serial_only es \<longrightarrow> H (tr @ es))"

lemma serial_stable_True: "serial_stable (\<lambda>tr. True)"
  by (simp add: serial_stable_def)

lemma triple_say:
  assumes "serial_stable H" "prints dev c t"
  shows "triple (stage A B C D E F G H) (call c) (stage A B C D E F G H)"
proof (rule tripleI)
  fix k assume k: "stage A B C D E F G H k"
  then have "console_up k" by (simp add: stage_def)
  from prints_run [OF assms(2) this] obtain es where es: "run_state c k = ((), k\<lparr>io_trace := io_trace k @ es\<rparr>)"
    "serial_only es" "console_up (k\<lparr>io_trace := io_trace k @ es\<rparr>)" by blast
  have "H (io_trace k @ es)" using assms(1) k es(2) by (simp add: serial_stable_def stage_def)
  with k es(3) have "stage A B C D E F G H (k\<lparr>io_trace := io_trace k @ es\<rparr>)" by (simp add: stage_defs)
  with es(1) show "\<exists>k'. call c k = Some (Returns, k') \<and> stage A B C D E F G H k'" by (simp add: call_def)
qed

named_theorems say \<open>statements that only print\<close>

lemma say_line [say]:
  "serial_stable H \<Longrightarrow> CHR 0x00 \<notin> set s \<Longrightarrow>
     triple (stage A B C D E F G H) (call (log_writeln dev (Some s))) (stage A B C D E F G H)"
  by (rule triple_say [OF _ prints_log_writeln])

lemma say_text [say]:
  "serial_stable H \<Longrightarrow> CHR 0x00 \<notin> set s \<Longrightarrow>
     triple (stage A B C D E F G H) (call (log_write dev (Some s))) (stage A B C D E F G H)"
  by (rule triple_say [OF _ prints_log_write])

lemma say_hex [say]:
  "serial_stable H \<Longrightarrow> triple (stage A B C D E F G H) (call (log_hex64 dev v)) (stage A B C D E F G H)"
  by (rule triple_say [OF _ prints_hex64])

lemma say_key [say]:
  "serial_stable H \<Longrightarrow> CHR 0x00 \<notin> set s \<Longrightarrow>
     triple (stage A B C D E F G H) (call (log_key_value_hex64 dev (Some s) v)) (stage A B C D E F G H)"
  by (rule triple_say [OF _ prints_key_value])

text \<open>A block of statements that all keep \<open>P\<close>.\<close>

lemma triple_same: "(\<And>s. s \<in> set ss \<Longrightarrow> triple P s P) \<Longrightarrow> triple P (block ss) P"
  by (induction ss) (auto intro: triple_Nil triple_Cons)

section \<open>The components at boot\<close>

lemma boot_sync:
  assumes "serial_stable H" "\<And>l m n d. E (l, m, n, d) \<Longrightarrow> d = 0"
  shows "triple (stage A B C D E F G H) (m12_sync_selftest dev)
    (stage A B C D (\<lambda>(l, m, n, d). spin_locked l = 0 \<and> mtx_locked m = 0 \<and> d = 0 \<and> (\<exists>l' m' n'. E (l', m', n', 0) \<and> n = n' + 2)) F G H)"
proof (rule tripleI)
  let ?E = "\<lambda>(l, m, n, d). spin_locked l = 0 \<and> mtx_locked m = 0 \<and> d = 0 \<and> (\<exists>l' m' n'. E (l', m', n', 0) \<and> n = n' + 2)"
  fix k assume k: "stage A B C D E F G H k"
  then have d: "m12_lock_depth k = 0" using assms(2) by (auto simp: stage_defs)
  let ?k = "k\<lparr>m12_boot_lock := (m12_boot_lock k)\<lparr>spin_locked := 0\<rparr>, m12_boot_counter := 2 + m12_boot_counter k,
      m12_boot_mutex := (m12_boot_mutex k)\<lparr>mtx_locked := 0\<rparr>, m12_lock_depth := 0\<rparr>"
  have "stage A B C D ?E F G H ?k" using k d by (auto simp: stage_defs)
  moreover have "prints dev (log_writeln dev (Some ''[M12] sync selftest passed'') :: (kernel, unit) state)
      (crlf (''[M12] sync selftest passed'' @ [CHR 0x0A]))"
    by (rule prints_log_writeln) simp
  ultimately obtain k' where "call (log_writeln dev (Some ''[M12] sync selftest passed'')) ?k = Some (Returns, k')"
    "stage A B C D ?E F G H k'" using triple_say [OF assms(1)] tripleD by blast
  moreover have "m12_sync_selftest dev k = call (log_writeln dev (Some ''[M12] sync selftest passed'')) ?k"
    using d by (simp add: m12_sync_selftest_def mcs_spin_init_def mcs_mutex_init_def spin_lock_free mutex_lock_free
        mcs_spin_unlock_def mcs_mutex_unlock_def sync_lock_release_def k_assert_def kernel_assert_def
        m12_lockdep_acquire_def m12_lockdep_depth_def m12_lockdep_release_def call_def)
  ultimately show "\<exists>k'. m12_sync_selftest dev k = Some (Returns, k') \<and> stage A B C D ?E F G H k'" by simp
qed

definition boot_pmm_state :: "pmm_state \<Rightarrow> bool" where
  "boot_pmm_state p \<longleftrightarrow> pmm_ok p \<and> free_set p = {256..<1024} \<and> free_frames p = 767 \<and> used_frames p = 15617"

lemma boot_pmm: "triple (stage A B C D E F G H) (init_pmm dev) (stage boot_pmm_state B C D E F G H)"
proof (rule tripleI)
  fix k assume k: "stage A B C D E F G H k"
  obtain p where "kernel_pmm_init (kernel_pmm k) = Some (True, p)" "pmm_ok p" "free_set p = {256..<1024}"
    "free_frames p = 767" "used_frames p = 15617"
    using kernel_pmm_ready by blast
  with k show "\<exists>k'. init_pmm dev k = Some (Returns, k') \<and> stage boot_pmm_state B C D E F G H k'"
    by (simp add: init_pmm_def k_assert_def kernel_assert_def stage_defs boot_pmm_state_def)
qed

text \<open>The heap at boot starts at \<open>lo\<close> and has 65536 bytes.\<close>

definition heap_blocks :: "nat \<Rightarrow> blocks \<Rightarrow> kmem \<Rightarrow> bool" where
  "heap_blocks lo bs h \<longleftrightarrow> heap_is h lo bs (lo + 65536)"

lemma fit_live: "fit n a bs = Some (p, bs') \<Longrightarrow> \<exists>m. live a bs' p = Some m"
  using fit_correct [of n a bs p bs'] by auto

lemma boot_probe:
  assumes "n \<noteq> 0" "fit (unat n) lo bs = Some (p, bs1)" "release p lo bs1 = Some bs2"
  shows "triple (stage A B (heap_blocks lo bs) D E F G H) (kmalloc_checked dev line expr n)
    (stage A B (heap_blocks lo bs2) D E F G H)"
proof (rule tripleI)
  fix k assume k: "stage A B (heap_blocks lo bs) D E F G H k"
  then have h: "heap_is (g_kmem k) lo bs (lo + 65536)" by (simp add: stage_def heap_blocks_def)
  obtain h1 where h1: "kmalloc (g_kmem k) n = Some (addr p, h1)" "heap_is h1 lo bs1 (lo + 65536)"
    using kmalloc_fits [OF h assms(1)] assms(2) by auto
  obtain m where "live lo bs1 p = Some m" using fit_live [OF assms(2)] by blast
  then obtain h2 where h2: "kfree h1 (addr p) = Some h2" "heap_is h2 lo bs2 (lo + 65536)"
    using kfree_live [OF h1(2)] assms(3) by force
  have "addr p \<noteq> 0" using kmem_alloc_nonzero [OF h assms(2)] by simp
  then have "kmalloc_checked dev line expr n k = Some (Returns, k\<lparr>g_kmem := h2\<rparr>)"
    using h1(1) h2(1) by (simp add: kmalloc_checked_def k_assert_def kernel_assert_def)
  moreover have "stage A B (heap_blocks lo bs2) D E F G H (k\<lparr>g_kmem := h2\<rparr>)"
    using k h2(2) by (simp add: stage_defs heap_blocks_def)
  ultimately show "\<exists>k'. kmalloc_checked dev line expr n k = Some (Returns, k') \<and>
      stage A B (heap_blocks lo bs2) D E F G H k'" by blast
qed

text \<open>A scheduler with the threads \<open>es\<close>, thread \<open>c\<close> being the current one.\<close>

definition sched_threads :: "u64 list \<Rightarrow> nat \<Rightarrow> sched \<Rightarrow> bool" where
  "sched_threads es c s \<longleftrightarrow> sched_ok s \<and> unat (thread_count s) = length es \<and>
     map th_entry (take (length es) (threads s)) = es \<and> unat (current_thread s) = c"

lemma boot_thread:
  assumes "e \<noteq> 0" "length es < 16" "fit 4096 lo bs = Some (p, bs')"
  shows "triple (stage A B (heap_blocks lo bs) (sched_threads es 0) E F G H) (create_thread dev line expr e)
    (stage A B (heap_blocks lo bs') (sched_threads (es @ [e]) 0) E F G H)"
proof (rule tripleI)
  fix k assume k: "stage A B (heap_blocks lo bs) (sched_threads es 0) E F G H k"
  let ?s = "g_sched k"
  have h: "heap_is (g_kmem k) lo bs (lo + 65536)" and s: "sched_ok ?s" "unat (thread_count ?s) = length es"
    "map th_entry (take (length es) (threads ?s)) = es" "unat (current_thread ?s) = 0"
    using k by (auto simp: stage_def heap_blocks_def sched_threads_def)
  obtain h1 where h1: "kmalloc (g_kmem k) 4096 = Some (addr p, h1)" "heap_is h1 lo bs' (lo + 65536)"
    using kmalloc_fits [OF h, of 4096] assms(3) by auto
  have nz: "addr p \<noteq> 0" using kmem_alloc_nonzero [OF h assms(3)] by simp
  have len: "length (threads ?s) = 16" using s(1) by (simp add: sched_ok_def)
  have lt: "thread_count ?s < 16" using s(2) assms(2) by (simp add: word_less_nat_alt)
  define s' where "s' = ?s\<lparr>threads := (threads ?s)[length es :=
      \<lparr>th_entry = e, th_stack = addr p, th_state = THREAD_READY\<rparr>], thread_count := thread_count ?s + 1\<rparr>"
  have s': "thread_create ?s (g_kmem k) e = Some (Some (length es), s', h1)"
    "threads s' = (threads ?s)[length es := \<lparr>th_entry = e, th_stack = addr p, th_state = THREAD_READY\<rparr>]"
    "thread_count s' = thread_count ?s + 1" "current_thread s' = current_thread ?s"
    using assms(1,2) s(2) h1(1) nz len lt by (simp_all add: s'_def thread_create_def Let_def not_le [symmetric])
  have "sched_ok s'" using thread_create_cases [OF s(1) s'(1)] by (metis option.distinct(1))
  moreover have "unat (thread_count s') = Suc (length es)" using s'(3) s(2) unat_plus_one [OF lt] by simp
  moreover have "map th_entry (take (Suc (length es)) (threads s')) = es @ [e]"
    unfolding s'(2) using s(3) len assms(2) by (simp add: take_Suc_conv_app_nth)
  ultimately have "sched_threads (es @ [e]) 0 s'" using s(4) s'(4) by (simp add: sched_threads_def)
  with k h1(2) have "stage A B (heap_blocks lo bs') (sched_threads (es @ [e]) 0) E F G H (k\<lparr>g_sched := s', g_kmem := h1\<rparr>)"
    by (simp add: stage_defs heap_blocks_def)
  then show "\<exists>k'. create_thread dev line expr e k = Some (Returns, k') \<and>
      stage A B (heap_blocks lo bs') (sched_threads (es @ [e]) 0) E F G H k'"
    using s'(1) by (simp add: create_thread_def k_assert_def kernel_assert_def)
qed

definition boot_mapping :: "vmm_mapping list \<Rightarrow> bool" where
  "boot_mapping g \<longleftrightarrow> vmm_wf g \<and> translate g = [0x400000 \<mapsto> (0x200000, 3)]"

lemma boot_map_page:
  "\<exists>g. vmm_map_page bss_mappings 0x400000 0x200000 VMM_WRITABLE = Some (True, g) \<and> boot_mapping g"
proof -
  have m: "mappable 0x400000 0x200000" by (simp add: mappable_def vmm_is_canonical_def)
  obtain g where g: "vmm_map_page bss_mappings 0x400000 0x200000 VMM_WRITABLE = Some (True, g)" "vmm_wf g"
    "translate g = (translate bss_mappings)(0x400000 \<mapsto> (0x200000, VMM_WRITABLE OR VMM_PRESENT))"
    using vmm_map_new [OF bss_wf(1) bss_room(2) m, of VMM_WRITABLE] bss_room(1) by auto
  have "translate bss_mappings = Map.empty" using bss_room(2) by (simp add: fun_eq_iff)
  then show ?thesis using g by (simp add: boot_mapping_def)
qed

lemma boot_query:
  "boot_mapping g \<Longrightarrow> vmm_query_page g 0x400000 (Some 0) (Some 0) = Some (True, Some 0x200000, Some 3)"
  using vmm_query_eq [of g] by (simp add: boot_mapping_def vmm_wf_def)

lemma boot_vmm:
  assumes "serial_stable H"
  shows "triple (stage A (\<lambda>g. g = bss_mappings) C D E F G H) (init_vmm dev) (stage A boot_mapping C D E F G H)"
proof (rule tripleI)
  let ?P = "stage A boot_mapping C D E F G H"
  fix k assume k: "stage A (\<lambda>g. g = bss_mappings) C D E F G H k"
  obtain g where g: "vmm_map_page bss_mappings 0x400000 0x200000 VMM_WRITABLE = Some (True, g)" and bm: "boot_mapping g"
    using boot_map_page by blast
  let ?inner = "\<lambda>k. do {
              (found, phys, flags) \<leftarrow> vmm_query_page (g_map k) 0x400000 (Some 0) (Some 0);
              block [k_assert dev 250 ''query_ok'' (\<lambda>_. found),
                     call (log_write dev (Some ''[M7] vmm phys='')),
                     call (log_hex64 dev (the phys)),
                     call (log_writeln dev (Some ''''))] k }"
  have q: "?inner k' = block [k_assert dev 250 ''query_ok'' (\<lambda>_. True),
                     call (log_write dev (Some ''[M7] vmm phys='')),
                     call (log_hex64 dev 0x200000),
                     call (log_writeln dev (Some ''''))] k'" if "?P k'" for k'
    using that by (simp add: stage_def boot_query del: block.simps)
  have "triple ?P (block [k_assert dev 250 ''query_ok'' (\<lambda>_. True),
                     call (log_write dev (Some ''[M7] vmm phys='')),
                     call (log_hex64 dev 0x200000),
                     call (log_writeln dev (Some ''''))]) ?P"
    by (rule triple_same) (auto intro: triple_assert say assms)
  then have "triple ?P ?inner ?P" using q by (simp add: triple_def)
  then have "triple ?P (block [k_assert dev 235 ''map_ok'' (\<lambda>_. True),
      call (log_writeln dev (Some ''[M7] vmm map ok'')), ?inner]) ?P"
    by (intro triple_same) (auto intro: triple_assert say assms)
  moreover have "?P (k\<lparr>g_map := g\<rparr>)" using k bm by (simp add: stage_defs)
  ultimately obtain k' where "block [k_assert dev 235 ''map_ok'' (\<lambda>_. True),
      call (log_writeln dev (Some ''[M7] vmm map ok'')), ?inner] (k\<lparr>g_map := g\<rparr>) = Some (Returns, k')" "?P k'"
    using tripleD by blast
  moreover have "g_map k = bss_mappings" using k by (simp add: stage_def)
  ultimately show "\<exists>k'. init_vmm dev k = Some (Returns, k') \<and> ?P k'"
    using g by (simp add: init_vmm_def del: block.simps)
qed

lemma boot_heap_init:
  assumes "serial_stable H" "heap_address img \<noteq> 0" "unat (heap_address img) + 65536 < 2 ^ 64"
  shows "triple (stage A B C D E F G H) (m8_heap_bootstrap dev img)
    (stage A B (heap_blocks (unat (heap_address img)) [(128, True), (65360, True)]) D E F G H)"
proof -
  let ?lo = "unat (heap_address img)"
  let ?C = "\<lambda>bs. stage A B (heap_blocks ?lo bs) D E F G H"
  have init: "triple (stage A B C D E F G H)
      (\<lambda>k. Some (Returns, k\<lparr>g_kmem := kmem_init (g_kmem k) (heap_address img) M8_BOOT_HEAP_SIZE\<rparr>)) (?C [(65512, True)])"
    using kmem_init_heap [OF assms(2), of 65536] assms(3)
    by (intro triple_update) (simp add: stage_defs heap_blocks_def)
  have probe: "triple (?C [(65512, True)]) (kmalloc_checked dev 117 ''probe != 0'' 128)
      (?C [(128, True), (65360, True)])"
    by (rule boot_probe, simp, simp, simp)
  show ?thesis
    unfolding m8_heap_bootstrap_def
    by (rule triple_Cons [OF init triple_Cons [OF probe triple_same]]) (auto intro: say assms)
qed

definition gates_installed :: "kernel_image \<Rightarrow> idt_entry list \<Rightarrow> bool" where
  "gates_installed img t \<longleftrightarrow> length t = 256 \<and>
     (\<forall>v<48. gate_for (exception_stubs img ! v)
        (if v = 3 then X86_64_IDT_GATE_TRAP else X86_64_IDT_GATE_INTERRUPT) (t ! v)) \<and>
     (\<forall>v. 48 \<le> v \<and> v < 256 \<longrightarrow> gate_for 0 0 (t ! v))"

text \<open>The descriptor table is loaded; \<open>g\<close> ticks and \<open>n\<close> traps have been counted.\<close>

definition idt_ready :: "kernel_image \<Rightarrow> u64 \<Rightarrow> u64 \<Rightarrow> idt_regs \<Rightarrow> bool" where
  "idt_ready img g n = (\<lambda>(t, lim, base, loaded, ticks, traps). gates_installed img t \<and> lim = 4095 \<and>
     base = idt_address img \<and> loaded = Some (4095, idt_address img) \<and> ticks = g \<and> traps = n)"

lemma boot_idt:
  assumes "serial_stable H" "length (exception_stubs img) = 48"
  shows "triple (stage A B C D E (\<lambda>(t, lim, base, loaded, ticks, traps). length t = 256 \<and> ticks = g \<and> traps = n) G H)
    (x86_64_idt_init dev (idt_address img) (exception_stubs img)) (stage A B C D E (idt_ready img g n) G H)"
proof (rule tripleI)
  fix k assume k: "stage A B C D E (\<lambda>(t, lim, base, loaded, ticks, traps). length t = 256 \<and> ticks = g \<and> traps = n) G H k"
  then have "console_up k" "length (idt k) = 256" by (auto simp: stage_defs)
  then obtain t es where t: "x86_64_idt_init dev (idt_address img) (exception_stubs img) k = Some (Returns,
      k\<lparr>io_trace := io_trace k @ es, idt := t, idtr_limit := 4095, idtr_base := idt_address img,
        loaded_idtr := Some (4095, idt_address img)\<rparr>)" "serial_only es"
    "console_up (k\<lparr>io_trace := io_trace k @ es\<rparr>)" "idt_fill (exception_stubs img) (idt k) = Some t"
    using idt_init_run [OF _ _ assms(2)] by blast
  have "gates_installed img t"
    using idt_fill_exact [OF \<open>length (idt k) = 256\<close> assms(2)] t(4) by (auto simp: gates_installed_def)
  moreover have "H (io_trace k @ es)" using assms(1) k t(2) by (simp add: serial_stable_def stage_def)
  ultimately show "\<exists>k'. x86_64_idt_init dev (idt_address img) (exception_stubs img) k = Some (Returns, k') \<and>
      stage A B C D E (idt_ready img g n) G H k'"
    using k t(1,3) by (simp add: stage_defs idt_ready_def)
qed

lemma boot_m5:
  assumes "serial_stable H" "kernel_start img < kernel_end img" "idt_address img \<noteq> 0"
  shows "triple (stage A B C D E (idt_ready img g n) G H) (m5_selftest dev img) (stage A B C D E (idt_ready img g n) G H)"
  unfolding m5_selftest_def
  by (rule triple_same)
    (use assms(2,3) in \<open>auto intro!: triple_assert say assms(1)
      simp: stage_defs idt_ready_def x86_64_idt_base_for_test_def x86_64_idt_limit_for_test_def\<close>)

lemma boot_start:
  assumes "triple (\<lambda>k. console_up k \<and> \<not> bit (rflags k) 9 \<and> (\<exists>k0 tr f. P k0 \<and>
        k = k0\<lparr>io_trace := tr, g_log_ready := True, rflags := f\<rparr>)) (block ss) Q"
  shows "triple P (block (call cpu_cli # call log_init # ss)) Q"
proof (rule tripleI)
  fix k assume P: "P k"
  let ?k = "snd (run_state log_init (snd (run_state cpu_cli k)))"
  have k: "?k = k\<lparr>io_trace := io_trace ?k, g_log_ready := True, rflags := rflags ?k\<rparr>"
    "rflags ?k = rflags k AND NOT 0x200"
    by (simp_all add: cpu_cli_def log_init_def serial_init_def outb_def)
  have "\<not> bit (rflags ?k) 9" unfolding k(2) by (simp add: bit_simps)
  moreover have "console_up ?k" using log_init_up [of "snd (run_state cpu_cli k)"] by blast
  ultimately obtain k' where "block ss ?k = Some (Returns, k')" "Q k'"
    using tripleD [OF assms] P k(1) by blast
  then show "\<exists>k'. block (call cpu_cli # call log_init # ss) k = Some (Returns, k') \<and> Q k'"
    by (simp add: call_def)
qed

text \<open>The controllers and the timer, as they are programmed from state \<open>s1\<close>, \<open>s2\<close> by a trace.\<close>

definition controllers_ready :: "nat \<times> u8 \<times> u8 \<Rightarrow> nat \<times> u8 \<times> u8 \<Rightarrow> io_event list \<Rightarrow> bool" where
  "controllers_ready s1 s2 tr \<longleftrightarrow>
     pic_state PIC1_COMMAND s1 tr = (0, 0x20, 0xFE) \<and> pic_state PIC2_COMMAND s2 tr = (0, 0x28, 0xFF)"

lemma pic_other_ports:
  assumes "\<forall>e\<in>set es. event_port e \<noteq> cmd \<and> event_port e \<noteq> cmd + 1"
  shows "pic_state cmd s es = s"
  using assms unfolding pic_state_def
proof (induction es arbitrary: s)
  case (Cons e es)
  then have "pic_step cmd s e = s" by (cases e; cases s) auto
  with Cons show ?case by simp
qed simp

lemma controllers_stable: "serial_stable (controllers_ready s1 s2)"
  unfolding serial_stable_def controllers_ready_def pic_state_append
  by (auto intro!: pic_other_ports)

lemma boot_pic:
  assumes "imr_reads dev s1"
    "triple (stage A B C D E F G (controllers_ready s1 s2)) (block ss) Q"
  shows "triple (stage A B C D E F G H)
    (block (call (pic_remap dev PIC_MASTER_OFFSET PIC_SLAVE_OFFSET) # call pic_mask_all # call (pic_unmask_irq dev 0) # ss)) Q"
proof (rule tripleI)
  fix k assume k: "stage A B C D E F G H k"
  let ?k = "snd (run_state (pic_setup dev) k)"
  obtain es where es: "?k = k\<lparr>io_trace := io_trace k @ es\<rparr>"
    "\<forall>e\<in>set es. event_port e \<in> {PIC1_COMMAND, PIC1_DATA, PIC2_COMMAND, PIC2_DATA, 0x80}"
    "controllers_ready s1 s2 (io_trace ?k)"
    using pic_setup_exact [OF assms(1) refl, where m = k and ?s2.0 = s2] by (auto simp: controllers_ready_def)
  have "console (io_trace k @ es) = console (io_trace k)"
    unfolding console_def foldl_append by (rule console_other_ports) (use es(2) in auto)
  with k es(1,3) have "stage A B C D E F G (controllers_ready s1 s2) ?k" by (simp add: stage_defs)
  then obtain k' where "block ss ?k = Some (Returns, k')" "Q k'" using tripleD [OF assms(2)] by blast
  then show "\<exists>k'. block (call (pic_remap dev PIC_MASTER_OFFSET PIC_SLAVE_OFFSET) # call pic_mask_all #
      call (pic_unmask_irq dev 0) # ss) k = Some (Returns, k') \<and> Q k'"
    by (simp add: call_def pic_setup_def case_prod_unfold)
qed

text \<open>
  Channel 0 of the interval timer in the low-then-high access mode: the command \<open>0x36\<close> selects it,
  the next two writes are the low and the high byte of the divisor.
\<close>

fun pit_step :: "nat \<times> u8 \<times> u16 \<Rightarrow> io_event \<Rightarrow> nat \<times> u8 \<times> u16" where
  "pit_step (n, lo, d) (Out p v) =
     (if p = PIT_COMMAND then (if v = 0x36 then (2, lo, d) else (0, lo, d))
      else if p = PIT_CHANNEL0 then
        (if n = 2 then (1, v, d) else if n = 1 then (0, lo, ucast lo OR push_bit 8 (ucast v)) else (n, lo, d))
      else (n, lo, d))"
| "pit_step (n, lo, d) (In p v) = (n, lo, d)"

definition pit_state :: "io_event list \<Rightarrow> nat \<times> u8 \<times> u16" where
  "pit_state tr = foldl pit_step (0, 0, 0) tr"

lemma pit_divisor_bounds: "0 < pit_divisor hz" "pit_divisor hz \<le> 0xFFFF"
  by (auto simp: pit_divisor_def Let_def word_gt_0)

lemma split_join_16: "(ucast (ucast (d AND 0xFF :: u32) :: u8) OR push_bit 8 (ucast (ucast (drop_bit 8 d AND 0xFF :: u32) :: u8)) :: u16) = ucast d"
proof -
  have m: "(0xFF :: u32) = mask 8" by (simp add: mask_eq_exp_minus_1)
  show ?thesis unfolding m
  proof (rule bit_word_eqI, goal_cases)
    case (1 n)
    then show ?case by (cases "n < 8") (auto simp: bit_simps)
  qed
qed

lemma pit_configure_run:
  "\<exists>es. run_state (pit_configure_hz hz) m = ((), m\<lparr>io_trace := io_trace m @ es\<rparr>) \<and>
     pit_state (io_trace m @ es) = (0, ucast (pit_divisor hz AND 0xFF), ucast (pit_divisor hz)) \<and>
     (\<forall>e\<in>set es. event_port e \<in> {PIT_COMMAND, PIT_CHANNEL0})"
proof -
  let ?d = "pit_divisor hz"
  let ?es = "[Out PIT_COMMAND 0x36, Out PIT_CHANNEL0 (ucast (?d AND 0xFF)), Out PIT_CHANNEL0 (ucast (drop_bit 8 ?d AND 0xFF))]"
  have "run_state (pit_configure_hz hz) m = ((), m\<lparr>io_trace := io_trace m @ ?es\<rparr>)"
    by (simp add: pit_configure_hz_def outb_def Let_def)
  moreover have "pit_state (io_trace m @ ?es) = (0, ucast (?d AND 0xFF), ucast ?d)"
    unfolding pit_state_def foldl_append
    by (cases "foldl pit_step (0, 0, 0) (io_trace m)") (simp add: split_join_16)
  ultimately show ?thesis by (intro exI [of _ ?es]) simp
qed

text \<open>100 Hz: the divisor is 11931.\<close>

definition ports_ready :: "nat \<times> u8 \<times> u8 \<Rightarrow> nat \<times> u8 \<times> u8 \<Rightarrow> io_event list \<Rightarrow> bool" where
  "ports_ready s1 s2 tr \<longleftrightarrow> controllers_ready s1 s2 tr \<and> snd (snd (pit_state tr)) = 11931"

lemma pit_other_ports:
  assumes "\<forall>e\<in>set es. event_port e \<noteq> PIT_COMMAND \<and> event_port e \<noteq> PIT_CHANNEL0"
  shows "foldl pit_step s es = s"
  using assms
proof (induction es arbitrary: s)
  case (Cons e es)
  then have "pit_step s e = s" by (cases e; cases s) auto
  with Cons show ?case by simp
qed simp

lemma ports_stable: "serial_stable (ports_ready s1 s2)"
proof -
  have "pit_state (tr @ es) = pit_state tr" if "serial_only es" for tr es
    unfolding pit_state_def foldl_append by (rule pit_other_ports) (use that in auto)
  then show ?thesis
    using controllers_stable [of s1 s2] by (simp add: serial_stable_def ports_ready_def)
qed

lemma boot_pit:
  "triple (stage A B C D E F G (controllers_ready s1 s2)) (call (pit_configure_hz 100))
     (stage A B C D E F G (ports_ready s1 s2))"
proof (rule tripleI)
  fix k assume k: "stage A B C D E F G (controllers_ready s1 s2) k"
  obtain es where es: "run_state (pit_configure_hz 100) k = ((), k\<lparr>io_trace := io_trace k @ es\<rparr>)"
    "snd (snd (pit_state (io_trace k @ es))) = ucast (pit_divisor 100)"
    "\<forall>e\<in>set es. event_port e \<in> {PIT_COMMAND, PIT_CHANNEL0}"
    using pit_configure_run [of 100 k] by auto
  have "ucast (pit_divisor 100) = (11931 :: u16)" by (simp add: pit_divisor_def Let_def)
  moreover have "console (io_trace k @ es) = console (io_trace k)"
    unfolding console_def foldl_append by (rule console_other_ports) (use es(3) in auto)
  moreover have "pic_state c s (io_trace k @ es) = pic_state c s (io_trace k)" if "c = 0x20 \<or> c = 0xA0" for c s
    unfolding pic_state_append by (rule pic_other_ports) (use es(3) that in auto)
  ultimately have "stage A B C D E F G (ports_ready s1 s2) (k\<lparr>io_trace := io_trace k @ es\<rparr>)"
    using k es(2) by (simp add: stage_defs ports_ready_def controllers_ready_def)
  then show "\<exists>k'. call (pit_configure_hz 100) k = Some (Returns, k') \<and> stage A B C D E F G (ports_ready s1 s2) k'"
    using es(1) by (simp add: call_def)
qed

lemma boot_sti:
  "triple (stage A B C D E F G H) (call cpu_sti) (stage A B C D E F (\<lambda>f. bit f 9) H)"
  by (rule tripleI) (simp add: call_def cpu_sti_def stage_defs bit_simps)

section \<open>Boot as a whole\<close>

text \<open>What the loader and the linker provide: zeroed static objects, and addresses that make sense.\<close>

definition power_on :: "kernel \<Rightarrow> bool" where
  "power_on k \<longleftrightarrow> length (idt k) = 256 \<and> g_map k = bss_mappings \<and> length (threads (g_sched k)) = 16 \<and>
     m12_boot_counter k = 0 \<and> m12_lock_depth k = 0 \<and> g_ticks k = 0 \<and> trap_count k = 0"

definition image_ok :: "kernel_image \<Rightarrow> bool" where
  "image_ok img \<longleftrightarrow> kernel_start img < kernel_end img \<and> heap_address img \<noteq> 0 \<and>
     unat (heap_address img) + 65536 < 2 ^ 64 \<and> idt_address img \<noteq> 0 \<and> length (exception_stubs img) = 48 \<and>
     distinct (exception_stubs img) \<and> distinct [0, entry_a img, entry_b img, entry_c img, entry_d img]"

definition entries :: "kernel_image \<Rightarrow> u64 list" where
  "entries img = [entry_a img, entry_b img, entry_c img, entry_d img]"

lemma length_entries [simp]: "length (entries img) = 4"
  by (simp add: entries_def)

definition boot_blocks :: blocks where
  "boot_blocks = [(128, True), (4096, False), (4096, False), (4096, False), (4096, False), (48880, True)]"

definition boot_locks :: "locks \<Rightarrow> bool" where
  "boot_locks = (\<lambda>(l, m, n, d). spin_locked l = 0 \<and> mtx_locked m = 0 \<and> n = 2 \<and> d = 0)"

definition booted :: "kernel_image \<Rightarrow> nat \<times> u8 \<times> u8 \<Rightarrow> nat \<times> u8 \<times> u8 \<Rightarrow> kernel \<Rightarrow> bool" where
  "booted img s1 s2 = stage boot_pmm_state boot_mapping (heap_blocks (unat (heap_address img)) boot_blocks)
     (sched_threads (entries img) 0) boot_locks (idt_ready img 0 0) (\<lambda>f. bit f 9) (ports_ready s1 s2)"

lemma triple_pre: "triple P s Q \<Longrightarrow> (\<And>k. R k \<Longrightarrow> P k) \<Longrightarrow> triple R s Q"
  by (simp add: triple_def)

lemma boot_sync_fresh:
  assumes "serial_stable H"
  shows "triple (stage A B C D (\<lambda>(l, m, n, d). n = 0 \<and> d = 0) F G H) (m12_sync_selftest dev) (stage A B C D boot_locks F G H)"
  by (rule triple_post [OF boot_sync [OF assms]]) (auto simp: stage_def boot_locks_def)

lemma boot_sched_init:
  "triple (stage A B C (\<lambda>s. length (threads s) = 16) E F G H)
     (\<lambda>k. Some (Returns, k\<lparr>g_sched := thread_system_init (g_sched k)\<rparr>)) (stage A B C (sched_threads [] 0) E F G H)"
proof (rule triple_update)
  fix k assume "stage A B C (\<lambda>s. length (threads s) = 16) E F G H k"
  then show "stage A B C (sched_threads [] 0) E F G H (k\<lparr>g_sched := thread_system_init (g_sched k)\<rparr>)"
    using sched_init_ok(1) [of "g_sched k"]
    by (simp add: stage_defs sched_threads_def thread_system_init_def)
qed

lemmas boot_steps = say boot_pmm boot_vmm boot_heap_init boot_sync_fresh boot_sched_init boot_idt boot_m5 boot_pit boot_sti

lemma boot_threads:
  assumes "e \<noteq> 0" "length es < 16" "fit 4096 lo bs = Some (p, bs')"
    "triple (stage A B (heap_blocks lo bs') (sched_threads (es @ [e]) 0) E F G H) (block ss) Q"
  shows "triple (stage A B (heap_blocks lo bs) (sched_threads es 0) E F G H) (block (create_thread dev line expr e # ss)) Q"
  by (rule triple_Cons [OF boot_thread [OF assms(1-3)] assms(4)])

lemma kmain_boot_triple:
  assumes img: "image_ok img" and dev: "imr_reads dev s1"
  shows "triple power_on (kmain_boot dev img) (booted img s1 s2)"
proof -
  let ?lo = "unat (heap_address img)"
  have i: "kernel_start img < kernel_end img" "heap_address img \<noteq> 0" "?lo + 65536 < 2 ^ 64"
    "idt_address img \<noteq> 0" "length (exception_stubs img) = 48"
    "entry_a img \<noteq> 0" "entry_b img \<noteq> 0" "entry_c img \<noteq> 0" "entry_d img \<noteq> 0"
    using img by (auto simp: image_ok_def)
  note stable = serial_stable_True controllers_stable ports_stable
  let ?st = "\<lambda>C D E F G H. stage boot_pmm_state boot_mapping (heap_blocks ?lo C) (sched_threads D 0) E F G H"
  let ?ids = "\<lambda>(t, lim, base, loaded, ticks, traps). length t = 256 \<and> ticks = 0 \<and> traps = 0"
  have interrupts: "triple (?st boot_blocks (entries img) boot_locks (idt_ready img 0 0) (\<lambda>f. \<not> bit f 9) (\<lambda>tr. True))
     (block [call (pic_remap dev PIC_MASTER_OFFSET PIC_SLAVE_OFFSET), call pic_mask_all, call (pic_unmask_irq dev 0),
        call (pit_configure_hz 100), call (log_writeln dev (Some ''[M5] sti: enabling interrupts'')), call cpu_sti])
     (booted img s1 s2)"
    unfolding booted_def
    by (rule boot_pic [OF dev], (rule triple_Cons, rule boot_steps, ((rule stable | (simp; fail))+)?)+, rule triple_Nil)
  have threads: "triple (?st [(128, True), (65360, True)] [] boot_locks ?ids (\<lambda>f. \<not> bit f 9) (\<lambda>tr. True))
     (block (create_thread dev 269 ''ta != 0'' (entry_a img) # create_thread dev 274 ''tb != 0'' (entry_b img) #
        create_thread dev 279 ''tc != 0'' (entry_c img) # create_thread dev 284 ''td != 0'' (entry_d img) # ss)) Q"
    if "triple (?st boot_blocks (entries img) boot_locks ?ids (\<lambda>f. \<not> bit f 9) (\<lambda>tr. True)) (block ss) Q" for ss Q
    by (rule boot_threads, rule i, simp, simp)+ (use that in \<open>simp add: entries_def boot_blocks_def\<close>)
  show ?thesis
    unfolding kmain_boot_def
  proof (rule boot_start, rule triple_pre [where P = "stage (\<lambda>p. True) (\<lambda>g. g = bss_mappings) (\<lambda>h. True)
        (\<lambda>s. length (threads s) = 16) (\<lambda>(l, m, n, d). n = 0 \<and> d = 0) ?ids (\<lambda>f. \<not> bit f 9) (\<lambda>tr. True)"],
      goal_cases)
    case 1
    show ?case
      by ((rule triple_Cons, rule boot_steps, ((rule stable i | (simp; fail))+)?)+, rule threads,
          (rule triple_Cons, rule boot_steps, ((rule stable i | (simp; fail))+)?)+, rule interrupts)
  next
    case (2 k)
    then show ?case by (auto simp: stage_defs power_on_def)
  qed
qed

end
