(* ===== verification/Output_Steps.thy ===== *)
theory Output_Steps
  imports Console
begin

text \<open>
  Console output one port access at a time. \<open>log_writeln\<close> of \<open>Console\<close> is a computation in one go; here it is a list of
  pending operations, and \<open>out_step\<close> executes the first of them: the test of \<open>g_log_ready\<close>, one read of the line status
  register in the wait loop of \<open>serial_putc\<close>, or one write of a character. An interrupt can come between any two of them. The
  lemma \<open>line_run\<close> says that the operations of a line, taken together, are \<open>log_writeln\<close>.
\<close>

section \<open>Operations\<close>

text \<open>\<open>Poll c n\<close> waits to send \<open>c\<close>, the variable \<open>spin\<close> of \<open>serial_putc\<close> being \<open>n\<close>.\<close>

datatype out_op = Ensure | Poll char nat | Send char

fun out_step :: "device \<Rightarrow> out_op list \<Rightarrow> 'r machine_scheme \<Rightarrow> out_op list \<times> 'r machine_scheme" where
  "out_step dev [] m = ([], m)"
| "out_step dev (Ensure # os) m = (os, snd (run_state log_ensure m))"
| "out_step dev (Poll c n # os) m = (let (empty, m') = run_state (serial_transmit_empty dev) m in
     (if empty then Send c # os else if SERIAL_TIMEOUT_LIMIT \<le> Suc n then os else Poll c (Suc n) # os, m'))"
| "out_step dev (Send c # os) m = (os, snd (run_state (outb COM1_PORT (of_char c)) m))"

text \<open>The operations of \<open>serial_putc\<close>, with the carriage return before a newline, and of \<open>log_writeln\<close>.\<close>

definition putc_ops :: "char \<Rightarrow> out_op list" where
  "putc_ops c = (if c = CHR 0x0A then [Poll (CHR 0x0D) 0] else []) @ [Poll c 0]"

definition line_ops :: "string \<Rightarrow> out_op list" where
  "line_ops s = Ensure # concat (map putc_ops s) @ Ensure # putc_ops (CHR 0x0A)"

text \<open>An upper bound of the number of steps.\<close>

primrec op_work :: "out_op \<Rightarrow> nat" where
  "op_work Ensure = 1"
| "op_work (Poll c n) = 2 + (SERIAL_TIMEOUT_LIMIT - n)"
| "op_work (Send c) = 1"

definition ops_work :: "out_op list \<Rightarrow> nat" where
  "ops_work ops = sum_list (map op_work ops)"

lemma ops_work_simps [simp]:
  "ops_work [] = 0" "ops_work (op # ops) = op_work op + ops_work ops" "ops_work (ops @ ops') = ops_work ops + ops_work ops'"
  by (simp_all add: ops_work_def)

lemma out_step_work: "ops \<noteq> [] \<Longrightarrow> ops_work (fst (out_step dev ops m)) < ops_work ops"
  by (cases "(dev, ops, m)" rule: out_step.cases) (auto simp: case_prod_beta Let_def)

function out_run :: "device \<Rightarrow> out_op list \<Rightarrow> 'r machine_scheme \<Rightarrow> 'r machine_scheme" where
  "out_run dev ops m = (if ops = [] then m else out_run dev (fst (out_step dev ops m)) (snd (out_step dev ops m)))"
  by pat_completeness auto
termination
  by (relation "measure (\<lambda>(dev, ops, m). ops_work ops)") (auto simp: out_step_work case_prod_beta)

declare out_run.simps [simp del]

lemma out_run_ops [simp]:
  "out_run dev [] m = m"
  "out_run dev (Ensure # os) m = out_run dev os (snd (run_state log_ensure m))"
  "out_run dev (Send c # os) m = out_run dev os (snd (run_state (outb COM1_PORT (of_char c)) m))"
  by (simp_all add: out_run.simps [of dev "Ensure # os"] out_run.simps [of dev "Send c # os"] out_run.simps [of dev "[]"])

lemma out_run_poll:
  "out_run dev (Poll c n # os) m = (let (empty, m') = run_state (serial_transmit_empty dev) m in
     out_run dev (if empty then Send c # os else if SERIAL_TIMEOUT_LIMIT \<le> Suc n then os else Poll c (Suc n) # os) m')"
  by (subst out_run.simps) (simp add: case_prod_beta Let_def)

lemma line_work: "ops_work (line_ops s) = 2 + 100002 * (length (crlf s) + 2)"
proof -
  have "ops_work (concat (map putc_ops s)) = 100002 * length (crlf s)" for s
    by (induction s) (simp_all add: putc_ops_def)
  then show ?thesis by (simp add: line_ops_def putc_ops_def)
qed

section \<open>The steps are the output functions\<close>

lemma poll_run:
  assumes "SERIAL_TIMEOUT_LIMIT - n = Suc k"
  shows "out_run dev (Poll c n # os) m = out_run dev os (snd (run_state (do { ready \<leftarrow> serial_wait dev (Suc k);
     if ready then outb COM1_PORT (of_char c) else State_Monad.return () }) m))"
  using assms
proof (induction k arbitrary: n m)
  case 0
  then have "SERIAL_TIMEOUT_LIMIT \<le> Suc n" by simp
  then show ?case by (simp add: out_run_poll [of dev c n] case_prod_unfold Let_def)
next
  case (Suc k)
  have "\<not> SERIAL_TIMEOUT_LIMIT \<le> Suc n" "SERIAL_TIMEOUT_LIMIT - Suc n = Suc k" using Suc.prems by simp_all
  then show ?case using Suc.IH [of "Suc n"] by (simp add: out_run_poll [of dev c n] case_prod_unfold Let_def)
qed

lemma putc_run: "out_run dev (putc_ops c @ os) m = out_run dev os (snd (run_state (serial_putc dev c) m))"
proof -
  note poll = poll_run [of 0 99999, simplified]
  have plain: "out_run dev (Poll c 0 # os) m = out_run dev os (snd (run_state (serial_putc dev c) m))"
    if "c \<noteq> CHR 0x0A" for c os and m :: "'a machine_scheme"
    using that by (simp add: poll serial_putc.simps [of dev c])
  show ?thesis
  proof (cases "c = CHR 0x0A")
    case True
    have "out_run dev (putc_ops c @ os) m = out_run dev (Poll (CHR 0x0A) 0 # os) (snd (run_state (serial_putc dev (CHR 0x0D)) m))"
      using True by (simp add: putc_ops_def plain)
    then show ?thesis unfolding poll using True by (simp add: serial_putc.simps [of dev "CHR 0x0A"] case_prod_unfold)
  qed (simp add: putc_ops_def plain)
qed

lemma write_run:
  "CHR 0x00 \<notin> set s \<Longrightarrow> out_run dev (concat (map putc_ops s) @ os) m = out_run dev os (snd (run_state (serial_write_loop dev s) m))"
  by (induction s arbitrary: m) (auto simp: putc_run case_prod_unfold)

lemma line_run:
  assumes "CHR 0x00 \<notin> set s"
  shows "out_run dev (line_ops s) m = snd (run_state (log_writeln dev (Some s)) m)"
proof -
  have "out_run dev (putc_ops c) m = snd (run_state (serial_putc dev c) m)" for c and m :: "'a machine_scheme"
    using putc_run [of dev c "[]" m] by simp
  then show ?thesis
    using write_run [OF assms, of dev "Ensure # putc_ops (CHR 0x0A)" "snd (run_state log_ensure m)"]
    by (simp add: line_ops_def log_writeln_def log_write_def log_putc_def serial_write_def case_prod_unfold)
qed

section \<open>What a step sends\<close>

text \<open>The pending operations after a step, and what it sends, when the transmitter is ready.\<close>

fun next_ops :: "out_op list \<Rightarrow> out_op list" where
  "next_ops (Poll c n # os) = Send c # os"
| "next_ops os = tl os"

fun sent :: "out_op list \<Rightarrow> string" where
  "sent (Send c # os) = [c]"
| "sent os = []"

lemma out_step_effect:
  assumes "console_up m"
  shows "\<exists>es. snd (out_step dev ops m) = m\<lparr>io_trace := io_trace m @ es\<rparr> \<and> serial_only es \<and>
    console_up (m\<lparr>io_trace := io_trace m @ es\<rparr>) \<and>
    (tx_ready dev \<longrightarrow> fst (out_step dev ops m) = next_ops ops \<and>
       snd (console (io_trace m @ es)) = console_text m @ sent ops)"
proof (cases "(dev, ops, m)" rule: out_step.cases)
  case (3 dev' c n os m')
  let ?es = "[In (COM1_PORT + 5) (dev (io_trace m) (COM1_PORT + 5))]"
  have "foldl uart_step s ?es = s" for s by (cases s) simp
  then have "console (io_trace m @ ?es) = console (io_trace m)" by (simp add: console_def del: foldl.simps)
  then show ?thesis using 3 assms
    by (intro exI [of _ ?es]) (auto simp: serial_transmit_empty_def inb_def Let_def console_up_def tx_ready_def)
next
  case (4 dev' c os m')
  obtain t where t: "console (io_trace m) = (False, t)"
    using assms by (cases "console (io_trace m)") (simp add: console_up_def)
  then have "console (io_trace m @ [Out COM1_PORT (of_char c)]) = (False, console_text m @ [c])"
    unfolding console_def foldl_append by simp
  then show ?thesis using 4 assms
    by (intro exI [of _ "[Out COM1_PORT (of_char c)]"]) (auto simp: outb_def console_up_def)
qed (use assms in \<open>auto simp: log_ensure_def console_up_def intro!: exI [of _ "[]"]\<close>)

end
