(* ===== verification/Kernel_Run.thy ===== *)
theory Kernel_Run
  imports Kmain Output_Steps
begin

text \<open>
  The running kernel, with interrupts between any two steps of a thread. \<open>run_thread\<close> of \<open>Kmain\<close> is one pass of a
  thread function in one go; here a thread is at a program point, and \<open>thread_step\<close> executes one step: a single operation of
  the console output, or one of the other statements. The heap and the scheduler, which those statements use, are not
  touched by the interrupt handlers. The lemma \<open>run_thread_steps\<close> says that the steps of a pass, taken together,
  are \<open>run_thread\<close>.
\<close>

section \<open>Program points\<close>

text \<open>
  The statements of the loop bodies of \<open>thread_a\<close> to \<open>thread_d\<close>; \<open>At_out ops\<close> is inside of \<open>log_writeln\<close>, with the operations \<open>ops\<close>
  still to do. The result of \<open>kmalloc\<close> is a local variable of the thread. The delay loop stands between \<open>At_check\<close> and \<open>At_free\<close>.
\<close>

datatype point = At_log | At_out "out_op list" | At_alloc | At_check u64 | At_free u64 | At_yield

text \<open>The message of a thread, and line and size of its allocation, if it has one.\<close>

definition thread_body :: "kernel_image \<Rightarrow> u64 \<Rightarrow> (string \<times> (int \<times> u64) option) option" where
  "thread_body img entry =
     (if entry = entry_a img then Some (''[M9] thread A running'', Some (132, 64))
      else if entry = entry_b img then Some (''[M9] thread B running'', Some (153, 128))
      else if entry = entry_c img then Some (''[M9] thread C running'', None)
      else if entry = entry_d img then Some (''[M9] thread D running'', None)
      else None)"

text \<open>The point after an operation of the output, \<open>ops\<close> being left.\<close>

definition after_out :: "bool \<Rightarrow> out_op list \<Rightarrow> point" where
  "after_out probes ops = (if ops \<noteq> [] then At_out ops else if probes then At_alloc else At_yield)"

definition thread_step ::
  "device \<Rightarrow> kernel_image \<Rightarrow> u64 \<Rightarrow> point \<Rightarrow> kernel \<Rightarrow> (activity \<times> point \<times> kernel) option" where
  "thread_step dev img entry pt k = do {
     (msg, probe) \<leftarrow> thread_body img entry;
     (case pt of
        At_log \<Rightarrow> (let (ops, k') = out_step dev (line_ops msg) k in
          Some (Runs entry, after_out (probe \<noteq> None) ops, k'))
      | At_out ops \<Rightarrow> (let (ops', k') = out_step dev ops k in
          Some (Runs entry, after_out (probe \<noteq> None) ops', k'))
      | At_alloc \<Rightarrow> do {
          (line, n) \<leftarrow> probe;
          (p, h) \<leftarrow> kmalloc (g_kmem k) n;
          Some (Runs entry, At_check p, k\<lparr>g_kmem := h\<rparr>) }
      | At_check p \<Rightarrow> do {
          (line, n) \<leftarrow> probe;
          (c, k') \<leftarrow> k_assert dev line ''p != 0'' (\<lambda>_. p \<noteq> 0) k;
          Some (case c of Returns \<Rightarrow> Runs entry | Halts \<Rightarrow> Halted, At_free p, k') }
      | At_free p \<Rightarrow> do {
          h \<leftarrow> kfree (g_kmem k) p;
          Some (Runs entry, At_yield, k\<lparr>g_kmem := h\<rparr>) }
      | At_yield \<Rightarrow> do {
          (a, k') \<leftarrow> yield_from (Runs entry) k;
          Some (a, At_log, k') })
   }"

text \<open>Steps of one pass: at most \<open>m\<close>, up to the next call of a thread or a halt.\<close>

fun pass_steps :: "device \<Rightarrow> kernel_image \<Rightarrow> u64 \<Rightarrow> nat \<Rightarrow> point \<Rightarrow> kernel \<Rightarrow> (activity \<times> kernel) option" where
  "pass_steps dev img entry 0 pt k = None"
| "pass_steps dev img entry (Suc m) pt k = do {
     (a, pt', k') \<leftarrow> thread_step dev img entry pt k;
     if a = Halted \<or> pt' = At_log then Some (a, k') else pass_steps dev img entry m pt' k' }"

text \<open>The steps left in a pass, at most: 23 characters, each with up to 100000 polls.\<close>

fun steps_left :: "point \<Rightarrow> nat" where
  "steps_left At_log = 2300052"
| "steps_left (At_out ops) = 4 + ops_work ops"
| "steps_left At_alloc = 4"
| "steps_left (At_check p) = 3"
| "steps_left (At_free p) = 2"
| "steps_left At_yield = 1"

section \<open>The steps are the passes\<close>

text \<open>What is left of a pass at a point, in one go.\<close>

fun rank :: "point \<Rightarrow> nat" where
  "rank At_log = 5"
| "rank (At_out ops) = 4"
| "rank At_alloc = 3"
| "rank (At_check p) = 2"
| "rank (At_free p) = 1"
| "rank At_yield = 0"

function rest_of ::
  "device \<Rightarrow> u64 \<Rightarrow> string \<Rightarrow> (int \<times> u64) option \<Rightarrow> point \<Rightarrow> kernel \<Rightarrow> (activity \<times> kernel) option" where
  "rest_of dev entry msg probe At_log k = rest_of dev entry msg probe (At_out (line_ops msg)) k"
| "rest_of dev entry msg probe (At_out ops) k =
     rest_of dev entry msg probe (if probe = None then At_yield else At_alloc) (out_run dev ops k)"
| "rest_of dev entry msg probe At_alloc k = do {
     (line, n) \<leftarrow> probe;
     (p, h) \<leftarrow> kmalloc (g_kmem k) n;
     rest_of dev entry msg probe (At_check p) (k\<lparr>g_kmem := h\<rparr>) }"
| "rest_of dev entry msg probe (At_check p) k = do {
     (line, n) \<leftarrow> probe;
     (c, k') \<leftarrow> k_assert dev line ''p != 0'' (\<lambda>_. p \<noteq> 0) k;
     (case c of Returns \<Rightarrow> rest_of dev entry msg probe (At_free p) k' | Halts \<Rightarrow> Some (Halted, k')) }"
| "rest_of dev entry msg probe (At_free p) k = do {
     h \<leftarrow> kfree (g_kmem k) p;
     rest_of dev entry msg probe At_yield (k\<lparr>g_kmem := h\<rparr>) }"
| "rest_of dev entry msg probe At_yield k = yield_from (Runs entry) k"
  by pat_completeness auto
termination
  by (relation "measure (\<lambda>(dev, entry, msg, probe, pt, k). rank pt)") auto

lemma thread_pass_body:
  "thread_body img entry = Some (msg, probe) \<Longrightarrow> thread_pass dev img entry = block (call (log_writeln dev (Some msg)) #
     (case probe of None \<Rightarrow> [] | Some (line, n) \<Rightarrow> [kmalloc_checked dev line ''p != 0'' n]))"
  by (auto simp: thread_body_def thread_pass_def split: if_splits)

lemma thread_message:
  assumes "thread_body img entry = Some (msg, probe)"
  shows "CHR 0x00 \<notin> set msg" "ops_work (line_ops msg) = 2300048"
  using assms by (auto simp: thread_body_def line_work split: if_splits)

lemma run_thread_rest:
  assumes b: "thread_body img entry = Some (msg, probe)"
  shows "run_thread dev img entry k = rest_of dev entry msg probe At_log k"
proof (cases probe)
  case None
  then show ?thesis
    by (simp add: run_thread_def thread_pass_body [OF b] call_def line_run [OF thread_message(1) [OF b]])
next
  case (Some ln)
  then show ?thesis
    by (simp add: run_thread_def thread_pass_body [OF b] call_def line_run [OF thread_message(1) [OF b]]
        kmalloc_checked_def bind_assoc case_prod_beta split: bind_splits control.splits)
qed

lemma rest_of_step:
  assumes "thread_body img entry = Some (msg, probe)" "pt \<noteq> At_out []"
  shows "rest_of dev entry msg probe pt k = do {
     (a, pt', k') \<leftarrow> thread_step dev img entry pt k;
     if a = Halted \<or> pt' = At_log then Some (a, k') else rest_of dev entry msg probe pt' k' }"
proof -
  have out: "rest_of dev entry msg probe (At_out ops) k = rest_of dev entry msg probe
      (after_out (probe \<noteq> None) (fst (out_step dev ops k))) (snd (out_step dev ops k))" if "ops \<noteq> []" for ops
    using that out_run.simps [of dev ops k]
    by (cases "fst (out_step dev ops k) = []"; cases probe) (simp_all add: after_out_def del: rest_of.simps(1,3-6))
  have not_log: "after_out b ops \<noteq> At_log" for b ops by (simp add: after_out_def)
  have "line_ops msg \<noteq> []" by (simp add: line_ops_def)
  then show ?thesis using assms not_log
    by (cases pt) (auto simp: thread_step_def out case_prod_beta Let_def simp del: rest_of.simps(2)
        split: bind_splits control.splits)
qed

lemma thread_step_down:
  assumes "thread_body img entry = Some (msg, probe)" "pt \<noteq> At_out []" "pt \<noteq> At_yield"
    "thread_step dev img entry pt k = Some (a, pt', k')"
  shows "steps_left pt' < steps_left pt \<and> pt' \<noteq> At_out []"
proof -
  have ops: "line_ops msg \<noteq> []" by (simp add: line_ops_def)
  have out: "steps_left (after_out b (fst (out_step dev ops k))) < 4 + ops_work ops \<and>
      after_out b (fst (out_step dev ops k)) \<noteq> At_out []" if "ops \<noteq> []" for b ops
    using out_step_work [OF that, of dev k] by (simp add: after_out_def)
  show ?thesis using assms out [OF ops, unfolded thread_message(2) [OF assms(1)]] out
    by (cases pt) (auto simp: thread_step_def case_prod_beta Let_def split: bind_splits)
qed

lemma pass_steps_rest:
  assumes "thread_body img entry = Some (msg, probe)"
  shows "pt \<noteq> At_out [] \<Longrightarrow> steps_left pt \<le> m \<Longrightarrow> pass_steps dev img entry m pt k = rest_of dev entry msg probe pt k"
proof (induction m arbitrary: pt k)
  case 0
  then show ?case by (cases pt) auto
next
  case (Suc m)
  have "pass_steps dev img entry m pt' k' = rest_of dev entry msg probe pt' k'"
    if "thread_step dev img entry pt k = Some (a, pt', k')" "pt' \<noteq> At_log" for a pt' k'
  proof (cases "pt = At_yield")
    case True
    then show ?thesis using that by (auto simp: thread_step_def split: bind_splits)
  next
    case False
    then show ?thesis using thread_step_down [OF assms Suc.prems(1) False that(1)] Suc.IH Suc.prems(2) by simp
  qed
  then show ?case unfolding rest_of_step [OF assms Suc.prems(1)]
    by (auto split: bind_splits)
qed

lemma run_thread_steps: "run_thread dev img entry k = pass_steps dev img entry (steps_left At_log) At_log k"
proof (cases "thread_body img entry")
  case None
  then have "thread_pass dev img entry k = None"
    by (simp add: thread_body_def thread_pass_def split: if_splits)
  moreover have "pass_steps dev img entry (Suc m) At_log k = None" for m using None by (simp add: thread_step_def)
  moreover have "steps_left At_log = Suc 2300051" by simp
  ultimately show ?thesis by (simp only: run_thread_def bind.bind_lzero)
next
  case (Some mp)
  then obtain msg probe where b: "thread_body img entry = Some (msg, probe)" by (cases mp) auto
  then show ?thesis using run_thread_rest [OF b] pass_steps_rest [OF b, of At_log "steps_left At_log"] by simp
qed


section \<open>Invariant\<close>

text \<open>
  Between two passes the heap has one of three shapes: as it was at boot, with the probe block split by
  thread A, and with another block split off by thread B. While a thread holds its allocation \<open>p\<close>, releasing \<open>p\<close> leads
  back to one of them.
\<close>

definition stacks_in_use :: blocks where
  "stacks_in_use = [(4096, False), (4096, False), (4096, False), (4096, False)]"

definition run_blocks :: "blocks list" where
  "run_blocks =
     [[(128, True)] @ stacks_in_use @ [(48880, True)],
      [(64, True), (40, True)] @ stacks_in_use @ [(48880, True)],
      [(64, True), (40, True)] @ stacks_in_use @ [(128, True), (48728, True)]]"

definition settled :: "nat \<Rightarrow> kmem \<Rightarrow> bool" where
  "settled lo h \<longleftrightarrow> (\<exists>bs\<in>set run_blocks. heap_blocks lo bs h)"

definition holds :: "nat \<Rightarrow> u64 \<Rightarrow> kmem \<Rightarrow> bool" where
  "holds lo p h \<longleftrightarrow> p \<noteq> 0 \<and> (\<exists>a bs bs'. p = addr a \<and> heap_blocks lo bs h \<and> live lo bs a \<noteq> None \<and>
     release a lo bs = Some bs' \<and> bs' \<in> set run_blocks)"

definition heap_at :: "nat \<Rightarrow> point \<Rightarrow> kmem \<Rightarrow> bool" where
  "heap_at lo pt = (case pt of At_check p \<Rightarrow> holds lo p | At_free p \<Rightarrow> holds lo p | _ \<Rightarrow> settled lo)"

text \<open>Only threads A and B get to the points of an allocation; inside of an output there is something left to do.\<close>

fun point_ok :: "nat \<Rightarrow> point \<Rightarrow> bool" where
  "point_ok c At_log \<longleftrightarrow> True"
| "point_ok c (At_out ops) \<longleftrightarrow> ops \<noteq> []"
| "point_ok c At_yield \<longleftrightarrow> True"
| "point_ok c pt \<longleftrightarrow> c < 2"

text \<open>The running kernel with thread \<open>c\<close> at the point \<open>pt\<close>, after \<open>g\<close> ticks and \<open>n\<close> traps.\<close>

definition running ::
  "kernel_image \<Rightarrow> nat \<times> u8 \<times> u8 \<Rightarrow> nat \<times> u8 \<times> u8 \<Rightarrow> nat \<Rightarrow> point \<Rightarrow> u64 \<Rightarrow> u64 \<Rightarrow> kernel \<Rightarrow> bool" where
  "running img s1 s2 c pt g n k \<longleftrightarrow> c < 4 \<and> point_ok c pt \<and>
     stage boot_pmm_state boot_mapping (heap_at (unat (heap_address img)) pt) (sched_threads (entries img) c)
       boot_locks (idt_ready img g n) (\<lambda>f. bit f 9) (ports_ready s1 s2) k"

lemma booted_running: "booted img s1 s2 k \<Longrightarrow> running img s1 s2 0 At_yield 0 0 k"
  by (auto simp: booted_def running_def stage_def heap_at_def settled_def run_blocks_def boot_blocks_def stacks_in_use_def)

lemma running_parts:
  assumes "running img s1 s2 c pt g n k"
  shows "console_up k" "bit (rflags k) 9" "gates_installed img (idt k)" "g_ticks k = g" "trap_count k = n"
  using assms by (auto simp: running_def stage_defs idt_ready_def)

subsection \<open>Statements of the threads\<close>

lemma thread_probe:
  assumes "n = 64 \<or> n = 128" "bs \<in> set run_blocks"
  shows "\<exists>p bs1 bs2. fit n lo bs = Some (p, bs1) \<and> release p lo bs1 = Some bs2 \<and> bs2 \<in> set run_blocks"
  using assms by (auto simp: run_blocks_def stacks_in_use_def)

lemma alloc_holds:
  assumes "settled lo h" "n = 64 \<or> n = 128"
  shows "\<exists>p h'. kmalloc h n = Some (p, h') \<and> holds lo p h'"
proof -
  obtain bs where bs: "bs \<in> set run_blocks" "heap_is h lo bs (lo + 65536)"
    using assms(1) by (auto simp: settled_def heap_blocks_def)
  obtain p bs1 bs2 where f: "fit (unat n) lo bs = Some (p, bs1)" "release p lo bs1 = Some bs2" "bs2 \<in> set run_blocks"
    using thread_probe [of "unat n" bs lo] assms(2) bs(1) by auto
  have "n \<noteq> 0" using assms(2) by auto
  obtain h1 where h1: "kmalloc h n = Some (addr p, h1)" "heap_is h1 lo bs1 (lo + 65536)"
    using kmalloc_fits [OF bs(2) \<open>n \<noteq> 0\<close>] f(1) by auto
  have "addr p \<noteq> 0" using kmem_alloc_nonzero [OF bs(2) f(1)] by simp
  then show ?thesis using h1 f(2,3) fit_live [OF f(1)] by (auto simp: holds_def heap_blocks_def)
qed

lemma free_settles:
  assumes "holds lo p h"
  shows "\<exists>h'. kfree h p = Some h' \<and> settled lo h'"
proof -
  obtain a bs bs' m where h: "p = addr a" "heap_is h lo bs (lo + 65536)" "live lo bs a = Some m"
    "release a lo bs = Some bs'" "bs' \<in> set run_blocks"
    using assms by (auto simp: holds_def heap_blocks_def)
  then show ?thesis using kfree_live [OF h(2,3)] by (force simp: settled_def heap_blocks_def)
qed

lemma body_of:
  assumes "image_ok img" "c < 4"
  shows "\<exists>msg probe. thread_body img (entries img ! c) = Some (msg, probe) \<and>
    (c < 2 \<longrightarrow> (\<exists>line n. probe = Some (line, n) \<and> (n = 64 \<or> n = 128))) \<and> (2 \<le> c \<longrightarrow> probe = None)"
proof -
  have "c = 0 \<or> c = 1 \<or> c = 2 \<or> c = 3" using assms(2) by auto
  then show ?thesis using assms(1) by (auto simp: image_ok_def thread_body_def entries_def)
qed

lemma yield_runs:
  assumes "running img s1 s2 c At_yield g n k"
  shows "\<exists>k'. yield_from a k = Some (Runs (entries img ! (Suc c mod 4)), k') \<and>
    running img s1 s2 (Suc c mod 4) At_log g n k'"
proof -
  let ?s = "g_sched k"
  have s: "sched_ok ?s" "unat (thread_count ?s) = 4" "map th_entry (take 4 (threads ?s)) = entries img"
    "unat (current_thread ?s) = c"
    using assms by (auto simp: running_def stage_def sched_threads_def)
  have "thread_count ?s \<noteq> 0" using s(2) by auto
  from thread_yield_next [OF s(1) this] obtain s' where s': "thread_yield ?s =
      Some (Some (th_entry (threads ?s ! unat (current_thread s'))), s')" "sched_ok s'" "threads s' = threads ?s"
    "thread_count s' = thread_count ?s" "unat (current_thread s') = Suc c mod 4"
    using s(2,4) by auto
  have len: "length (threads ?s) = 16" using s(1) by (simp add: sched_ok_def)
  have "Suc c mod 4 < 4" by simp
  then have e: "th_entry (threads ?s ! (Suc c mod 4)) = entries img ! (Suc c mod 4)"
    using arg_cong [OF s(3), of "\<lambda>es. es ! (Suc c mod 4)"] len by simp
  have "running img s1 s2 (Suc c mod 4) At_log g n (k\<lparr>g_sched := s'\<rparr>)"
    using assms s s'(2-5) by (auto simp: running_def stage_defs sched_threads_def heap_at_def)
  then show ?thesis using s'(1,5) e by (simp add: yield_from_def)
qed

text \<open>A statement that only changes the heap, and an operation of the output, move the thread to another point.\<close>

lemma running_heap:
  assumes "running img s1 s2 c pt g n k" "heap_at (unat (heap_address img)) pt' h" "point_ok c pt'"
  shows "running img s1 s2 c pt' g n (k\<lparr>g_kmem := h\<rparr>)"
  using assms by (auto simp: running_def stage_defs)

lemma running_serial:
  assumes "running img s1 s2 c pt g n k" "heap_at (unat (heap_address img)) pt' = heap_at (unat (heap_address img)) pt"
    "point_ok c pt'" "serial_only es" "console_up (k\<lparr>io_trace := io_trace k @ es\<rparr>)"
  shows "running img s1 s2 c pt' g n (k\<lparr>io_trace := io_trace k @ es\<rparr>)"
  using assms ports_stable [of s1 s2] by (auto simp: running_def stage_defs serial_stable_def)

lemma out_runs:
  assumes "running img s1 s2 c pt g n k" "heap_at (unat (heap_address img)) pt = settled (unat (heap_address img))"
    "b \<longrightarrow> c < 2"
  shows "running img s1 s2 c (after_out b (fst (out_step dev ops k))) g n (snd (out_step dev ops k))"
proof -
  obtain es where es: "snd (out_step dev ops k) = k\<lparr>io_trace := io_trace k @ es\<rparr>" "serial_only es"
    "console_up (k\<lparr>io_trace := io_trace k @ es\<rparr>)"
    using out_step_effect [OF running_parts(1) [OF assms(1)], of dev ops] by blast
  show ?thesis unfolding es(1)
    by (rule running_serial [OF assms(1) _ _ es(2,3)]) (use assms(2,3) in \<open>auto simp: after_out_def heap_at_def\<close>)
qed

text \<open>Every step of a thread is defined, does not halt and keeps the invariant; at \<open>At_yield\<close> the next thread is called.\<close>

lemma step_keeps:
  assumes "image_ok img" and run: "running img s1 s2 c pt g n k" and "pt \<noteq> At_yield"
  shows "\<exists>pt' k'. thread_step dev img (entries img ! c) pt k = Some (Runs (entries img ! c), pt', k') \<and>
    running img s1 s2 c pt' g n k'"
proof -
  let ?lo = "unat (heap_address img)" and ?e = "entries img ! c"
  have c: "c < 4" "point_ok c pt" and heap: "heap_at ?lo pt (g_kmem k)"
    using run by (auto simp: running_def stage_def)
  obtain msg probe where b: "thread_body img ?e = Some (msg, probe)"
    "c < 2 \<Longrightarrow> \<exists>line n. probe = Some (line, n) \<and> (n = 64 \<or> n = 128)" "probe \<noteq> None \<longrightarrow> c < 2"
    using body_of [OF assms(1) c(1)] by (metis not_less)
  show ?thesis
  proof (cases pt)
    case At_log
    then show ?thesis using out_runs [OF run _ b(3), of dev "line_ops msg"] b(1)
      by (auto simp: thread_step_def heap_at_def case_prod_beta Let_def)
  next
    case (At_out ops)
    then show ?thesis using out_runs [OF run _ b(3), of dev ops] b(1)
      by (auto simp: thread_step_def heap_at_def case_prod_beta Let_def)
  next
    case At_alloc
    then obtain line m where p: "probe = Some (line, m)" "m = 64 \<or> m = 128" using b(2) c(2) by auto
    obtain q h where q: "kmalloc (g_kmem k) m = Some (q, h)" "holds ?lo q h"
      using alloc_holds [OF _ p(2), of ?lo "g_kmem k"] heap At_alloc by (auto simp: heap_at_def)
    then have "running img s1 s2 c (At_check q) g n (k\<lparr>g_kmem := h\<rparr>)"
      using running_heap [OF run, of "At_check q" h] c(2) At_alloc by (simp add: heap_at_def)
    then show ?thesis using At_alloc b(1) p(1) q(1) by (auto simp: thread_step_def)
  next
    case (At_check q)
    then have "q \<noteq> 0" using heap by (simp add: heap_at_def holds_def)
    moreover have "running img s1 s2 c (At_free q) g n k"
      using running_heap [OF run, of "At_free q" "g_kmem k"] heap At_check c(2) by (simp add: heap_at_def)
    moreover obtain line m where "probe = Some (line, m)" using b(2) c(2) At_check by auto
    ultimately show ?thesis using At_check b(1) by (auto simp: thread_step_def k_assert_def kernel_assert_def)
  next
    case (At_free q)
    then obtain h where h: "kfree (g_kmem k) q = Some h" "settled ?lo h"
      using free_settles [of ?lo q "g_kmem k"] heap by (auto simp: heap_at_def)
    then have "running img s1 s2 c At_yield g n (k\<lparr>g_kmem := h\<rparr>)"
      using running_heap [OF run, of At_yield h] by (simp add: heap_at_def)
    then show ?thesis using At_free b(1) h(1) by (auto simp: thread_step_def)
  qed (use assms(3) in simp)
qed

lemma step_runs:
  assumes "image_ok img" "running img s1 s2 c pt g n k"
  shows "\<exists>pt' k'. thread_step dev img (entries img ! c) pt k =
      Some (Runs (entries img ! (if pt = At_yield then Suc c mod 4 else c)), pt', k') \<and>
    running img s1 s2 (if pt = At_yield then Suc c mod 4 else c) pt' g n k' \<and>
    (if pt = At_yield then pt' = At_log else steps_left pt' < steps_left pt)"
proof -
  have c: "c < 4" "pt \<noteq> At_out []" using assms(2) by (auto simp: running_def)
  obtain msg probe where b: "thread_body img (entries img ! c) = Some (msg, probe)" using body_of [OF assms(1) c(1)] by blast
  show ?thesis
  proof (cases "pt = At_yield")
    case True
    then show ?thesis using yield_runs [of img s1 s2 c g n k "Runs (entries img ! c)"] assms(2) b
      by (auto simp: thread_step_def)
  next
    case False
    from step_keeps [OF assms False, of dev] thread_step_down [OF b c(2) False, of dev k] False show ?thesis by fastforce
  qed
qed

subsection \<open>Interrupts\<close>

text \<open>An interrupt request appends serial output and its acknowledgement to the port trace.\<close>

lemma irq_keeps:
  assumes "running img s1 s2 c pt g n k" "serial_only es" "console_up (k\<lparr>io_trace := io_trace k @ es @ eoi_events v\<rparr>)"
  shows "running img s1 s2 c pt g' n' (k\<lparr>io_trace := io_trace k @ es @ eoi_events v, trap_count := n', g_ticks := g'\<rparr>)"
proof -
  have "ports_ready s1 s2 (io_trace k @ es)"
    using ports_stable [of s1 s2] assms(1,2) by (simp add: serial_stable_def stage_def running_def)
  moreover have "foldl pit_step s (eoi_events v) = s" for s
    by (rule pit_other_ports) (auto simp: eoi_events_def)
  moreover have "pic_state q s (eoi_events v) = s" if "q = 0x20 \<or> q = 0xA0" for q s
    using that by (cases s) (auto simp: pic_state_def eoi_events_def bit_simps)
  ultimately have "ports_ready s1 s2 (io_trace k @ es @ eoi_events v)"
    unfolding append_assoc [symmetric] ports_ready_def controllers_ready_def pic_state_append [of _ _ "io_trace k @ es"]
      pit_state_def foldl_append [of _ _ "io_trace k @ es"] by simp
  then show ?thesis using assms(1,3) by (auto simp: running_def stage_defs idt_ready_def)
qed

lemma irq_runs:
  assumes "running img s1 s2 c pt g n k" "image_ok img" "32 \<le> v" "v < 48" "192 \<le> unat (rsp x)"
  shows "\<exists>x' k'. interrupt dev l (exception_stubs img) v err (x, k) = Some (Returns, x', k') \<and> same_context x x' \<and>
    rflags k' = rflags k \<and> running img s1 s2 c pt (g + (if v = 32 then 1 else 0)) (n + 1) k' \<and>
    (tx_ready dev \<longrightarrow> console_text k' = console_text k @ irq_line (of_nat (v - 32)) g)"
proof -
  note k = running_parts [OF assms(1)]
  let ?attr = X86_64_IDT_GATE_INTERRUPT
  let ?k = "k\<lparr>rflags := entry_flags ?attr (rflags k)\<rparr>" and ?f = "expected_frame v err x (rflags k)"
  have v: "tf_vector ?f = of_nat v" "unat (of_nat v :: u64) = v"
    using assms(4) by (simp_all add: expected_frame_def unat_of_nat)
  then have irq: "is_irq ?f" "tf_vector ?f = 32 \<longleftrightarrow> v = 32"
    using assms(3,4) by (auto simp: is_irq_def word_le_nat_alt word_less_nat_alt word_unat_eq_iff)
  have "console_up ?k" using k(1) by (simp add: console_up_def)
  then obtain es where es: "run_state (x86_64_trap_dispatch dev (Some ?f)) ?k = (Returns,
      ?k\<lparr>io_trace := io_trace ?k @ es @ eoi_events (tf_vector ?f), trap_count := trap_count ?k + 1,
        g_ticks := g_ticks ?k + (if tf_vector ?f = 32 then 1 else 0)\<rparr>)" "serial_only es"
    "console_up (?k\<lparr>io_trace := io_trace ?k @ es @ eoi_events (tf_vector ?f)\<rparr>)"
    "tx_ready dev \<longrightarrow> snd (console (io_trace ?k @ es @ eoi_events (tf_vector ?f))) =
       console_text ?k @ irq_line (ucast (tf_vector ?f - 32)) (g_ticks ?k)"
    using dispatch_irq [OF _ irq(1), of ?k dev] by blast
  have img: "length (exception_stubs img) = 48" "distinct (exception_stubs img)" using assms(2) by (simp_all add: image_ok_def)
  have gate: "length (idt k) = 256" "gate_for (exception_stubs img ! v) ?attr (idt k ! v)"
    using k(3) assms(3,4) by (auto simp: gates_installed_def)
  have "bit ?attr 7" by (simp add: bit_simps)
  from interrupt_run [OF assms(4) img gate(1) assms(5) gate(2) this es(1), of l]
  obtain x' where x': "interrupt dev l (exception_stubs img) v err (x, k) = Some (Returns, x',
      k\<lparr>io_trace := io_trace k @ es @ eoi_events (tf_vector ?f), trap_count := n + 1,
        g_ticks := g + (if v = 32 then 1 else 0)\<rparr>)" "same_context x x'"
    using k(4,5) irq(2) by (auto split del: if_split)
  have line: "(ucast (tf_vector ?f - 32) :: u8) = of_nat (v - 32)"
    using irq_of_vector [OF irq(1)] assms(4) unfolding v by (simp add: word_unat_eq_iff unat_of_nat)
  have "console_up (k\<lparr>io_trace := io_trace k @ es @ eoi_events (tf_vector ?f)\<rparr>)" using es(3) by (simp add: console_up_def)
  moreover have "tx_ready dev \<longrightarrow> snd (console (io_trace k @ es @ eoi_events (tf_vector ?f))) =
      console_text k @ irq_line (of_nat (v - 32)) g"
    using es(4) k(4) line by simp
  ultimately show ?thesis using irq_keeps [OF assms(1) es(2)] x' by (intro exI conjI) (assumption | simp)+
qed

text \<open>
  An exception in the running kernel: the breakpoint is reported and the thread goes on, any other exception is reported and
  halts the kernel with interrupts disabled.
\<close>

lemma exception_runs:
  assumes "running img s1 s2 c pt g n k" "image_ok img" "v < 32" "192 \<le> unat (rsp x)"
    and attr: "attr = (if v = 3 then X86_64_IDT_GATE_TRAP else X86_64_IDT_GATE_INTERRUPT)"
  shows "\<exists>x' k'. interrupt dev l (exception_stubs img) v err (x, k) = Some (if v = 3 then Returns else Halts, x', k') \<and>
    (v = 3 \<longrightarrow> same_context x x' \<and> rflags k' = rflags k \<and> running img s1 s2 c pt g (n + 1) k') \<and>
    (v \<noteq> 3 \<longrightarrow> \<not> bit (rflags k') 9) \<and> trap_count k' = n + 1 \<and> g_kmem k' = g_kmem k \<and> g_sched k' = g_sched k \<and>
    (tx_ready dev \<longrightarrow> console_text k' = console_text k @
       exception_text (expected_frame v err x (rflags k)) (entry_flags attr (rflags k)))"
proof -
  note k = running_parts [OF assms(1)]
  let ?k = "k\<lparr>rflags := entry_flags attr (rflags k)\<rparr>" and ?f = "expected_frame v err x (rflags k)"
  have u: "tf_vector ?f = of_nat v" "unat (of_nat v :: u64) = v" using assms(3) by (simp_all add: expected_frame_def unat_of_nat)
  then have f: "\<not> is_irq ?f" "tf_vector ?f = 3 \<longleftrightarrow> v = 3"
    unfolding is_irq_def u(1) using assms(3) by (auto simp: word_le_nat_alt word_unat_eq_iff)
  have "console_up ?k" using k(1) by (simp add: console_up_def)
  then obtain es where es: "run_state (x86_64_trap_dispatch dev (Some ?f)) ?k = (if v = 3 then Returns else Halts,
      ?k\<lparr>io_trace := io_trace k @ es, trap_count := n + 1,
        rflags := (if v = 3 then rflags ?k else rflags ?k AND NOT 0x200)\<rparr>)" "serial_only es"
    "tx_ready dev \<longrightarrow> snd (console (io_trace k @ es)) = console_text k @ exception_text ?f (rflags ?k)"
    using dispatch_exception [OF _ f(1), of ?k dev] k(5) f(2) by auto
  have img: "length (exception_stubs img) = 48" "distinct (exception_stubs img)" using assms(2) by (simp_all add: image_ok_def)
  have gate: "length (idt k) = 256" "gate_for (exception_stubs img ! v) attr (idt k ! v)"
    using k(3) assms(3) attr by (auto simp: gates_installed_def)
  have "v < 48" "bit attr 7" using assms(3) attr by (simp_all add: bit_simps)
  from interrupt_run [OF this(1) img gate(1) assms(4) gate(2) this(2) es(1), of l] obtain x' where
    x': "interrupt dev l (exception_stubs img) v err (x, k) = Some (if v = 3 then Returns else Halts, x',
      k\<lparr>io_trace := io_trace k @ es, trap_count := n + 1, rflags := (if v = 3 then rflags k else rflags ?k AND NOT 0x200)\<rparr>)"
    "v = 3 \<longrightarrow> same_context x x'"
    by (cases "v = 3") auto
  have "running img s1 s2 c pt g (n + 1) (k\<lparr>io_trace := io_trace k @ es, trap_count := n + 1\<rparr>)"
    using assms(1) console_up_serial [OF k(1) es(2)] es(2) ports_stable [of s1 s2]
    by (auto simp: running_def stage_defs idt_ready_def serial_stable_def)
  moreover have "\<not> bit (rflags ?k AND NOT 0x200) 9" by (simp add: bit_simps)
  ultimately show ?thesis using x' es(3) by (intro exI [of _ x'] exI conjI) (assumption | simp)+
qed

end
