(* ===== verification/Kernel_Log.thy ===== *)
theory Kernel_Log
  imports Kernel_Run
begin

text \<open>
  What the operator sees. The abstract kernel of this theory is a counter of thread calls, the position of the
  running thread, a counter of timer ticks and the text on the serial line; its steps are those of the threads and the
  interrupt requests. The kernel of \<open>Kernel_Run\<close> implements it: the machine prints exactly this text. The stack is left out
  of account; \<open>Kernel_Stack\<close> adds it.
\<close>

section \<open>Text of statements\<close>

text \<open>
  \<open>emits dev p s t q\<close>: if \<open>s\<close> returns, from a state with the console up and \<open>p\<close> of its page table, then the console stays
  up, \<open>q\<close> holds of the page table, and a ready transmitter has sent \<open>t\<close>. That the statements of the kernel return is shown with \<open>triple\<close>.
\<close>

definition emits ::
  "device \<Rightarrow> (vmm_mapping list \<Rightarrow> bool) \<Rightarrow> statement \<Rightarrow> string \<Rightarrow> (vmm_mapping list \<Rightarrow> bool) \<Rightarrow> bool" where
  "emits dev p s t q \<longleftrightarrow> (\<forall>k k'. console_up k \<longrightarrow> p (g_map k) \<longrightarrow> s k = Some (Returns, k') \<longrightarrow>
     console_up k' \<and> q (g_map k') \<and> (tx_ready dev \<longrightarrow> console_text k' = console_text k @ t))"

named_theorems emits \<open>what the statements print\<close>

lemma emits_text: "emits dev p s t q \<Longrightarrow> t = u \<Longrightarrow> emits dev p s u q"
  by simp

lemma emits_cong: "emits dev p s t q \<Longrightarrow> (\<And>k. p (g_map k) \<Longrightarrow> s' k = s k) \<Longrightarrow> emits dev p s' t q"
  by (simp add: emits_def)

lemma emits_Nil [emits]: "emits dev p (block []) [] p"
  by (simp add: emits_def)

lemma emits_Cons:
  assumes "emits dev p s t r" "emits dev r (block ss) u q"
  shows "emits dev p (block (s # ss)) (t @ u) q"
  unfolding emits_def
proof (intro allI impI)
  fix k k' assume k: "console_up k" "p (g_map k)" "block (s # ss) k = Some (Returns, k')"
  then obtain k1 where k1: "s k = Some (Returns, k1)" "block ss k1 = Some (Returns, k')"
    by (auto split: bind_splits control.splits)
  with k assms(1) have "console_up k1" "r (g_map k1)" "tx_ready dev \<longrightarrow> console_text k1 = console_text k @ t"
    by (auto simp: emits_def)
  with k1(2) assms(2) show "console_up k' \<and> q (g_map k') \<and> (tx_ready dev \<longrightarrow> console_text k' = console_text k @ t @ u)"
    by (auto simp: emits_def)
qed

lemma emits_prints:
  assumes "prints dev c t"
  shows "emits dev p (call c) t p"
  unfolding emits_def
proof (intro allI impI)
  fix k k' assume k: "console_up k" "p (g_map k)" "call c k = Some (Returns, k')"
  from prints_run [OF assms k(1)] obtain es where "run_state c k = ((), k\<lparr>io_trace := io_trace k @ es\<rparr>)"
    "console_up (k\<lparr>io_trace := io_trace k @ es\<rparr>)"
    "tx_ready dev \<longrightarrow> console_text (k\<lparr>io_trace := io_trace k @ es\<rparr>) = console_text k @ t" by blast
  then show "console_up k' \<and> p (g_map k') \<and> (tx_ready dev \<longrightarrow> console_text k' = console_text k @ t)"
    using k(2,3) by (auto simp: call_def)
qed

lemmas emits_say [emits] = emits_prints [OF prints_log_write] emits_prints [OF prints_log_writeln]
  emits_prints [OF prints_hex64] emits_prints [OF prints_key_value]

text \<open>Statements that leave the serial port alone.\<close>

lemma emits_silent:
  assumes "\<And>k k'. s k = Some (Returns, k') \<Longrightarrow> g_log_ready k' = g_log_ready k \<and>
     (\<exists>es. io_trace k' = io_trace k @ es \<and> (\<forall>e\<in>set es. event_port e \<noteq> COM1_PORT \<and> event_port e \<noteq> COM1_PORT + 3))"
    and "\<And>k k'. s k = Some (Returns, k') \<Longrightarrow> g_map k' = g_map k"
  shows "emits dev p s [] p"
  unfolding emits_def
proof (intro allI impI)
  fix k k' assume k: "console_up k" "p (g_map k)" "s k = Some (Returns, k')"
  obtain es where es: "io_trace k' = io_trace k @ es"
    "\<forall>e\<in>set es. event_port e \<noteq> COM1_PORT \<and> event_port e \<noteq> COM1_PORT + 3" "g_log_ready k' = g_log_ready k"
    using assms(1) [OF k(3)] by blast
  have "console (io_trace k') = console (io_trace k)"
    unfolding es(1) console_def foldl_append by (rule console_other_ports [OF es(2)])
  then show "console_up k' \<and> p (g_map k') \<and> (tx_ready dev \<longrightarrow> console_text k' = console_text k @ [])"
    using k(1,2) assms(2) [OF k(3)] es(3) by (simp add: console_up_def)
qed

lemma k_assert_returns: "k_assert dev line expr ok k = Some (Returns, k') \<longleftrightarrow> ok k \<and> k' = k"
  by (auto simp: k_assert_def kernel_assert_def kernel_panic_at_def cpu_halt_forever_def case_prod_unfold)

lemma emits_assert [emits]: "emits dev p (k_assert dev' line expr ok) [] p"
  by (rule emits_silent) (auto simp: k_assert_returns)

lemma emits_update:
  assumes "\<And>k. io_trace (f k) = io_trace k" "\<And>k. g_log_ready (f k) = g_log_ready k" "\<And>k. g_map (f k) = g_map k"
  shows "emits dev p (\<lambda>k. Some (Returns, f k)) [] p"
  by (rule emits_silent) (auto simp: assms)

section \<open>Text of the boot sequence\<close>

text \<open>Code that uses other ports only.\<close>

definition quiet :: "(kernel, 'a) state \<Rightarrow> bool" where
  "quiet c \<longleftrightarrow> (\<forall>k. \<exists>es. snd (run_state c k) = k\<lparr>io_trace := io_trace k @ es\<rparr> \<and>
     (\<forall>e\<in>set es. event_port e \<noteq> COM1_PORT \<and> event_port e \<noteq> COM1_PORT + 3))"

lemma quiet_ports:
  "q \<noteq> COM1_PORT \<Longrightarrow> q \<noteq> COM1_PORT + 3 \<Longrightarrow> quiet (outb q v)"
  "q \<noteq> COM1_PORT \<Longrightarrow> q \<noteq> COM1_PORT + 3 \<Longrightarrow> quiet (inb dev q)"
proof -
  have "\<exists>es. k\<lparr>io_trace := io_trace k @ [e]\<rparr> = k\<lparr>io_trace := io_trace k @ es\<rparr> \<and>
      (\<forall>e\<in>set es. event_port e \<noteq> COM1_PORT \<and> event_port e \<noteq> COM1_PORT + 3)"
    if "event_port e \<noteq> COM1_PORT" "event_port e \<noteq> COM1_PORT + 3" for k :: kernel and e
    by (rule exI [of _ "[e]"]) (use that in simp)
  then show "q \<noteq> COM1_PORT \<Longrightarrow> q \<noteq> COM1_PORT + 3 \<Longrightarrow> quiet (outb q v)"
    "q \<noteq> COM1_PORT \<Longrightarrow> q \<noteq> COM1_PORT + 3 \<Longrightarrow> quiet (inb dev q)"
    by (simp_all add: quiet_def outb_def inb_def Let_def)
qed

lemma quiet_bind:
  assumes "quiet c" "\<And>x. quiet (d x)"
  shows "quiet (State_Monad.bind c d)"
  unfolding quiet_def
proof
  fix k
  obtain es where es: "snd (run_state c k) = k\<lparr>io_trace := io_trace k @ es\<rparr>"
    "\<forall>e\<in>set es. event_port e \<noteq> COM1_PORT \<and> event_port e \<noteq> COM1_PORT + 3"
    using assms(1) unfolding quiet_def by blast
  let ?k = "k\<lparr>io_trace := io_trace k @ es\<rparr>"
  obtain fs where "snd (run_state (d (fst (run_state c k))) ?k) = ?k\<lparr>io_trace := io_trace ?k @ fs\<rparr>"
    "\<forall>e\<in>set fs. event_port e \<noteq> COM1_PORT \<and> event_port e \<noteq> COM1_PORT + 3"
    using assms(2) unfolding quiet_def by blast
  then show "\<exists>es. snd (run_state (State_Monad.bind c d) k) = k\<lparr>io_trace := io_trace k @ es\<rparr> \<and>
      (\<forall>e\<in>set es. event_port e \<noteq> COM1_PORT \<and> event_port e \<noteq> COM1_PORT + 3)"
    using es by (intro exI [of _ "es @ fs"]) (auto simp: case_prod_unfold)
qed

lemma emits_quiet:
  assumes "quiet c"
  shows "emits dev p (call c) [] p"
proof (rule emits_silent)
  fix k k' assume "call c k = Some (Returns, k')"
  moreover obtain es where "snd (run_state c k) = k\<lparr>io_trace := io_trace k @ es\<rparr>"
    "\<forall>e\<in>set es. event_port e \<noteq> COM1_PORT \<and> event_port e \<noteq> COM1_PORT + 3"
    using assms unfolding quiet_def by blast
  ultimately show "g_log_ready k' = g_log_ready k \<and> (\<exists>es. io_trace k' = io_trace k @ es \<and>
      (\<forall>e\<in>set es. event_port e \<noteq> COM1_PORT \<and> event_port e \<noteq> COM1_PORT + 3))" "g_map k' = g_map k"
    by (auto simp: call_def)
qed

lemma emits_ports [emits]:
  "emits dev p (call (pic_remap dev' a b)) [] p" "emits dev p (call pic_mask_all) [] p"
  "emits dev p (call (pic_unmask_irq dev' i)) [] p" "emits dev p (call (pit_configure_hz hz)) [] p"
  by (rule emits_quiet; simp add: pic_remap_def pic_mask_all_def pic_unmask_irq_def pit_configure_hz_def io_wait_def Let_def
      quiet_bind quiet_ports)+

lemma emits_sti [emits]: "emits dev p (call cpu_sti) [] p"
  by (rule emits_silent) (auto simp: call_def cpu_sti_def)

lemma emits_init_pmm [emits]: "emits dev p (init_pmm dev') [] p"
  by (rule emits_silent) (auto simp: init_pmm_def k_assert_returns split: bind_splits)

lemma emits_create_thread [emits]: "emits dev p (create_thread dev' line expr e) [] p"
  by (rule emits_silent) (auto simp: create_thread_def k_assert_returns split: bind_splits)

lemma emits_probe [emits]: "emits dev p (kmalloc_checked dev' line expr n) [] p"
  by (rule emits_silent) (auto simp: kmalloc_checked_def k_assert_returns split: bind_splits control.splits)

lemma emits_lock [emits]:
  "emits dev p (\<lambda>k. do { l \<leftarrow> f (m12_boot_lock k); Some (Returns, k\<lparr>m12_boot_lock := l\<rparr>) }) [] p"
  "emits dev p (\<lambda>k. do { l \<leftarrow> g (m12_boot_mutex k); Some (Returns, k\<lparr>m12_boot_mutex := l\<rparr>) }) [] p"
  by (rule emits_silent, auto split: bind_splits)+

subsection \<open>Parts of the boot sequence\<close>

lemma emits_vmm:
  "emits dev (\<lambda>g. g = bss_mappings) (init_vmm dev)
     (text_line ''[M7] vmm map ok'' @ hex_line ''[M7] vmm phys'' 0x200000) (\<lambda>g. True)"
proof -
  let ?b1 = "\<lambda>k. do {
              (found, phys, flags) \<leftarrow> vmm_query_page (g_map k) 0x400000 (Some 0) (Some 0);
              block [k_assert dev 250 ''query_ok'' (\<lambda>_. found),
                     call (log_write dev (Some ''[M7] vmm phys='')),
                     call (log_hex64 dev (the phys)),
                     call (log_writeln dev (Some ''''))] k }"
  let ?b2 = "block [k_assert dev 250 ''query_ok'' (\<lambda>_. True),
                     call (log_write dev (Some ''[M7] vmm phys='')),
                     call (log_hex64 dev 0x200000),
                     call (log_writeln dev (Some ''''))]"
  obtain g where g: "vmm_map_page bss_mappings 0x400000 0x200000 VMM_WRITABLE = Some (True, g)" "boot_mapping g"
    using boot_map_page by blast
  have "emits dev boot_mapping ?b2 (hex_line ''[M7] vmm phys'' 0x200000) boot_mapping"
    by (rule emits_text, (rule emits_Cons emits | (simp; fail))+) (simp add: hex_line_def text_line_def)
  then have b1: "emits dev boot_mapping ?b1 (hex_line ''[M7] vmm phys'' 0x200000) boot_mapping"
    by (rule emits_cong) (simp add: boot_query del: block.simps)
  have b: "emits dev boot_mapping (block [k_assert dev 235 ''map_ok'' (\<lambda>_. True),
      call (log_writeln dev (Some ''[M7] vmm map ok'')), ?b1])
      (text_line ''[M7] vmm map ok'' @ hex_line ''[M7] vmm phys'' 0x200000) boot_mapping"
    by (rule emits_text, (rule emits_Cons emits b1 | (simp; fail))+) (simp add: text_line_def)
  show ?thesis
    unfolding emits_def
  proof (intro allI impI)
    fix k k' assume k: "console_up k" "g_map k = bss_mappings" "init_vmm dev k = Some (Returns, k')"
    then have "block [k_assert dev 235 ''map_ok'' (\<lambda>_. True), call (log_writeln dev (Some ''[M7] vmm map ok'')), ?b1]
        (k\<lparr>g_map := g\<rparr>) = Some (Returns, k')"
      using g(1) by (simp add: init_vmm_def del: block.simps)
    moreover have "console_up (k\<lparr>g_map := g\<rparr>)" using k(1) by (simp add: console_up_def)
    ultimately have "console_up k' \<and> (tx_ready dev \<longrightarrow> console_text k' = console_text (k\<lparr>g_map := g\<rparr>) @
        text_line ''[M7] vmm map ok'' @ hex_line ''[M7] vmm phys'' 0x200000)"
      using b g(2) unfolding emits_def by fastforce
    then show "console_up k' \<and> True \<and> (tx_ready dev \<longrightarrow> console_text k' = console_text k @
        text_line ''[M7] vmm map ok'' @ hex_line ''[M7] vmm phys'' 0x200000)" by simp
  qed
qed

lemma emits_heap [emits]:
  "emits dev p (m8_heap_bootstrap dev img) (text_line ''[M8] kmem initialized'') p"
  unfolding m8_heap_bootstrap_def
  by (rule emits_text, (rule emits_Cons emits emits_update | (simp; fail))+) (simp add: text_line_def)

lemma emits_sync [emits]:
  "emits dev p (m12_sync_selftest dev) (text_line ''[M12] sync selftest passed'') p"
  unfolding m12_sync_selftest_def
  by (rule emits_text, (rule emits_Cons emits emits_update | (simp; fail))+) (simp add: text_line_def)

lemma emits_m5 [emits]:
  "emits dev p (m5_selftest dev img) (text_line ''[M5] selftest: IDT invariants passed'') p"
  unfolding m5_selftest_def
  by (rule emits_text, (rule emits_Cons emits | (simp; fail))+) (simp add: text_line_def)

lemma emits_idt [emits]: "emits dev p (x86_64_idt_init dev base stubs) (idt_text base) p"
  unfolding emits_def
proof (intro allI impI)
  fix k k' assume k: "console_up k" "p (g_map k)" "x86_64_idt_init dev base stubs k = Some (Returns, k')"
  then obtain t where "idt_fill stubs (idt k) = Some t" by (auto simp: x86_64_idt_init_def split: bind_splits)
  from idt_load_run [OF k(1) this, of dev base] k(2,3)
  show "console_up k' \<and> p (g_map k') \<and> (tx_ready dev \<longrightarrow> console_text k' = console_text k @ idt_text base)"
    by (auto simp: console_up_def)
qed

definition boot_text :: "kernel_image \<Rightarrow> string" where
  "boot_text img =
     text_line ''MCSOS 260502 M4 [M12] synchronization subsystem'' @
     hex_line ''kernel_start'' (kernel_start img) @ hex_line ''kernel_end'' (kernel_end img) @
     text_line ''[M6] pmm initialized'' @
     text_line ''[M7] vmm map ok'' @ hex_line ''[M7] vmm phys'' 0x200000 @
     hex_line ''[M7] cr3'' (vmm_read_cr3 (boot_mmu img)) @
     text_line ''[M8] kmem initialized'' @ text_line ''[M12] sync selftest passed'' @
     text_line ''[M9] scheduler initialized'' @ idt_text (idt_address img) @
     text_line ''[M5] idt: loaded'' @ text_line ''[M5] selftest: IDT invariants passed'' @
     text_line ''[M5] sti: enabling interrupts''"

lemma emits_start:
  assumes "emits dev p (block ss) t q" "p (g_map k)"
    "block (call cpu_cli # call log_init # ss) k = Some (Returns, k')"
  shows "tx_ready dev \<longrightarrow> console_text k' = console_text k @ t"
proof -
  let ?k1 = "snd (run_state cpu_cli k)" and ?k = "snd (run_state log_init (snd (run_state cpu_cli k)))"
  have "block ss ?k = Some (Returns, k')" using assms(3) by (simp add: call_def)
  moreover have "console_up ?k" "console_text ?k = console_text ?k1" using log_init_up [of ?k1] by auto
  moreover have "io_trace ?k1 = io_trace k" "g_map ?k = g_map k"
    by (simp_all add: cpu_cli_def log_init_def serial_init_def outb_def)
  ultimately show ?thesis using assms(1,2) unfolding emits_def by auto
qed

lemma boot_emits:
  assumes "g_map k = bss_mappings" "kmain_boot dev img k = Some (Returns, k')"
  shows "tx_ready dev \<longrightarrow> console_text k' = console_text k @ boot_text img"
  by (rule emits_start [OF _ _ assms(2) [unfolded kmain_boot_def], where p = "\<lambda>g. g = bss_mappings"], rule emits_text,
      (rule emits_Cons emits emits_vmm emits_update | (simp; fail))+)
    (simp_all add: boot_text_def hex_line_def text_line_def assms(1))

section \<open>The abstract kernel\<close>

text \<open>Where a thread is; while it prints, what is still to be done at the serial port, with a transmitter that is ready.\<close>

datatype thread_phase = Logging | Printing "out_op list" | Allocating | Checking | Freeing | Yielding

datatype kernel_event = Thread_step | Request nat

record kernel_view =
  calls :: nat
  phase :: thread_phase
  ticks :: u64
  shown :: string

definition thread_text :: "nat \<Rightarrow> string" where
  "thread_text n = ''[M9] thread '' @ [''ABCD'' ! (n mod 4)] @ '' running''"

definition printing :: "nat \<Rightarrow> out_op list \<Rightarrow> thread_phase" where
  "printing n ops = (if ops \<noteq> [] then Printing ops else if n mod 4 < 2 then Allocating else Yielding)"

definition request_line :: "nat \<Rightarrow> u64 \<Rightarrow> string" where
  "request_line v t =
     (if v = 32 then (if (t + 1) mod 100 = 0 then text_line (''[MCSOS:TIMER] ticks='' @ dec_text (t + 1)) else [])
      else text_line (''[M5] unexpected irq='' @ dec_text (of_nat (v - 32))))"

definition view_step :: "kernel_view \<Rightarrow> kernel_view" where
  "view_step s = (case phase s of
     Logging \<Rightarrow> s\<lparr>phase := printing (calls s) (next_ops (line_ops (thread_text (calls s))))\<rparr>
   | Printing ops \<Rightarrow> s\<lparr>shown := shown s @ sent ops, phase := printing (calls s) (next_ops ops)\<rparr>
   | Allocating \<Rightarrow> s\<lparr>phase := Checking\<rparr>
   | Checking \<Rightarrow> s\<lparr>phase := Freeing\<rparr>
   | Freeing \<Rightarrow> s\<lparr>phase := Yielding\<rparr>
   | Yielding \<Rightarrow> s\<lparr>calls := Suc (calls s), phase := Logging\<rparr>)"

fun view_event :: "kernel_view \<Rightarrow> kernel_event \<Rightarrow> kernel_view" where
  "view_event s Thread_step = view_step s"
| "view_event s (Request v) =
     s\<lparr>ticks := (if v = 32 then ticks s + 1 else ticks s), shown := shown s @ request_line v (ticks s)\<rparr>"

definition view_after :: "kernel_image \<Rightarrow> kernel_event list \<Rightarrow> kernel_view" where
  "view_after img = foldl view_event \<lparr>calls = 1, phase = Logging, ticks = 0, shown = boot_text img\<rparr>"

section \<open>Runs\<close>

text \<open>
  What can happen after the start in state \<open>k0\<close>: boot, then steps of the thread that was called last and interrupt
  requests in any order, between any two steps of the threads, with any contents of the registers and 192 bytes of stack.
  \<open>evs\<close> are the events so far and \<open>n\<close> is the number of thread calls.
\<close>

inductive kernel_reach ::
  "device \<Rightarrow> kernel_image \<Rightarrow> kernel \<Rightarrow> kernel_event list \<Rightarrow> nat \<Rightarrow> activity \<Rightarrow> point \<Rightarrow> kernel \<Rightarrow> bool" for dev img k0 where
  reach_boot: "power_on k0 \<Longrightarrow> kmain dev img k0 = Some (a, k) \<Longrightarrow> kernel_reach dev img k0 [] 1 a At_log k"
| reach_step: "kernel_reach dev img k0 evs n (Runs e) pt k \<Longrightarrow> thread_step dev img e pt k = Some (a, pt', k') \<Longrightarrow>
    kernel_reach dev img k0 (evs @ [Thread_step]) (if pt = At_yield then Suc n else n) a pt' k'"
| reach_irq: "kernel_reach dev img k0 evs n a pt k \<Longrightarrow> a \<noteq> Halted \<Longrightarrow> bit (rflags k) 9 \<Longrightarrow> 32 \<le> v \<Longrightarrow> v < 48 \<Longrightarrow>
    192 \<le> unat (rsp x) \<Longrightarrow> interrupt dev l (exception_stubs img) v err (x, k) = Some (r, x', k') \<Longrightarrow>
    kernel_reach dev img k0 (evs @ [Request v]) n (if r = Returns then a else Halted) pt k'"

text \<open>Thread steps, interrupt requests and timer interrupts in a sequence of events.\<close>

definition steps_in :: "kernel_event list \<Rightarrow> nat" where
  "steps_in evs = count_list evs Thread_step"

definition requests_in :: "kernel_event list \<Rightarrow> nat" where
  "requests_in evs = length evs - steps_in evs"

definition timer_ticks_in :: "kernel_event list \<Rightarrow> nat" where
  "timer_ticks_in evs = count_list evs (Request 32)"

lemma event_counts [simp]:
  "steps_in [] = 0" "requests_in [] = 0" "timer_ticks_in [] = 0"
  "steps_in (evs @ [Thread_step]) = Suc (steps_in evs)" "steps_in (evs @ [Request v]) = steps_in evs"
  "requests_in (evs @ [Thread_step]) = requests_in evs" "requests_in (evs @ [Request v]) = Suc (requests_in evs)"
  "timer_ticks_in (evs @ [Thread_step]) = timer_ticks_in evs"
  "timer_ticks_in (evs @ [Request v]) = (if v = 32 then Suc (timer_ticks_in evs) else timer_ticks_in evs)"
proof -
  have "count_list evs Thread_step \<le> length evs" by (rule count_le_length)
  then show "requests_in (evs @ [Request v]) = Suc (requests_in evs)" by (simp add: requests_in_def steps_in_def Suc_diff_le)
qed (auto simp: steps_in_def requests_in_def timer_ticks_in_def)

lemma kernel_reach_running:
  assumes "kernel_reach dev img k0 evs n a pt k" "image_ok img" "imr_reads dev s1"
  shows "a = Runs (entries img ! (n mod 4)) \<and>
    running img s1 s2 (n mod 4) pt (of_nat (timer_ticks_in evs)) (of_nat (requests_in evs)) k \<and>
    steps_in evs + steps_left pt \<le> 2300052 * n"
  using assms(1)
proof (induction rule: kernel_reach.induct)
  case (reach_boot a k)
  obtain k1 where k1: "kmain_boot dev img k0 = Some (Returns, k1)" "running img s1 s2 0 At_yield 0 0 k1"
    using tripleD [OF kmain_boot_triple [OF assms(2,3)] reach_boot(1)] booted_running by blast
  with reach_boot(2) yield_runs [OF k1(2), of Idles] show ?case by (simp add: kmain_def)
next
  case (reach_step evs n e pt k a pt' k')
  from step_runs [OF assms(2), of s1 s2 "n mod 4" pt _ _ k dev] reach_step
  show ?case by (cases "pt = At_yield") (fastforce simp: mod_Suc_eq)+
next
  case (reach_irq evs n a pt k v x l err r x' k')
  then show ?case
    using irq_runs [of img s1 s2 "n mod 4" pt "of_nat (timer_ticks_in evs)" "of_nat (requests_in evs)" k v x dev l err] assms(2)
    by (auto simp: add.commute)
qed

section \<open>The kernel shows the abstract text\<close>

fun phase_of :: "point \<Rightarrow> thread_phase" where
  "phase_of At_log = Logging"
| "phase_of (At_out ops) = Printing ops"
| "phase_of At_alloc = Allocating"
| "phase_of (At_check p) = Checking"
| "phase_of (At_free p) = Freeing"
| "phase_of At_yield = Yielding"

lemma body_text:
  assumes "image_ok img"
  shows "\<exists>probe. thread_body img (entries img ! (n mod 4)) = Some (thread_text n, probe) \<and> (probe = None \<longleftrightarrow> \<not> n mod 4 < 2)"
proof -
  have "n mod 4 = 0 \<or> n mod 4 = 1 \<or> n mod 4 = 2 \<or> n mod 4 = 3" by auto
  then show ?thesis using assms by (auto simp: image_ok_def thread_body_def entries_def thread_text_def)
qed

lemma view_step_ticks: "ticks (view_step s) = ticks s"
  by (simp add: view_step_def split: thread_phase.split)

text \<open>A thread step shows what \<open>view_step\<close> says.\<close>

lemma out_shows:
  assumes "tx_ready dev" "console_up k" "console_text k = t0 @ t" "b \<longleftrightarrow> n mod 4 < 2"
  shows "phase_of (after_out b (fst (out_step dev ops k))) = printing n (next_ops ops)"
    "console_text (snd (out_step dev ops k)) = t0 @ t @ sent ops"
  using out_step_effect [OF assms(2), of dev ops] assms(1,3,4) by (auto simp: after_out_def printing_def)

lemma step_shows:
  assumes "image_ok img" "tx_ready dev" "console_up k"
    "thread_step dev img (entries img ! (calls s mod 4)) pt k = Some (a, pt', k')" "a \<noteq> Halted"
    "phase s = phase_of pt" "console_text k = t0 @ shown s"
  shows "phase (view_step s) = phase_of pt' \<and> calls (view_step s) = (if pt = At_yield then Suc (calls s) else calls s) \<and>
    console_text k' = t0 @ shown (view_step s)"
proof -
  obtain probe where b: "thread_body img (entries img ! (calls s mod 4)) = Some (thread_text (calls s), probe)"
    "probe \<noteq> None \<longleftrightarrow> calls s mod 4 < 2"
    using body_text [OF assms(1)] by blast
  note out = out_shows [OF assms(2,3,7) b(2)]
  show ?thesis
  proof (cases pt)
    case At_log
    then show ?thesis using assms(4,6) b(1) out [of "line_ops (thread_text (calls s))"]
      by (auto simp: thread_step_def view_step_def case_prod_beta Let_def line_ops_def)
  next
    case (At_out ops)
    then show ?thesis using assms(4,6) b(1) out [of ops] by (auto simp: thread_step_def view_step_def case_prod_beta Let_def)
  next
    case (At_check p)
    then show ?thesis using assms(4-7) b(1)
      by (cases "p = 0") (auto simp: thread_step_def k_assert_def kernel_assert_def kernel_panic_at_def cpu_halt_forever_def
          view_step_def case_prod_unfold split: bind_splits)
  qed (use assms(4,6,7) b(1) in \<open>auto simp: thread_step_def yield_from_def view_step_def split: bind_splits\<close>)
qed

text \<open>Left alone, a thread prints its line and goes on to its allocation, if it has one.\<close>

primrec op_text :: "out_op \<Rightarrow> string" where
  "op_text Ensure = []"
| "op_text (Poll c n) = [c]"
| "op_text (Send c) = [c]"

lemma view_prints:
  assumes "phase s = printing (calls s) ops"
  shows "\<exists>m. (view_step ^^ m) s = s\<lparr>shown := shown s @ concat (map op_text ops), phase := printing (calls s) []\<rparr>"
  using assms
proof (induction "ops_work ops" arbitrary: ops s rule: less_induct)
  case less
  show ?case
  proof (cases ops)
    case Nil
    then show ?thesis using less.prems by (intro exI [of _ 0]) simp
  next
    case (Cons op os)
    let ?s = "view_step s"
    have s: "?s = s\<lparr>shown := shown s @ sent ops, phase := printing (calls s) (next_ops ops)\<rparr>"
      using less.prems Cons by (simp add: printing_def view_step_def)
    have "ops_work (next_ops ops) < ops_work ops" using Cons by (cases op) auto
    from less.hyps [OF this, of ?s] obtain m where
      "(view_step ^^ m) ?s = ?s\<lparr>shown := shown ?s @ concat (map op_text (next_ops ops)), phase := printing (calls ?s) []\<rparr>"
      using s by auto
    moreover have "sent ops @ concat (map op_text (next_ops ops)) = concat (map op_text ops)" using Cons by (cases op) auto
    ultimately have "(view_step ^^ Suc m) s = s\<lparr>shown := shown s @ concat (map op_text ops), phase := printing (calls s) []\<rparr>"
      unfolding funpow_Suc_right comp_apply by (simp add: s)
    then show ?thesis by blast
  qed
qed

lemma view_line:
  assumes "phase s = Logging"
  shows "\<exists>m. (view_step ^^ m) s = s\<lparr>shown := shown s @ text_line (thread_text (calls s)), phase := printing (calls s) []\<rparr>"
proof -
  let ?ops = "next_ops (line_ops (thread_text (calls s)))" and ?s = "view_step s"
  have s: "?s = s\<lparr>phase := printing (calls s) ?ops\<rparr>" using assms by (simp add: view_step_def)
  have "calls s mod 4 = 0 \<or> calls s mod 4 = 1 \<or> calls s mod 4 = 2 \<or> calls s mod 4 = 3" by auto
  then have t: "concat (map op_text ?ops) = text_line (thread_text (calls s))"
    by (auto simp: line_ops_def putc_ops_def thread_text_def text_line_def)
  obtain m where "(view_step ^^ m) ?s = ?s\<lparr>shown := shown ?s @ text_line (thread_text (calls s)), phase := printing (calls ?s) []\<rparr>"
    using view_prints [of ?s ?ops] s t by auto
  then have "(view_step ^^ Suc m) s = s\<lparr>shown := shown s @ text_line (thread_text (calls s)), phase := printing (calls s) []\<rparr>"
    unfolding funpow_Suc_right comp_apply by (simp add: s)
  then show ?thesis by blast
qed

lemma request_shows:
  assumes "32 \<le> v" "v < 48"
  shows "irq_line (of_nat (v - 32)) t = request_line v t"
proof -
  have u: "unat (of_nat (v - 32) :: u8) = v - 32" using assms(2) by (simp add: unat_of_nat)
  then have "(of_nat (v - 32) :: u8) = 0 \<longleftrightarrow> v = 32" using assms(1) by (auto simp: unat_eq_0 [symmetric])
  moreover have "(ucast (of_nat (v - 32) :: u8) :: u64) = of_nat (v - 32)"
    using u assms(2) by (simp add: word_unat_eq_iff unsigned_ucast_eq unat_of_nat take_bit_nat_eq_self)
  ultimately show ?thesis by (simp add: irq_line_def request_line_def tick_line_def text_line_def)
qed

lemma view_snoc: "view_after img (evs @ [e]) = view_event (view_after img evs) e"
  by (simp add: view_after_def)

lemma kernel_reach_view:
  assumes "kernel_reach dev img k0 evs n a pt k" "image_ok img" "imr_reads dev s1" "tx_ready dev"
  shows "calls (view_after img evs) = n \<and> phase (view_after img evs) = phase_of pt \<and>
    ticks (view_after img evs) = of_nat (timer_ticks_in evs) \<and>
    console_text k = console_text k0 @ shown (view_after img evs)"
  using assms(1)
proof (induction rule: kernel_reach.induct)
  case (reach_boot a k)
  obtain k1 where k1: "kmain_boot dev img k0 = Some (Returns, k1)"
    using tripleD [OF kmain_boot_triple [OF assms(2,3)] reach_boot(1)] by blast
  have "console_text k = console_text k1"
    using reach_boot(2) k1 by (auto simp: kmain_def yield_from_def split: bind_splits)
  then show ?case using boot_emits [OF _ k1] reach_boot(1) assms(4) by (simp add: view_after_def power_on_def)
next
  case (reach_step evs n e pt k a pt' k')
  have r: "e = entries img ! (n mod 4)" "running img s1 s1 (n mod 4) pt (of_nat (timer_ticks_in evs)) (of_nat (requests_in evs)) k"
    using kernel_reach_running [OF reach_step(1) assms(2,3)] by auto
  have "a \<noteq> Halted" using step_runs [OF assms(2) r(2), of dev] reach_step(2) r(1) by auto
  from step_shows [OF assms(2,4) running_parts(1) [OF r(2)] _ this, of "view_after img evs" pt pt' k' "console_text k0"]
  show ?case using reach_step r(1) by (auto simp: view_snoc view_step_ticks)
next
  case (reach_irq evs n a pt k v x l err r x' k')
  have run: "running img s1 s1 (n mod 4) pt (of_nat (timer_ticks_in evs)) (of_nat (requests_in evs)) k"
    using kernel_reach_running [OF reach_irq(1) assms(2,3)] by auto
  have "console_text k' = console_text k @ request_line v (of_nat (timer_ticks_in evs))"
    using irq_runs [OF run assms(2) reach_irq(4-6), of dev l err] reach_irq(7) request_shows [OF reach_irq(4,5)] assms(4) by auto
  with reach_irq show ?case by (simp add: view_snoc add.commute)
qed

text \<open>Every sequence of events can happen.\<close>

definition event_ok :: "kernel_event \<Rightarrow> bool" where
  "event_ok e = (case e of Thread_step \<Rightarrow> True | Request v \<Rightarrow> 32 \<le> v \<and> v < 48)"

lemma kernel_reach_any:
  assumes "image_ok img" "imr_reads dev s1" "power_on k0" "\<forall>e\<in>set evs. event_ok e"
  shows "\<exists>n a pt k. kernel_reach dev img k0 evs n a pt k"
  using assms(4)
proof (induction evs rule: rev_induct)
  case Nil
  obtain k1 where k1: "kmain_boot dev img k0 = Some (Returns, k1)" "running img s1 s1 0 At_yield 0 0 k1"
    using tripleD [OF kmain_boot_triple [OF assms(1,2)] assms(3)] booted_running by blast
  then have "\<exists>a k. kmain dev img k0 = Some (a, k)" using yield_runs [OF k1(2), of Idles] by (auto simp: kmain_def)
  then show ?case using reach_boot [OF assms(3)] by blast
next
  case (snoc e evs)
  then obtain n a pt k where k: "kernel_reach dev img k0 evs n a pt k" by auto
  have r: "a = Runs (entries img ! (n mod 4))" "running img s1 s1 (n mod 4) pt (of_nat (timer_ticks_in evs)) (of_nat (requests_in evs)) k"
    using kernel_reach_running [OF k assms(1,2)] by auto
  show ?case
  proof (cases e)
    case Thread_step
    then show ?thesis using step_runs [OF assms(1) r(2), of dev] reach_step [OF k [unfolded r(1)]] by blast
  next
    case (Request v)
    then have v: "32 \<le> v" "v < 48" using snoc.prems by (auto simp: event_ok_def)
    have sp: "192 \<le> unat (rsp (x\<lparr>rsp := 0x1000\<rparr>))" for x by simp
    from irq_runs [OF r(2) assms(1) v sp] obtain x l err r' x' k' where
      "interrupt dev l (exception_stubs img) v err (x\<lparr>rsp := 0x1000\<rparr>, k) = Some (r', x', k')" by blast
    from reach_irq [OF k _ running_parts(2) [OF r(2)] v sp this] show ?thesis using r(1) Request by auto
  qed
qed

end
