(* ===== verification/Kernel_Stack.thy ===== *)
theory Kernel_Stack
  imports Kernel_Log
begin

text \<open>
  The running kernel on its stack. \<open>thread_yield\<close> (\<open>core/thread.c\<close>) calls the entry of the next thread, and no thread function ever
  returns, so every call of a thread stays on the boot stack below the previous one. \<open>yield_from\<close> of \<open>Kmain\<close> says which entry is
  called; here the activations are kept, and a call that finds no room has no defined result. How many bytes an
  activation takes is decided by the compiler, how many there are by the boot loader: both are parameters.
\<close>

section \<open>Activations\<close>

record stack_layout =
  stack_low :: nat
  stack_size :: nat
  boot_frame :: nat
  thread_frame :: "u64 \<Rightarrow> nat"
  call_room :: nat

text \<open>
  \<open>boot_frame\<close> are the bytes that \<open>kmain\<close> and its call of \<open>thread_yield\<close> take, \<open>thread_frame e\<close> those from the entry of thread \<open>e\<close> to the entry of
  the thread that it calls, with both return addresses. \<open>call_room\<close> is the room for the deepest other calls of a thread and for an interrupt.
  A call pushes a return address of eight bytes, and an interrupt takes 192 bytes for the frame that processor and stub build.
\<close>

definition stack_ok :: "stack_layout \<Rightarrow> bool" where
  "stack_ok L \<longleftrightarrow> (\<forall>e. 8 \<le> thread_frame L e) \<and> 192 \<le> call_room L \<and> stack_low L + stack_size L < 2 ^ 64"

text \<open>The activations are the entries of the threads that have been called, the running one first.\<close>

definition stack_used :: "stack_layout \<Rightarrow> u64 list \<Rightarrow> nat" where
  "stack_used L acts = boot_frame L + sum_list (map (thread_frame L) acts)"

definition stack_fits :: "stack_layout \<Rightarrow> u64 list \<Rightarrow> bool" where
  "stack_fits L acts \<longleftrightarrow> stack_used L acts + call_room L \<le> stack_size L"

text \<open>The stack pointer is below the frames of the callers of the running thread, with 192 bytes left.\<close>

definition rsp_in :: "stack_layout \<Rightarrow> u64 list \<Rightarrow> core \<Rightarrow> bool" where
  "rsp_in L acts x \<longleftrightarrow> stack_low L + 192 \<le> unat (rsp x) \<and>
     unat (rsp x) + stack_used L (tl acts) \<le> stack_low L + stack_size L"

section \<open>Calls on the stack\<close>

definition yield_on :: "stack_layout \<Rightarrow> u64 list \<Rightarrow> kernel \<Rightarrow> (u64 list \<times> kernel) option" where
  "yield_on L acts k = do {
     (e, s) \<leftarrow> thread_yield (g_sched k);
     (case e of
        None \<Rightarrow> Some (acts, k\<lparr>g_sched := s\<rparr>)
      | Some entry \<Rightarrow> if stack_fits L (entry # acts) then Some (entry # acts, k\<lparr>g_sched := s\<rparr>) else None)
   }"

definition top :: "u64 list \<Rightarrow> activity" where
  "top acts = (case acts of [] \<Rightarrow> Idles | e # es \<Rightarrow> Runs e)"

definition stack_boot :: "stack_layout \<Rightarrow> device \<Rightarrow> kernel_image \<Rightarrow> kernel \<Rightarrow> (activity \<times> u64 list \<times> kernel) option" where
  "stack_boot L dev img k = do {
     (c, k') \<leftarrow> kmain_boot dev img k;
     (case c of
        Halts \<Rightarrow> Some (Halted, [], k')
      | Returns \<Rightarrow> do { (acts, k'') \<leftarrow> yield_on L [] k'; Some (top acts, acts, k'') })
   }"

definition stack_step ::
  "stack_layout \<Rightarrow> device \<Rightarrow> kernel_image \<Rightarrow> u64 list \<Rightarrow> point \<Rightarrow> kernel \<Rightarrow> (activity \<times> u64 list \<times> point \<times> kernel) option" where
  "stack_step L dev img acts pt k =
     (case acts of
        [] \<Rightarrow> None
      | e # es \<Rightarrow>
          if pt = At_yield then do { (acts', k') \<leftarrow> yield_on L acts k; Some (top acts', acts', At_log, k') }
          else do { (a, pt', k') \<leftarrow> thread_step dev img e pt k; Some (a, acts, pt', k') })"

text \<open>Runs from a state \<open>c0\<close>, with thread steps and interrupt requests in any order.\<close>

type_synonym stack_state = "activity \<times> u64 list \<times> point \<times> kernel"

inductive stack_runs ::
  "stack_layout \<Rightarrow> device \<Rightarrow> kernel_image \<Rightarrow> stack_state \<Rightarrow> kernel_event list \<Rightarrow> stack_state \<Rightarrow> bool" for L dev img c0 where
  runs_none: "stack_runs L dev img c0 [] c0"
| runs_step: "stack_runs L dev img c0 evs (Runs e, acts, pt, k) \<Longrightarrow>
    stack_step L dev img acts pt k = Some (a, acts', pt', k') \<Longrightarrow>
    stack_runs L dev img c0 (evs @ [Thread_step]) (a, acts', pt', k')"
| runs_irq: "stack_runs L dev img c0 evs (a, acts, pt, k) \<Longrightarrow> a \<noteq> Halted \<Longrightarrow> bit (rflags k) 9 \<Longrightarrow> 32 \<le> v \<Longrightarrow> v < 48 \<Longrightarrow>
    rsp_in L acts x \<Longrightarrow> interrupt dev l (exception_stubs img) v err (x, k) = Some (r, x', k') \<Longrightarrow>
    stack_runs L dev img c0 (evs @ [Request v]) (if r = Returns then a else Halted, acts, pt, k')"

text \<open>The entries that are called, the \<open>n\<close>-th one first: A is thread 0, the first call is that of B.\<close>

primrec called :: "kernel_image \<Rightarrow> nat \<Rightarrow> u64 list" where
  "called img 0 = []"
| "called img (Suc n) = entries img ! (Suc n mod 4) # called img n"

lemma length_called [simp]: "length (called img n) = n"
  by (induction n) simp_all

lemma called_split: "called img (n + d) = map (\<lambda>i. entries img ! (i mod 4)) (rev [Suc n..<Suc (n + d)]) @ called img n"
  by (induction d) simp_all

lemma set_entries: "set (entries img) = {entry_a img, entry_b img, entry_c img, entry_d img}" "length (entries img) = 4"
  by (auto simp: entries_def)

text \<open>Four calls in a row are calls of all four threads.\<close>

lemma called_all:
  assumes "4 \<le> d"
  shows "\<exists>new. called img (n + d) = new @ called img n \<and> set new = set (entries img)"
proof -
  let ?new = "map (\<lambda>i. entries img ! (i mod 4)) (rev [Suc n..<Suc (n + d)])"
  have "entries img ! c \<in> set ?new" if "c < 4" for c
  proof -
    let ?i = "Suc n + (c + 3 * Suc n) mod 4"
    have "?i mod 4 = (Suc n + (c + 3 * Suc n)) mod 4" by (simp only: mod_add_right_eq)
    also have "Suc n + (c + 3 * Suc n) = c + 4 * Suc n" by simp
    finally have "?i mod 4 = c" using that by (simp only: mod_mult_self2 mod_less)
    moreover have "(c + 3 * Suc n) mod 4 < d" using assms by (meson less_le_trans mod_less_divisor zero_less_numeral)
    then have "?i \<in> set (rev [Suc n..<Suc (n + d)])" unfolding set_rev set_upt by auto
    ultimately show ?thesis unfolding set_map by (metis (no_types, lifting) image_eqI)
  qed
  then have "set (entries img) \<subseteq> set ?new" using set_entries(2) by (auto simp: in_set_conv_nth)
  moreover have "set ?new \<subseteq> set (entries img)" using set_entries(2) by auto
  ultimately show ?thesis using called_split by (metis subset_antisym)
qed

section \<open>Invariant\<close>

lemma stack_fits_calls:
  assumes "stack_ok L" "stack_fits L acts"
  shows "boot_frame L + 8 * length acts + call_room L \<le> stack_size L"
proof -
  have "8 * length acts \<le> sum_list (map (thread_frame L) acts)"
    using assms(1) by (induction acts) (auto simp: stack_ok_def add_mono)
  then show ?thesis using assms(2) by (simp add: stack_fits_def stack_used_def)
qed

lemma rsp_in_bound: "rsp_in L acts x \<Longrightarrow> 192 \<le> unat (rsp x)"
  by (simp add: rsp_in_def)

lemma rsp_in_some:
  assumes "stack_ok L" "stack_fits L acts"
  shows "rsp_in L acts (x\<lparr>rsp := of_nat (stack_low L + 192)\<rparr>)"
proof -
  have "stack_used L (tl acts) \<le> stack_used L acts" by (cases acts) (simp_all add: stack_used_def)
  then have "stack_used L (tl acts) + 192 \<le> stack_size L" using assms by (simp add: stack_fits_def stack_ok_def)
  moreover have "unat (of_nat (stack_low L + 192) :: u64) = stack_low L + 192"
    using calculation assms(1) by (simp only: unat_of_nat) (simp add: stack_ok_def take_bit_nat_eq_self)
  ultimately show ?thesis by (simp add: rsp_in_def)
qed

text \<open>A state of the running kernel after \<open>n\<close> thread calls, \<open>t\<close> timer interrupts and \<open>m\<close> interrupts.\<close>

definition on_stack ::
  "stack_layout \<Rightarrow> kernel_image \<Rightarrow> nat \<times> u8 \<times> u8 \<Rightarrow> nat \<Rightarrow> nat \<Rightarrow> nat \<Rightarrow> stack_state \<Rightarrow> bool" where
  "on_stack L img s n t m = (\<lambda>(a, acts, pt, k). 0 < n \<and> acts = called img n \<and> a = Runs (entries img ! (n mod 4)) \<and>
     stack_fits L acts \<and> steps_left pt \<le> 2300052 \<and> running img s s (n mod 4) pt (of_nat t) (of_nat m) k)"

lemma yield_on_runs:
  assumes "running img s1 s2 c At_yield g n k"
  shows "\<exists>k'. yield_on L acts k =
      (if stack_fits L (entries img ! (Suc c mod 4) # acts) then Some (entries img ! (Suc c mod 4) # acts, k') else None) \<and>
    running img s1 s2 (Suc c mod 4) At_log g n k'"
proof -
  obtain k' where k': "yield_from Idles k = Some (Runs (entries img ! (Suc c mod 4)), k')"
    "running img s1 s2 (Suc c mod 4) At_log g n k'"
    using yield_runs [OF assms, of Idles] by blast
  then obtain s where "thread_yield (g_sched k) = Some (Some (entries img ! (Suc c mod 4)), s)" "k' = k\<lparr>g_sched := s\<rparr>"
    by (auto simp: yield_from_def split: bind_splits option.splits)
  then show ?thesis using k'(2) by (auto simp: yield_on_def)
qed

lemma stack_boot_runs:
  assumes "image_ok img" "imr_reads dev s" "power_on k0"
  shows "\<exists>k. stack_boot L dev img k0 =
      (if stack_fits L [entry_b img] then Some (Runs (entry_b img), [entry_b img], k) else None) \<and>
    (stack_fits L [entry_b img] \<longrightarrow> on_stack L img s 1 0 0 (Runs (entry_b img), [entry_b img], At_log, k))"
proof -
  obtain k1 where k1: "kmain_boot dev img k0 = Some (Returns, k1)" "running img s s 0 At_yield 0 0 k1"
    using tripleD [OF kmain_boot_triple [OF assms(1,2)] assms(3)] booted_running by blast
  have e: "entries img ! (Suc 0 mod 4) = entry_b img" "called img 1 = [entry_b img]" by (simp_all add: entries_def)
  obtain k where "yield_on L [] k1 = (if stack_fits L [entry_b img] then Some ([entry_b img], k) else None)"
    "running img s s 1 At_log 0 0 k"
    using yield_on_runs [OF k1(2), of L "[]"] unfolding e(1) [symmetric] by auto
  then show ?thesis using k1(1) e by (auto simp: stack_boot_def on_stack_def top_def)
qed

text \<open>A thread step is defined unless it is a call that finds no room, and keeps the invariant.\<close>

lemma stack_step_runs:
  assumes "image_ok img" "on_stack L img s n t m (a, acts, pt, k)"
  shows "if pt = At_yield \<and> \<not> stack_fits L (called img (Suc n)) then stack_step L dev img acts pt k = None
    else \<exists>pt' k'. stack_step L dev img acts pt k =
        Some (Runs (entries img ! ((if pt = At_yield then Suc n else n) mod 4)),
          called img (if pt = At_yield then Suc n else n), pt', k') \<and>
      on_stack L img s (if pt = At_yield then Suc n else n) t m
        (Runs (entries img ! ((if pt = At_yield then Suc n else n) mod 4)), called img (if pt = At_yield then Suc n else n), pt', k') \<and>
      (if pt = At_yield then pt' = At_log else steps_left pt' < steps_left pt)"
proof -
  have s: "0 < n" "acts = called img n" "stack_fits L acts" "running img s s (n mod 4) pt (of_nat t) (of_nat m) k"
    "steps_left pt \<le> 2300052"
    using assms(2) by (auto simp: on_stack_def)
  then obtain es where acts: "acts = entries img ! (n mod 4) # es" by (cases n) auto
  show ?thesis
  proof (cases "pt = At_yield")
    case True
    from yield_on_runs [of img s s "n mod 4" "of_nat t" "of_nat m" k L acts, unfolded mod_Suc_eq s(2), folded called.simps(2)] s(2,4) True
    obtain k' where "yield_on L acts k = (if stack_fits L (called img (Suc n)) then Some (called img (Suc n), k') else None)"
      "running img s s (Suc n mod 4) At_log (of_nat t) (of_nat m) k'"
      by auto
    then show ?thesis using True acts by (auto simp: stack_step_def on_stack_def top_def)
  next
    case False
    from step_runs [OF assms(1) s(4), of dev] False
    obtain pt' k' where "thread_step dev img (entries img ! (n mod 4)) pt k = Some (Runs (entries img ! (n mod 4)), pt', k')"
      "running img s s (n mod 4) pt' (of_nat t) (of_nat m) k'" "steps_left pt' < steps_left pt" by auto
    then show ?thesis using False acts s(1-3,5) by (auto simp: stack_step_def on_stack_def)
  qed
qed

lemma stack_irq_runs:
  assumes "image_ok img" "on_stack L img s n t m (a, acts, pt, k)" "32 \<le> v" "v < 48" "rsp_in L acts x"
  shows "\<exists>x' k'. interrupt dev l (exception_stubs img) v err (x, k) = Some (Returns, x', k') \<and> same_context x x' \<and>
    rflags k' = rflags k \<and> on_stack L img s n (if v = 32 then Suc t else t) (Suc m) (a, acts, pt, k')"
proof -
  have run: "running img s s (n mod 4) pt (of_nat t) (of_nat m) k" using assms(2) by (simp add: on_stack_def)
  from irq_runs [OF this assms(1,3,4) rsp_in_bound [OF assms(5)], of dev l err]
  show ?thesis using assms(2) by (auto simp: on_stack_def add.commute split: if_splits)
qed

text \<open>
  Along a run calls are added, and the steps are paid for: each call has 2300052 of them, a thread at a point has those left of its call.
\<close>

lemma stack_runs_keep:
  assumes "stack_runs L dev img (a0, acts0, pt0, k0) evs c" "image_ok img" "on_stack L img s n0 t m (a0, acts0, pt0, k0)"
  shows "\<exists>d. on_stack L img s (n0 + d) (t + timer_ticks_in evs) (m + requests_in evs) c \<and>
    steps_in evs + steps_left (fst (snd (snd c))) \<le> steps_left pt0 + 2300052 * d"
  using assms(1)
proof (induction rule: stack_runs.induct)
  case runs_none
  then show ?case using assms(3) by (intro exI [of _ 0]) simp
next
  case (runs_step evs e acts pt k a acts' pt' k')
  then obtain d where d: "on_stack L img s (n0 + d) (t + timer_ticks_in evs) (m + requests_in evs) (Runs e, acts, pt, k)"
    "steps_in evs + steps_left pt \<le> steps_left pt0 + 2300052 * d" by auto
  from stack_step_runs [OF assms(2) d(1), of dev] runs_step.hyps(2) d(2) show ?case
    by (intro exI [of _ "if pt = At_yield then Suc d else d"]) (auto split: if_splits)
next
  case (runs_irq evs a acts pt k v x l err r x' k')
  then obtain d where d: "on_stack L img s (n0 + d) (t + timer_ticks_in evs) (m + requests_in evs) (a, acts, pt, k)"
    "steps_in evs + steps_left pt \<le> steps_left pt0 + 2300052 * d" by auto
  from stack_irq_runs [OF assms(2) d(1) runs_irq.hyps(4-6), of dev l err] runs_irq.hyps(7) d(2) show ?case
    by (intro exI [of _ d]) auto
qed

lemma stack_runs_calls:
  assumes "stack_runs L dev img c0 evs c"
  shows "length (fst (snd c)) \<le> length (fst (snd c0)) + steps_in evs"
  using assms
proof (induction rule: stack_runs.induct)
  case (runs_step evs e acts pt k a acts' pt' k')
  then have "length acts' \<le> Suc (length acts)"
    by (auto simp: stack_step_def yield_on_def split: list.splits bind_splits option.splits if_splits)
  then show ?case using runs_step.IH by simp
qed simp_all

text \<open>Every sequence of events happens, in full or up to a call that finds no room.\<close>

lemma stack_runs_progress:
  assumes "image_ok img" "stack_ok L" "on_stack L img s n0 t m c0" "\<forall>e\<in>set evs. event_ok e"
  shows "(\<exists>c. stack_runs L dev img c0 evs c) \<or>
    (\<exists>p q a k n. evs = p @ Thread_step # q \<and> stack_runs L dev img c0 p (a, called img n, At_yield, k) \<and>
       \<not> stack_fits L (called img (Suc n)))"
  using assms(4)
proof (induction evs rule: rev_induct)
  case Nil
  then show ?case using runs_none by blast
next
  case (snoc e evs)
  obtain a0 acts0 pt0 k0 where c0: "c0 = (a0, acts0, pt0, k0)" by (cases c0)
  consider (run) a acts pt k where "stack_runs L dev img c0 evs (a, acts, pt, k)"
    | (full) p q a k n where "evs = p @ Thread_step # q" "stack_runs L dev img c0 p (a, called img n, At_yield, k)"
        "\<not> stack_fits L (called img (Suc n))"
    using snoc by auto
  then show ?case
  proof cases
    case full
    then have "evs @ [e] = p @ Thread_step # (q @ [e])" by simp
    then show ?thesis using full(2,3) by blast
  next
    case run
    then obtain n t' m' where on: "on_stack L img s n t' m' (a, acts, pt, k)"
      using stack_runs_keep [OF run [unfolded c0] assms(1) assms(3) [unfolded c0]] by auto
    then have st: "a = Runs (entries img ! (n mod 4))" "acts = called img n" "stack_fits L acts" "bit (rflags k) 9"
      using running_parts(2) [of img s s "n mod 4" pt "of_nat t'" "of_nat m'" k] by (auto simp: on_stack_def)
    show ?thesis
    proof (cases e)
      case Thread_step
      show ?thesis
      proof (cases "pt = At_yield \<and> \<not> stack_fits L (called img (Suc n))")
        case True
        then show ?thesis using run Thread_step st(2) by blast
      next
        case False
        then obtain b acts' pt' k' where "stack_step L dev img acts pt k = Some (b, acts', pt', k')"
          using stack_step_runs [OF assms(1) on, of dev] by (auto split: if_splits)
        from runs_step [OF run [unfolded st(1)] this] show ?thesis using Thread_step by blast
      qed
    next
      case (Request v)
      then have v: "32 \<le> v" "v < 48" using snoc.prems by (auto simp: event_ok_def)
      let ?x = "undefined\<lparr>rsp := of_nat (stack_low L + 192)\<rparr> :: core"
      have x: "rsp_in L acts ?x" by (rule rsp_in_some [OF assms(2) st(3)])
      from stack_irq_runs [OF assms(1) on v x] obtain l err r x' k' where
        "interrupt dev l (exception_stubs img) v err (?x, k) = Some (r, x', k')" by blast
      from runs_irq [OF run _ st(4) v x this] show ?thesis using Request st(1) by auto
    qed
  qed
qed

text \<open>Without the stack, these runs are those of \<open>kernel_reach\<close>; what is shown there holds of them.\<close>

lemma yield_thread_step:
  assumes "image_ok img" "on_stack L img s n t m (a, acts, pt, k)" "stack_step L dev img acts pt k = Some (a', acts', pt', k')"
  shows "thread_step dev img (entries img ! (n mod 4)) pt k = Some (a', pt', k')"
proof -
  have st: "0 < n" "acts = called img n" "running img s s (n mod 4) pt (of_nat t) (of_nat m) k"
    using assms(2) by (simp_all add: on_stack_def)
  then obtain es where acts: "acts = entries img ! (n mod 4) # es" by (cases n) auto
  obtain msg probe where b: "thread_body img (entries img ! (n mod 4)) = Some (msg, probe)"
    using body_of [OF assms(1), of "n mod 4"] by auto
  show ?thesis
  proof (cases "pt = At_yield")
    case True
    then obtain e sch where y: "thread_yield (g_sched k) = Some (Some e, sch)"
      using yield_runs [of img s s "n mod 4" "of_nat t" "of_nat m" k Idles] st(3)
      by (auto simp: yield_from_def split: bind_splits option.splits)
    then show ?thesis using True assms(3) acts b
      by (auto simp: stack_step_def yield_on_def thread_step_def yield_from_def top_def split: if_splits)
  next
    case False
    then show ?thesis using assms(3) acts by (auto simp: stack_step_def split: bind_splits)
  qed
qed

lemma stack_boot_kmain: "stack_boot L dev img k0 = Some (a, acts, k) \<Longrightarrow> kmain dev img k0 = Some (a, k)"
  by (auto simp: stack_boot_def kmain_def yield_on_def yield_from_def top_def split: bind_splits control.splits option.splits if_splits)

lemma stack_runs_reach:
  assumes "stack_runs L dev img (a0, acts0, At_log, k1) evs (a, acts, pt, k)"
    and img: "image_ok img" "imr_reads dev s" "power_on k0" and boot: "stack_boot L dev img k0 = Some (a0, acts0, k1)"
  shows "kernel_reach dev img k0 evs (length acts) a pt k"
proof -
  have on: "on_stack L img s 1 0 0 (a0, acts0, At_log, k1)" "length acts0 = 1"
    using stack_boot_runs [OF img, of L] boot by (auto split: if_splits)
  show ?thesis
    using assms(1)
  proof (induction evs "(a, acts, pt, k)" arbitrary: a acts pt k rule: stack_runs.induct)
    case runs_none
    then show ?case using reach_boot [OF img(3) stack_boot_kmain [OF boot]] on(2) by simp
  next
    case (runs_step evs e acts pt k a acts' pt' k')
    then obtain n t m where n: "on_stack L img s n t m (Runs e, acts, pt, k)"
      using stack_runs_keep [OF runs_step.hyps(1) img(1) on(1)] by blast
    then have e: "e = entries img ! (n mod 4)" "length acts = n" by (auto simp: on_stack_def)
    have "thread_step dev img e pt k = Some (a, pt', k')"
      unfolding e(1) by (rule yield_thread_step [OF img(1) n runs_step.hyps(3)])
    moreover have "length acts' = (if pt = At_yield then Suc n else n)"
      using stack_step_runs [OF img(1) n, of dev] runs_step.hyps(3) by (auto split: if_splits)
    ultimately show ?case using reach_step [OF runs_step.hyps(2)] e(2) by (cases "pt = At_yield") force+
  next
    case (runs_irq evs a acts pt k v x l err r x' k')
    then show ?case using reach_irq [OF runs_irq.hyps(2-6) rsp_in_bound [OF runs_irq.hyps(7)] runs_irq.hyps(8)] by simp
  qed
qed

end
