(* ===== verification/Spec2Isabelle.thy ===== *)
theory Spec2Isabelle
  imports Journal Pmm_Spec Kmem_Spec Elf_Loader Syscall Vfs_Spec Mcsfs1_Spec M15_Spec Memory Boot_Data Kernel_Stack
begin

text \<open>
  MCSOS is a small x86-64 teaching kernel written in C (\<open>src/kernel\<close>), with a stand-alone file system
  beside it (\<open>src/fs/mcsfs1\<close>). This development models its C code and proves what the
  components do, where their checks suffice and where they do not.

  \<^bold>\<open>The program.\<close> The boot loader jumps to \<open>kmain\<close> (\<open>kernel/core/kmain.c\<close>). It brings up the serial
  console, the frame allocator, the page table, the heap, the lock self test, four cooperative threads,
  the interrupt descriptor table, the interrupt controllers and the timer, enables interrupts and calls
  the first thread. Threads allocate from the heap and hand over with \<open>thread_yield\<close>; hardware
  interrupts enter the C code at \<open>x86_64_trap_dispatch\<close>. The system call dispatcher, the ELF
  loader, the RAM file system with its descriptor layer, the block device, the kernel file
  system and the journal are components that the kernel links and its tests drive.

  \<^bold>\<open>Conventions\<close> (theory \<open>C_Prelude\<close>). A C computation has type \<open>'a option\<close>: \<open>None\<close> is a run without a
  defined result (an access outside its object, a null pointer that is followed, a loop that
  never ends). Machine integers are words of their width, so sums wrap as they do in C. A
  loop counter that runs from zero to a bound of its own type is a \<open>nat\<close>. Objects are records,
  arrays are lists with checked accesses \<open>rd\<close> and \<open>wr\<close>, shared objects live in stores indexed by address.
  List walks whose end depends on the data are \<open>partial_function\<close>s and are shown to return on
  well-formed states; the only fuel is the 100000 polls that the serial driver itself counts.

  \<^bold>\<open>Components.\<close>
    \<^item> \<open>Block_Device\<close> (\<open>block/m14_ramblk.c\<close>): RAM disk and callback dispatch. The locale \<open>block_store\<close> is the
      contract of a block device, interpreted by the RAM disk; a written block reads back, other blocks
      are unaffected, bad requests are refused.
    \<^item> \<open>Journal\<close> (\<open>fs/m16_journal.c\<close>): write-ahead journal. Replay of a committed journal is exact; after any calls in any
      order, with crashes at any byte of a replay, it yields all entries or none; it agrees with writing the entries through the block
      device; and it is shown which journals make it leave its array, none of which \<open>fsck\<close> accepts.
    \<^item> \<open>Pmm\<close> (\<open>core/pmm.c\<close>): bitmap frame allocator; locale \<open>frame_pool\<close>. Frames handed out are exclusive,
      initialisation frees exactly the usable frames and those that a partial last byte of the bitmap leaves free, the counters
      keep their (initially wrong) distance.
    \<^item> \<open>Vmm\<close> (\<open>core/vmm.c\<close>): the table of 256 page mappings; locale \<open>page_table\<close>. It refines a partial map
      for clients that never map a page twice, and counts the mappings of a page for those that do. The control registers and
      the translations held by the processor are a record \<open>mmu\<close>; unmapping needs a \<open>vmm_invlpg\<close> to stay coherent.
    \<^item> \<open>Kmem\<close> (\<open>mm/kmem.c\<close>): first-fit heap; locale \<open>heap_allocator\<close>. Allocations are disjoint and
      inside the heap, the walks end, blocks are reusable but never merged.
    \<^item> \<open>Sched\<close> (\<open>core/thread.c\<close>): thread table over the heap; round robin, disjoint stacks.
    \<^item> \<open>Elf_Loader\<close> (\<open>user/m11_elf_loader.c\<close>): which images are accepted, that the loader reads inside the
      image, and the additions that wrap.
    \<^item> \<open>Syscall\<close> (\<open>core/syscall.c\<close>): dispatcher and its error values.
    \<^item> \<open>Sync\<close> (\<open>sync/m12_*.c\<close>): spinlock, mutex, lock depth; locale \<open>atomic_lock\<close> proves mutual exclusion and
      progress for any interleaving of processors, once for both locks.
    \<^item> \<open>Named_Store\<close>: the locale \<open>named_store\<close>, a table of named files, interpreted by \<open>Ramfs\<close>
      (\<open>fs/m13_ramfs.c\<close>), \<open>Mcsfs1\<close> (\<open>fs/mcsfs1/mcsfs1.c\<close>) and \<open>M15_Fs\<close> (\<open>fs/m15_mcsfs1.c\<close>). \<open>Vfs\<close>
      (\<open>fs/m13_vfs.c\<close>) adds descriptors. Files read back what was written; every descriptor call is
      safe on a well-formed state. \<open>Vfs_Spec\<close> states what the layer promises without its tables (named byte strings,
      descriptors with positions) and proves by simulation that every sequence of calls returns exactly
      what this abstract layer returns. \<open>Mcsfs1_Spec\<close> does the same for the stand-alone file system, which is a finite map
      from names to byte strings with a count of used inodes.
    \<^item> \<open>Refinement\<close>: sequences of calls and the locale \<open>simulation\<close>, which lifts a refinement of single calls to all
      sequences that keep the rules of an interface. It is interpreted by \<open>Vmm\<close> (mappings counted per page), \<open>Pmm_Spec\<close> (the frame allocator as a set of free
      frame numbers), \<open>Kmem_Spec\<close> (the heap as a list of blocks), \<open>Vfs_Spec\<close>, \<open>Mcsfs1_Spec\<close> and \<open>M15_Spec\<close> (the
      kernel file system as windows into a shared area).
    \<^item> \<open>Memory\<close> (\<open>lib/memory.c\<close>): \<open>memset\<close>, \<open>memcpy\<close> and \<open>memmove\<close> on one memory, with overlaps.
    \<^item> \<open>Console\<close> (\<open>core/serial.c\<close>, \<open>core/log.c\<close>, \<open>lib/serial_hex.c\<close>, \<open>io.h\<close>): output in the state monad over a
      trace of port accesses. What a port read yields is a parameter \<open>dev\<close>, an arbitrary function of the
      accesses made so far. \<open>prints\<close> says what an output function sends; numbers read back; a dead
      transmitter delays the kernel but never blocks it.
    \<^item> \<open>Interrupts\<close> (\<open>core/trap.c\<close>, \<open>core/panic.c\<close>, \<open>arch/x86_64/idt.c\<close>, \<open>pic.c\<close>, \<open>pit.c\<close>, \<open>cpu.h\<close>): panic, descriptor table,
      controllers, timer and trap handler, on the machine state extended by the processor's registers
      and the counters.
    \<^item> \<open>Isr\<close> (\<open>arch/x86_64/isr.S\<close>, \<open>syscall_entry.S\<close>, \<open>context_switch.S\<close>, \<open>core/start.S\<close>): the assembly as lists of
      instructions over registers and an addressed stack, and the delivery of an interrupt by the processor. The
      stubs build the frame that the C handler reads, and the interrupted code does not notice an interrupt that
      returns.
    \<^item> \<open>Boot_Data\<close> (\<open>core/boot.c\<close>, \<open>arch/limine.h\<close>, \<open>linker.ld\<close>, \<open>smoke/freestanding.c\<close>): the request area that the boot
      loader scans, the record and the addition of the tool chain test.
    \<^item> \<open>Kmain\<close> (\<open>core/kmain.c\<close>): the whole kernel state, the boot sequence and the thread bodies.
      A small program logic (\<open>triple\<close>, with one predicate per component) composes the components.
    \<^item> \<open>Output_Steps\<close> (\<open>core/serial.c\<close>, \<open>core/log.c\<close>): \<open>log_writeln\<close> one port access at a time, equivalent to the function of \<open>Console\<close>.
    \<^item> \<open>Kernel_Run\<close> (\<open>core/kmain.c\<close>): the threads step by step, equivalent to their passes in \<open>Kmain\<close>, with interrupts
      between any two steps, and the invariant of the running kernel.
    \<^item> \<open>Kernel_Log\<close>: the text that each statement of the kernel prints, an abstract kernel that consists of what an operator
      can see (thread calls, ticks, the text on the serial line), the sequences of events that can happen, and the
      simulation of the abstract kernel by the kernel.
    \<^item> \<open>Kernel_Stack\<close> (\<open>core/thread.c\<close>, \<open>core/kmain.c\<close>): the same runs with the activations of the threads on the boot stack. Every thread is called
      inside the previous one and none returns. The size of the stack and of the frames are parameters (\<open>stack_layout\<close>); of the frames
      it is assumed that a call takes the eight bytes of its return address.
  This theory states what holds of the running kernel: it boots, in every order of thread steps and
  interrupts it runs until its stack is full, which is bound to happen, the serial line carries the text of the abstract kernel, and no
  thread is starved while the stack lasts.

  \<^bold>\<open>Granularity.\<close> Several processors interleave at the atomic builtins in \<open>Sync\<close>. In the running kernel an
  interrupt is taken between two steps of a thread, through its gate and its stub, with any register contents and
  at least 192 bytes of stack. A step is one access to the serial port or to \<open>g_log_ready\<close>, which the handlers use too, or
  one of the other statements, on objects that no handler touches. The handlers run with interrupts disabled. The last
  statement of a pass is \<open>thread_yield\<close>, which calls the next thread. \<open>kernel_reach\<close> (\<open>Kernel_Log\<close>) leaves the stack out of account; the
  runs on a stack of \<open>Kernel_Stack\<close> are among its runs (\<open>stack_runs_reach\<close>), and a thread call for which there is no room has
  no defined result there.

  \<^bold>\<open>Hardware.\<close> How a UART, an interrupt controller and the interval timer read the port writes is
  written down as \<open>uart_step\<close>, \<open>pic_step\<close> and \<open>pit_step\<close>; these observers occur only in
  statements. The only assumptions on devices are \<open>tx_ready\<close> (the transmitter reports ready) where complete
  output is claimed, and \<open>imr_reads\<close> (the mask register reads back) for the boot sequence.

  \<^bold>\<open>Not modelled.\<close> \<open>hlt\<close> and \<open>pause\<close> have no effect on the modelled state. The boot loader itself is not part of the
  repository, and the declarations of \<open>limine.h\<close> that \<open>boot.c\<close> does not use have no effect. The stubs that replace inline
  assembly in the host test build are empty. The number of bytes of a stack frame and the size of the boot stack are not in
  the sources; they are the parameters of \<open>Kernel_Stack\<close>.
\<close>

section \<open>The whole kernel\<close>

text \<open>
  C1. The boot sequence: from zeroed static objects \<open>kmain\<close> passes every assertion and calls
  thread B with interrupts enabled. At that point the descriptor table is loaded and has a gate for each
  of the 48 assembly stubs and for no other vector, the interrupt controllers deliver their lines at
  vectors 32 and 40 with every line but the timer masked, the timer runs at divisor 11931, the
  page at 0x400000 is mapped, the locks are free, and four threads are registered. 768
  frames are free but the frame allocator counts 767. The mask register of the first
  controller has to read back what was written to it.
\<close>

theorem kernel_boots:
  assumes "image_ok img" "imr_reads dev s1" "power_on k"
  shows "\<exists>k'. kmain dev img k = Some (Runs (entry_b img), k') \<and>
    bit (rflags k') 9 \<and> loaded_idtr k' = Some (4095, idt_address img) \<and> gates_installed img (idt k') \<and>
    pic_state PIC1_COMMAND s1 (io_trace k') = (0, 32, 0xFE) \<and>
    pic_state PIC2_COMMAND s2 (io_trace k') = (0, 40, 0xFF) \<and> snd (snd (pit_state (io_trace k'))) = 11931 \<and>
    vmm_query_page (g_map k') 0x400000 (Some 0) (Some 0) = Some (True, Some 0x200000, Some 3) \<and>
    spin_locked (m12_boot_lock k') = 0 \<and> mtx_locked (m12_boot_mutex k') = 0 \<and> m12_boot_counter k' = 2 \<and>
    map th_entry (take 4 (threads (g_sched k'))) = [entry_a img, entry_b img, entry_c img, entry_d img] \<and>
    thread_count (g_sched k') = 4 \<and>
    pmm_free_count (kernel_pmm k') = 767 \<and> card (free_set (kernel_pmm k')) = 768"
proof -
  obtain k1 where k1: "kmain_boot dev img k = Some (Returns, k1)" "running img s1 s2 0 At_yield 0 0 k1"
    using tripleD [OF kmain_boot_triple [OF assms(1,2)] assms(3)] booted_running by blast
  obtain k' where k': "yield_from Idles k1 = Some (Runs (entries img ! 1), k')" "running img s1 s2 1 At_log 0 0 k'"
    using yield_runs [OF k1(2), of Idles] by auto
  have "unat (thread_count (g_sched k')) = 4" using k'(2) by (auto simp: running_def stage_def sched_threads_def)
  then have "thread_count (g_sched k') = 4" by (simp add: word_unat_eq_iff)
  moreover have "vmm_query_page (g_map k') 0x400000 (Some 0) (Some 0) = Some (True, Some 0x200000, Some 3)"
    using k'(2) vmm_query_eq [of "g_map k'"] by (auto simp: running_def stage_def boot_mapping_def vmm_wf_def)
  moreover have "map th_entry (take 4 (threads (g_sched k'))) = entries img"
    using k'(2) by (auto simp: running_def stage_def sched_threads_def)
  moreover have "card {256..<1024 :: nat} = 768" by simp
  ultimately show ?thesis
    using k1(1) k' by (intro exI [of _ k'] conjI)
      (auto simp: kmain_def running_def stage_defs idt_ready_def ports_ready_def controllers_ready_def
        boot_locks_def boot_pmm_state_def entries_def pmm_free_count_def)
qed

text \<open>A machine to run it on: a concrete image, zeroed objects and ports that answer.\<close>

definition demo_image :: kernel_image where
  "demo_image = \<lparr>kernel_start = 0x100000, kernel_end = 0x200000, heap_address = 0x110000, idt_address = 0x130000,
     exception_stubs = demo_stubs, boot_mmu = \<lparr>cr2 = 0, cr3 = 0x1000, tlb = Map.empty\<rparr>, entry_a = 0x102000, entry_b = 0x102100,
     entry_c = 0x102200, entry_d = 0x102300\<rparr>"

definition demo_device :: device where
  "demo_device tr p = (if p = PIC1_DATA then snd (snd (pic_state PIC1_COMMAND (0, 0, 0) tr)) else 0x20)"

definition demo_kernel :: kernel where
  "demo_kernel = \<lparr>io_trace = [], g_log_ready = False, rflags = 2, idt = replicate 256 null_gate, idtr_limit = 0,
     idtr_base = 0, loaded_idtr = None, g_ticks = 0, trap_count = 0, kernel_pmm = bss_pmm, g_map = bss_mappings,
     g_kmem = \<lparr>g_head = 0, hdrs = Map.empty\<rparr>,
     g_sched = \<lparr>threads = replicate 16 \<lparr>th_entry = 0, th_stack = 0, th_state = THREAD_READY\<rparr>, thread_count = 0,
       current_thread = 0\<rparr>,
     m12_boot_lock = \<lparr>spin_locked = 0\<rparr>, m12_boot_mutex = \<lparr>mtx_locked = 0\<rparr>, m12_boot_counter = 0, m12_lock_depth = 0\<rparr>"

lemma demo_ok: "image_ok demo_image" "imr_reads demo_device (0, 0, 0)" "power_on demo_kernel" "tx_ready demo_device"
  by (simp_all add: image_ok_def demo_image_def imr_reads_def demo_device_def power_on_def demo_kernel_def tx_ready_def
      demo_stubs_ok)

lemma demo_entries: "entry_b demo_image = 0x102100" "entry_c demo_image = 0x102200"
  by (simp_all add: demo_image_def)

theorem kernel_boots_witness:
  "\<exists>k'. kmain demo_device demo_image demo_kernel = Some (Runs 0x102100, k') \<and> pmm_free_count (kernel_pmm k') = 767"
  using kernel_boots [OF demo_ok(1-3), where ?s2.0 = "(0, 0, 0)"] by (auto simp: demo_entries)

text \<open>
  C2. What stops the kernel: from boot on, in every order of thread steps and hardware interrupts, the only thing that stops it is a call of
  \<open>thread_yield\<close> for which the boot stack has no room left, and that is bound to come. In every state that is reached, the activations on the stack are all
  thread calls made so far, in their fixed order B, C, D, A, none of which has returned; the running thread is the last of them. Each takes at
  least the eight bytes of its return address, so the size of the stack bounds the number of calls, and the number of steps is below 2300052 per call.
  Interrupts are enabled, and the counters say how many interrupts and timer ticks there were, modulo 2^64. The next step of the thread is
  defined and does not halt the kernel (so its allocation succeeds and its assertion holds), unless it is a call without room, which has no defined
  result. Any interrupt request, through its gate and stub, returns with the interrupted registers and
  flags as they were, if the stack pointer is inside the stack with 192 bytes left.
\<close>

theorem kernel_stops_on_full_stack:
  assumes "image_ok img" "imr_reads dev s1" "stack_ok L" "power_on k0" "stack_boot L dev img k0 = Some (a0, acts0, k1)"
    and "stack_runs L dev img (a0, acts0, At_log, k1) evs (a, acts, pt, k)"
  shows "acts = called img (length acts) \<and> a = Runs (hd acts) \<and>
    boot_frame L + 8 * length acts + call_room L \<le> stack_size L \<and> steps_in evs < 2300052 * length acts \<and>
    bit (rflags k) 9 \<and> g_ticks k = of_nat (timer_ticks_in evs) \<and> trap_count k = of_nat (requests_in evs) \<and>
    (if pt = At_yield \<and> \<not> stack_fits L (called img (Suc (length acts))) then stack_step L dev img acts pt k = None
     else \<exists>pt' k'. stack_step L dev img acts pt k =
       (if pt = At_yield then Some (Runs (hd (called img (Suc (length acts)))), called img (Suc (length acts)), pt', k')
        else Some (Runs (hd acts), acts, pt', k'))) \<and>
    (\<forall>v x l err. 32 \<le> v \<and> v < 48 \<and> rsp_in L acts x \<longrightarrow>
       (\<exists>x' k'. interrupt dev l (exception_stubs img) v err (x, k) = Some (Returns, x', k') \<and>
          same_context x x' \<and> rflags k' = rflags k))"
proof -
  have boot: "on_stack L img s1 1 0 0 (a0, acts0, At_log, k1)"
    using stack_boot_runs [OF assms(1,2,4), of L] assms(5) by (auto split: if_splits)
  obtain d where d: "on_stack L img s1 (1 + d) (timer_ticks_in evs) (requests_in evs) (a, acts, pt, k)"
    "steps_in evs + steps_left pt \<le> 2300052 * (1 + d)"
    using stack_runs_keep [OF assms(6,1) boot] by auto
  let ?n = "1 + d"
  have st: "acts = called img ?n" "a = Runs (entries img ! (?n mod 4))" "stack_fits L acts"
    "running img s1 s1 (?n mod 4) pt (of_nat (timer_ticks_in evs)) (of_nat (requests_in evs)) k"
    using d(1) unfolding on_stack_def by blast+
  have n: "length acts = ?n" "hd acts = entries img ! (?n mod 4)" "hd (called img (Suc ?n)) = entries img ! (Suc ?n mod 4)"
    using st(1) by simp_all
  have "0 < steps_left pt" by (cases pt) auto
  moreover have "if pt = At_yield \<and> \<not> stack_fits L (called img (Suc ?n)) then stack_step L dev img acts pt k = None
      else \<exists>pt' k'. stack_step L dev img acts pt k =
        (if pt = At_yield then Some (Runs (entries img ! (Suc ?n mod 4)), called img (Suc ?n), pt', k')
         else Some (Runs (entries img ! (?n mod 4)), acts, pt', k'))"
    using stack_step_runs [OF assms(1) d(1), of dev] st(1) by (cases "pt = At_yield") (simp_all split: if_splits, blast+)
  moreover have "\<exists>x' k'. interrupt dev l (exception_stubs img) v err (x, k) = Some (Returns, x', k') \<and>
      same_context x x' \<and> rflags k' = rflags k"
    if "32 \<le> v \<and> v < 48 \<and> rsp_in L acts x" for v x l err
    using stack_irq_runs [OF assms(1) d(1), of v x dev l err] that by blast
  ultimately show ?thesis
    using d(2) stack_fits_calls [OF assms(3) st(3)] running_parts(2,4,5) [OF st(4)] st(1,2)
    unfolding n by (intro conjI) (assumption | simp)+
qed

lemma demo_runs:
  "\<exists>k. kmain demo_device demo_image demo_kernel = Some (Runs 0x102100, k) \<and>
     kernel_reach demo_device demo_image demo_kernel [] 1 (Runs 0x102100) At_log k"
proof -
  obtain k1 where k1: "kmain_boot demo_device demo_image demo_kernel = Some (Returns, k1)"
    "running demo_image (0, 0, 0) (0, 0, 0) 0 At_yield 0 0 k1"
    using tripleD [OF kmain_boot_triple [OF demo_ok(1,2)] demo_ok(3)] booted_running by blast
  obtain k where "kmain demo_device demo_image demo_kernel = Some (Runs (entries demo_image ! 1), k)"
    using yield_runs [OF k1(2), of Idles] k1(1) by (auto simp: kmain_def)
  then have "kmain demo_device demo_image demo_kernel = Some (Runs 0x102100, k)" by (simp add: entries_def demo_entries)
  then show ?thesis using reach_boot [OF demo_ok(3)] by blast
qed

text \<open>A stack for the witnesses, far larger than what a boot loader provides.\<close>

definition demo_stack :: stack_layout where
  "demo_stack = \<lparr>stack_low = 0x100000000, stack_size = 0x100000000, boot_frame = 256, thread_frame = (\<lambda>e. 64), call_room = 4096\<rparr>"

lemma demo_stack_fits: "stack_fits demo_stack (called demo_image n) \<longleftrightarrow> 4352 + 64 * n \<le> 0x100000000"
proof -
  have "sum_list (map (\<lambda>e. 64) (called demo_image n)) = 64 * n" by (induction n) simp_all
  then show ?thesis by (simp add: stack_fits_def stack_used_def demo_stack_def)
qed

lemma demo_stack_ok: "stack_ok demo_stack"
  by (simp add: stack_ok_def demo_stack_def)

lemma demo_boots:
  "\<exists>k. stack_boot demo_stack demo_device demo_image demo_kernel = Some (Runs 0x102100, [0x102100], k)"
proof -
  have "called demo_image 1 = [0x102100]" by (simp add: entries_def demo_entries)
  then have "stack_fits demo_stack [entry_b demo_image]" using demo_stack_fits [of 1] by (simp add: demo_entries)
  then show ?thesis using stack_boot_runs [OF demo_ok(1-3), of demo_stack] by (auto simp: demo_entries)
qed

theorem kernel_stops_on_full_stack_witness:
  "\<exists>k pt k'. stack_boot demo_stack demo_device demo_image demo_kernel = Some (Runs 0x102100, [0x102100], k) \<and>
     stack_step demo_stack demo_device demo_image [0x102100] At_log k = Some (Runs 0x102100, [0x102100], pt, k') \<and> g_ticks k = 0"
proof -
  obtain k where k: "stack_boot demo_stack demo_device demo_image demo_kernel = Some (Runs 0x102100, [0x102100], k)"
    using demo_boots by blast
  from kernel_stops_on_full_stack [OF demo_ok(1,2) demo_stack_ok demo_ok(3) k runs_none] k show ?thesis
    by (auto simp: timer_ticks_in_def)
qed



text \<open>
  C4. No thread is starved while the stack lasts: from every state that is reached, take any sequence of thread steps and interrupt
  requests with at least 4 * 2300052 thread steps in it (each of the 23 characters of a line is polled for at most 100000 times, however slow the serial
  port is). Every run along it calls all four threads, and no others, since then. And there is such a run, unless on the way a call of
  \<open>thread_yield\<close> finds no room on the stack.
\<close>

theorem kernel_threads_alternate:
  assumes "image_ok img" "imr_reads dev s1" "stack_ok L" "power_on k0" "stack_boot L dev img k0 = Some (a0, acts0, k1)"
    and "stack_runs L dev img (a0, acts0, At_log, k1) evs (a, acts, pt, k)"
    and "\<forall>e\<in>set later. event_ok e" "4 * 2300052 \<le> steps_in later"
  shows "(\<forall>a' acts' pt' k'. stack_runs L dev img (a, acts, pt, k) later (a', acts', pt', k') \<longrightarrow>
      (\<exists>calls. acts' = calls @ acts \<and> set calls = {entry_a img, entry_b img, entry_c img, entry_d img})) \<and>
    ((\<exists>c. stack_runs L dev img (a, acts, pt, k) later c) \<or>
     (\<exists>p q a' k' n. later = p @ Thread_step # q \<and> stack_runs L dev img (a, acts, pt, k) p (a', called img n, At_yield, k') \<and>
        \<not> stack_fits L (called img (Suc n))))"
proof -
  have boot: "on_stack L img s1 1 0 0 (a0, acts0, At_log, k1)"
    using stack_boot_runs [OF assms(1,2,4), of L] assms(5) by (auto split: if_splits)
  obtain n t m where on: "on_stack L img s1 n t m (a, acts, pt, k)"
    using stack_runs_keep [OF assms(6,1) boot] by blast
  have "\<exists>calls. acts' = calls @ acts \<and> set calls = {entry_a img, entry_b img, entry_c img, entry_d img}"
    if run: "stack_runs L dev img (a, acts, pt, k) later (a', acts', pt', k')" for a' acts' pt' k'
  proof -
    obtain d t' m' where d: "on_stack L img s1 (n + d) t' m' (a', acts', pt', k')"
      "steps_in later + steps_left pt' \<le> steps_left pt + 2300052 * d"
      using stack_runs_keep [OF run assms(1) on] by auto
    have "steps_left pt \<le> 2300052" "0 < steps_left pt'" using on by (simp_all add: on_stack_def) (cases pt', auto)
    then have "4 \<le> d" using d(2) assms(8) by linarith
    moreover have "acts = called img n" "acts' = called img (n + d)" using on d(1) by (simp_all add: on_stack_def)
    ultimately show ?thesis using called_all [of d img n] set_entries(1) by metis
  qed
  then show ?thesis using stack_runs_progress [OF assms(1,3) on assms(7), of dev] by blast
qed

theorem kernel_threads_alternate_witness:
  "\<exists>k c calls. stack_boot demo_stack demo_device demo_image demo_kernel = Some (Runs 0x102100, [0x102100], k) \<and>
     stack_runs demo_stack demo_device demo_image (Runs 0x102100, [0x102100], At_log, k) (replicate (4 * 2300052) Thread_step) c \<and>
     fst (snd c) = calls @ [0x102100] \<and> set calls = {0x102000, 0x102100, 0x102200, 0x102300}"
proof -
  define later where "later = replicate (4 * 2300052) Thread_step"
  have later: "\<forall>e\<in>set later. event_ok e" "steps_in later = 4 * 2300052"
    unfolding later_def steps_in_def by (auto simp: event_ok_def count_list_eq_length_filter)
  obtain k where k: "stack_boot demo_stack demo_device demo_image demo_kernel = Some (Runs 0x102100, [0x102100], k)"
    using demo_boots by blast
  let ?c = "(Runs 0x102100, [0x102100], At_log, k)"
  have "4 * 2300052 \<le> steps_in later" using later(2) by simp
  note t = kernel_threads_alternate [OF demo_ok(1,2) demo_stack_ok demo_ok(3) k runs_none later(1) this]
  have room: "stack_fits demo_stack (called demo_image (Suc n))"
    if "later = p @ Thread_step # q" "stack_runs demo_stack demo_device demo_image ?c p (a', called demo_image n, At_yield, k')" for p q a' k' n
  proof -
    have "steps_in p \<le> steps_in later" using that(1) by (simp add: steps_in_def)
    then have "n \<le> 1 + 4 * 2300052" using stack_runs_calls [OF that(2)] later(2) by simp
    then show ?thesis unfolding demo_stack_fits by simp
  qed
  obtain c where c: "stack_runs demo_stack demo_device demo_image ?c later c" using t room by blast
  moreover obtain calls where "fst (snd c) = calls @ [0x102100]"
    "set calls = {entry_a demo_image, entry_b demo_image, entry_c demo_image, entry_d demo_image}"
    using conjunct1 [OF t] c by (metis fst_conv snd_conv surj_pair)
  moreover have "entry_a demo_image = 0x102000" "entry_d demo_image = 0x102300" by (simp_all add: demo_image_def)
  ultimately show ?thesis using k demo_entries unfolding later_def by metis
qed

text \<open>
  C5. Exceptions in the running kernel: in every reachable state, an exception (vectors 0 to 31) of whatever the processor is doing goes
  through its gate and stub, given 192 bytes of stack. The breakpoint comes back with the registers and flags as they were. Any other exception
  halts the kernel with interrupts disabled. Both are counted, and a ready transmitter sends the report: the name of the exception,
  vector, error code, instruction pointer, code segment and flags of the interrupted code, and then either
  that the breakpoint was handled or the panic message with the vector as its code.
\<close>

theorem kernel_exception_exact:
  assumes "image_ok img" "imr_reads dev s1" "kernel_reach dev img k0 evs n a pt k" "v < 32" "192 \<le> unat (rsp x)"
  shows "\<exists>x' k'. interrupt dev l (exception_stubs img) v err (x, k) = Some (if v = 3 then Returns else Halts, x', k') \<and>
    (v = 3 \<longrightarrow> same_context x x' \<and> rflags k' = rflags k) \<and> (v \<noteq> 3 \<longrightarrow> \<not> bit (rflags k') 9) \<and>
    trap_count k' = trap_count k + 1 \<and> g_kmem k' = g_kmem k \<and> g_sched k' = g_sched k \<and>
    (tx_ready dev \<longrightarrow> console_text k' = console_text k @
       text_line (''[M5] trap: '' @ exception_names ! v) @ hex_line ''trap_vector'' (of_nat v) @
       hex_line ''trap_error'' (if v \<in> {8, 10, 11, 12, 13, 14, 17, 21, 29, 30} then err else 0) @
       hex_line ''trap_rip'' (ctx_ip x) @ hex_line ''trap_cs'' (ctx_cs x) @ hex_line ''trap_rflags'' (rflags k) @
       (if v = 3 then text_line ''[M5] breakpoint handled; returning''
        else panic_text ''kernel/core/trap.c'' 69 ''unrecoverable CPU exception'' (of_nat v)
          (entry_flags X86_64_IDT_GATE_INTERRUPT (rflags k))))"
proof -
  have r: "running img s1 s1 (n mod 4) pt (of_nat (timer_ticks_in evs)) (of_nat (requests_in evs)) k"
    using kernel_reach_running [OF assms(3,1,2)] by blast
  let ?f = "expected_frame v err x (rflags k)"
  let ?attr = "if v = 3 then X86_64_IDT_GATE_TRAP else X86_64_IDT_GATE_INTERRUPT"
  have u: "unat (of_nat v :: u64) = v" using assms(4) by (simp add: unat_of_nat)
  then have v: "(of_nat v :: u64) < 32" "(of_nat v :: u64) = 3 \<longleftrightarrow> v = 3"
    using assms(4) by (auto simp: word_less_nat_alt word_unat_eq_iff)
  have name: "trap_name (of_nat v) = exception_names ! v" using u v(1) by (simp add: trap_name_def)
  have "exception_text ?f (entry_flags ?attr (rflags k)) =
      text_line (''[M5] trap: '' @ exception_names ! v) @ hex_line ''trap_vector'' (of_nat v) @
      hex_line ''trap_error'' (if v \<in> {8, 10, 11, 12, 13, 14, 17, 21, 29, 30} then err else 0) @
      hex_line ''trap_rip'' (ctx_ip x) @ hex_line ''trap_cs'' (ctx_cs x) @ hex_line ''trap_rflags'' (rflags k) @
      (if v = 3 then text_line ''[M5] breakpoint handled; returning''
       else panic_text ''kernel/core/trap.c'' 69 ''unrecoverable CPU exception'' (of_nat v)
         (entry_flags X86_64_IDT_GATE_INTERRUPT (rflags k)))"
    using v(2) by (simp add: exception_text_def trap_text_def expected_frame_def name has_error_code_def)
  then show ?thesis
    using exception_runs [OF r assms(1,4,5) refl, of dev l err] running_parts(5) [OF r] by metis
qed

theorem kernel_exception_exact_witness:
  "\<exists>k x' k'. kernel_reach demo_device demo_image demo_kernel [] 1 (Runs 0x102100) At_log k \<and>
     interrupt demo_device \<lparr>left_gpr = (\<lambda>r. 0), left_mem = (\<lambda>a. 0)\<rparr> demo_stubs 14 2 (demo_core, k) = Some (Halts, x', k') \<and>
     \<not> bit (rflags k') 9"
proof -
  obtain k where k: "kernel_reach demo_device demo_image demo_kernel [] 1 (Runs 0x102100) At_log k" using demo_runs by blast
  have "(14 :: nat) < 32" "192 \<le> unat (rsp demo_core)" by (simp_all add: demo_core_def)
  from kernel_exception_exact [OF demo_ok(1,2) k this, of "\<lparr>left_gpr = (\<lambda>r. 0), left_mem = (\<lambda>a. 0)\<rparr>" 2] k
  show ?thesis by (auto simp: demo_image_def)
qed

end
